(* ===== verification/Prelude.thy ===== *)
theory Prelude
  imports Main "HOL-Library.Word" "HOL-Library.Monad_Syntax"
begin

unbundle bit_operations_syntax

text \<open>
  What the component theories share: the C integer and byte types, the value of a C
  character, the copy of a memory block, and the generic facts on lists, words and
  options that carry the component proofs.

  Conventions.  A C \<open>unsigned\<close> is a \<open>32 word\<close>; a C \<open>int\<close> that cannot overflow is
  an \<open>int\<close>; a byte of memory is a \<open>char\<close> and a memory block a list of bytes.
  Straight-line C code that touches memory is an \<open>option\<close>, where \<open>None\<close> is undefined
  behaviour (an access outside the block, a null pointer).  A loop that may not end is a
  \<open>partial_function (option)\<close> over such results: the outer \<open>None\<close> is a loop that does
  not return, \<open>Some None\<close> is undefined behaviour, and \<open>Some (Some r)\<close> is a return.
\<close>

named_theorems mem_simps \<open>reads, writes and copies of memory blocks\<close>

type_synonym unsigned = "32 word"
type_synonym bytes = "char list"
type_synonym 'a c_loop = "'a option option"

text \<open>Sequencing: a part that does not end or is undefined decides for the whole.\<close>

definition c_bind :: "'a c_loop \<Rightarrow> ('a \<Rightarrow> 'b c_loop) \<Rightarrow> 'b c_loop" where
  "c_bind m k = Option.bind m (\<lambda>z. case z of None \<Rightarrow> Some None | Some a \<Rightarrow> k a)"

definition c_step :: "'a option \<Rightarrow> 'a c_loop" where
  "c_step m = Some m"

lemma c_bind_simps [simp]:
  "c_bind None k = None" "c_bind (Some None) k = Some None" "c_bind (Some (Some a)) k = k a"
  "c_bind (c_step None) k = Some None" "c_bind (c_step (Some a)) k = k a"
  by (simp_all add: c_bind_def c_step_def)

lemma c_bind_Some: "c_bind m k = Some (Some b) \<longleftrightarrow> (\<exists>a. m = Some (Some a) \<and> k a = Some (Some b))"
  by (auto simp: c_bind_def bind_eq_Some_conv split: option.splits)

lemma c_bindE:
  assumes "c_bind m k = Some (Some b)"
  obtains a where "m = Some (Some a)" "k a = Some (Some b)"
  using assms by (auto simp: c_bind_Some)

lemma c_step_Some: "c_step m = Some (Some a) \<longleftrightarrow> m = Some a"
  by (simp add: c_step_def)

lemma c_bind_assoc: "c_bind (c_bind m f) g = c_bind m (\<lambda>x. c_bind (f x) g)"
  by (auto simp: c_bind_def split: option.splits Option.bind_splits)

lemma c_bind_mono [partial_function_mono]:
  assumes "mono_option m" "\<And>y. mono_option (\<lambda>f. k y f)"
  shows "mono_option (\<lambda>f. c_bind (m f) (\<lambda>y. k y f))"
  unfolding c_bind_def
proof (rule bind_mono [OF assms(1)])
  fix z
  show "mono_option (\<lambda>f. case z of None \<Rightarrow> Some None | Some a \<Rightarrow> k a f)"
    using assms(2) by (cases z) (auto intro: option.const_mono)
qed

section \<open>Characters\<close>

text \<open>A plain \<open>char\<close> is signed (gcc on x86): its value as an \<open>int\<close> is sign extended.\<close>

definition char_int :: "char \<Rightarrow> int" where
  "char_int c = (let n = of_char c :: int in if n < 128 then n else n - 256)"

definition int_char :: "int \<Rightarrow> char" where
  "int_char i = char_of i"

abbreviation (input) NUL :: char where "NUL \<equiv> CHR 0x00"

lemma of_char_int_bounds: "0 \<le> (of_char c :: int)" "(of_char c :: int) < 256"
proof -
  have "(of_char c :: int) mod 256 = of_char c" by simp
  then show "0 \<le> (of_char c :: int)" "(of_char c :: int) < 256"
    by (metis pos_mod_sign pos_mod_bound zero_less_numeral)+
qed

definition sign8 :: "int \<Rightarrow> int" where
  "sign8 n = (if n < 128 then n else n - 256)"

lemma char_int_sign8: "char_int c = sign8 (of_char c)"
  unfolding char_int_def sign8_def Let_def by (rule refl)

lemma sign8_bounds: "0 \<le> n \<Longrightarrow> n < 256 \<Longrightarrow> -128 \<le> sign8 n \<and> sign8 n < 128"
  unfolding sign8_def by presburger

lemma sign8_mod: "sign8 n mod 256 = n mod 256"
  by (simp add: sign8_def minus_mod_self2)

lemma sign8_of_mod:
  assumes "-128 \<le> i" "i < 128"
  shows "sign8 (i mod 256) = i"
proof (cases "i < 0")
  case True
  have "i mod 256 = (i + 256) mod 256" by (rule mod_add_self2 [symmetric])
  also have "\<dots> = i + 256" using True assms by (intro mod_pos_pos_trivial) auto
  finally show ?thesis using assms by (simp add: sign8_def)
next
  case False
  then show ?thesis using assms by (simp add: sign8_def mod_pos_pos_trivial)
qed

lemma char_int_bounds: "-128 \<le> char_int c" "char_int c < 128"
  unfolding char_int_sign8 using sign8_bounds [OF of_char_int_bounds] by blast+

lemma int_char_char_int [simp]: "int_char (char_int c) = c"
proof -
  have "int_char (char_int c) = char_of (sign8 (of_char c) mod 256)"
    unfolding int_char_def char_int_sign8 by (rule char_of_mod_256 [symmetric])
  also have "\<dots> = char_of ((of_char c :: int) mod 256)"
    unfolding sign8_mod by (rule refl)
  also have "\<dots> = c" unfolding char_of_mod_256 by (rule char_of_char)
  finally show ?thesis .
qed

lemma char_int_inject [simp]: "char_int c = char_int d \<longleftrightarrow> c = d"
  by (metis int_char_char_int)

lemma char_int_int_char: "-128 \<le> i \<Longrightarrow> i < 128 \<Longrightarrow> char_int (int_char i) = i"
  unfolding char_int_sign8 int_char_def of_char_of by (rule sign8_of_mod)

section \<open>Memory blocks\<close>

definition mem_read :: "bytes \<Rightarrow> nat \<Rightarrow> char option" where
  "mem_read d i = (if i < length d then Some (d ! i) else None)"

definition mem_write :: "bytes \<Rightarrow> nat \<Rightarrow> char \<Rightarrow> bytes option" where
  "mem_write d i c = (if i < length d then Some (d[i := c]) else None)"

text \<open>\<open>memcpy(dst + d, src + s, n)\<close>: undefined unless both ranges lie inside their blocks.\<close>

definition memcpy :: "bytes \<Rightarrow> nat \<Rightarrow> bytes \<Rightarrow> nat \<Rightarrow> nat \<Rightarrow> bytes option" where
  "memcpy dst d src s n =
     (if d + n \<le> length dst \<and> s + n \<le> length src
      then Some (take d dst @ take n (drop s src) @ drop (d + n) dst) else None)"

lemma mem_read_Some [mem_simps]: "i < length d \<Longrightarrow> mem_read d i = Some (d ! i)"
  by (simp add: mem_read_def)

lemma mem_write_Some [mem_simps]: "i < length d \<Longrightarrow> mem_write d i c = Some (d[i := c])"
  by (simp add: mem_write_def)

lemma memcpy_Some [mem_simps]:
  "d + n \<le> length dst \<Longrightarrow> s + n \<le> length src
   \<Longrightarrow> memcpy dst d src s n = Some (take d dst @ take n (drop s src) @ drop (d + n) dst)"
  by (simp add: memcpy_def)

lemma memcpy_None: "length src < s + n \<Longrightarrow> memcpy dst d src s n = None"
  by (simp add: memcpy_def)

section \<open>Rings\<close>

text \<open>
  A memory block of \<open>length d\<close> bytes read as a ring: \<open>ring_slice d i n\<close> is the \<open>n\<close> bytes
  from position \<open>i\<close> on, positions taken modulo the length, and \<open>ring_put d i xs\<close> stores
  \<open>xs\<close> there.
\<close>

definition ring_slice :: "'a list \<Rightarrow> nat \<Rightarrow> nat \<Rightarrow> 'a list" where
  "ring_slice d i n = map (\<lambda>k. d ! ((i + k) mod length d)) [0..<n]"

fun ring_put :: "'a list \<Rightarrow> nat \<Rightarrow> 'a list \<Rightarrow> 'a list" where
  "ring_put d i [] = d"
| "ring_put d i (x # xs) = ring_put (d[i mod length d := x]) (Suc i) xs"

lemma length_ring_slice [simp]: "length (ring_slice d i n) = n"
  by (simp add: ring_slice_def)

lemma length_ring_put [simp]: "length (ring_put d i xs) = length d"
  by (induction d i xs rule: ring_put.induct) simp_all

lemma ring_slice_0 [simp]: "ring_slice d i 0 = []"
  by (simp add: ring_slice_def)

lemma ring_slice_Suc: "ring_slice d i (Suc n) = ring_slice d i n @ [d ! ((i + n) mod length d)]"
  by (simp add: ring_slice_def)

lemma ring_slice_add: "ring_slice d i (m + n) = ring_slice d i m @ ring_slice d (i + m) n"
  by (induction n) (simp_all add: ring_slice_Suc add.assoc)

lemma ring_slice_Cons: "ring_slice d i (Suc n) = d ! (i mod length d) # ring_slice d (Suc i) n"
  using ring_slice_add [of d i 1 n] by (simp add: ring_slice_Suc)

lemma ring_slice_mod [simp]: "ring_slice d (i mod length d) n = ring_slice d i n"
  by (simp add: ring_slice_def mod_add_left_eq)

lemma ring_slice_cong_mod:
  "i mod length d = j mod length d \<Longrightarrow> ring_slice d i n = ring_slice d j n"
  using ring_slice_mod [of d i n] ring_slice_mod [of d j n] by simp

lemma take_ring_slice: "take m (ring_slice d i n) = ring_slice d i (min m n)"
  by (simp add: ring_slice_def take_map take_upt min_def)

lemma drop_ring_slice: "m \<le> n \<Longrightarrow> drop m (ring_slice d i n) = ring_slice d (i + m) (n - m)"
  using ring_slice_add [of d i m "n - m"] by simp

lemma ring_slice_flat: "i + n \<le> length d \<Longrightarrow> ring_slice d i n = take n (drop i d)"
  by (rule nth_equalityI) (simp_all add: ring_slice_def)

lemma ring_slice_wrap:
  assumes "i \<le> length d" "length d \<le> i + n" "n \<le> length d"
  shows "ring_slice d i n = drop i d @ take (i + n - length d) d"
proof -
  have "ring_slice d i n = ring_slice d i (length d - i) @ ring_slice d (length d) (i + n - length d)"
    using ring_slice_add [of d i "length d - i" "i + n - length d"] assms by simp
  also have "ring_slice d (length d) (i + n - length d) = ring_slice d 0 (i + n - length d)"
    by (rule ring_slice_cong_mod) simp
  finally show ?thesis using assms by (simp add: ring_slice_flat)
qed

lemma wrap_add_mod:
  assumes "i < (n :: nat)" "l \<le> n"
  shows "(i + l) mod n = (if i + l < n then i + l else i + l - n)"
proof -
  have "i + l - n < n" using assms by linarith
  then show ?thesis by (simp add: le_mod_geq)
qed

lemma wrap_below_iff: "i < (n :: nat) \<Longrightarrow> l \<le> n \<Longrightarrow> (i + l) mod n < i \<longleftrightarrow> n \<le> i + l \<and> l < n"
  by (simp add: wrap_add_mod) linarith

lemma wrap_above_iff: "i < (n :: nat) \<Longrightarrow> l \<le> n \<Longrightarrow> i < (i + l) mod n \<longleftrightarrow> 0 < l \<and> i + l < n"
  by (simp add: wrap_add_mod) linarith

lemma mod_add_neq:
  assumes "j < k" "(k :: nat) < n"
  shows "(i + j) mod n \<noteq> (i + k) mod n"
proof
  assume "(i + j) mod n = (i + k) mod n"
  then have "n dvd (i + k) - (i + j)"
    using assms by (metis add_le_mono1 add.commute less_imp_le mod_eq_dvd_iff_nat)
  then show False using assms by (auto dest: dvd_imp_le)
qed

lemma ring_slice_update:
  assumes "n < length d"
  shows "ring_slice (d[(i + n) mod length d := x]) i n = ring_slice d i n"
proof -
  have "(i + n) mod length d \<noteq> (i + k) mod length d" if "k < n" for k
    using mod_add_neq [OF that assms, of i] by simp
  then show ?thesis by (simp add: ring_slice_def)
qed

text \<open>Storing behind the slice extends it, as long as the ring has room.\<close>

lemma ring_slice_put:
  "n + length xs \<le> length d
   \<Longrightarrow> ring_slice (ring_put d (i + n) xs) i (n + length xs) = ring_slice d i n @ xs"
proof (induction xs arbitrary: n d)
  case Nil
  then show ?case by simp
next
  case (Cons x xs)
  let ?d = "d[(i + n) mod length d := x]"
  have "(i + n) mod length d < length d"
    using Cons.prems by (intro mod_less_divisor) auto
  then have "ring_slice ?d i (Suc n) = ring_slice d i n @ [x]"
    using Cons.prems ring_slice_update [of n d i x] by (simp add: ring_slice_Suc)
  then show ?case using Cons.IH [of "Suc n" ?d] Cons.prems by simp
qed

lemma ring_put_append: "ring_put d i (xs @ ys) = ring_put (ring_put d i xs) (i + length xs) ys"
  by (induction xs arbitrary: d i) simp_all

lemma ring_put_cong_mod:
  "i mod length d = j mod length d \<Longrightarrow> ring_put d i xs = ring_put d j xs"
proof (induction xs arbitrary: d i j)
  case (Cons x xs)
  let ?d = "d[j mod length d := x]"
  have "Suc i mod length ?d = Suc j mod length ?d"
    using mod_Suc_eq [of i "length d"] mod_Suc_eq [of j "length d"] Cons.prems by simp
  from Cons.IH [OF this] show ?case using Cons.prems by simp
qed simp

lemma ring_put_flat:
  "i + length xs \<le> length d \<Longrightarrow> ring_put d i xs = take i d @ xs @ drop (i + length xs) d"
proof (induction xs arbitrary: d i)
  case (Cons x xs)
  then show ?case
    by (simp add: upd_conv_take_nth_drop take_Suc_conv_app_nth add.commute)
qed simp

section \<open>Masked counters\<close>

text \<open>With a mask of \<open>2 ^ k - 1\<close>, masking a 32-bit counter is its remainder modulo the size.\<close>

lemma unat_and_mask:
  assumes "unat (m :: unsigned) + 1 = 2 ^ k" "k \<le> 32"
  shows "unat (w AND m) = unat w mod 2 ^ k"
proof -
  have "unat m = Bit_Operations.mask k"
    using assms by (simp add: mask_eq_exp_minus_1)
  then show ?thesis
    by (simp add: unsigned_and_eq take_bit_eq_mod flip: take_bit_eq_mask)
qed

lemma unat_add_mod_pow2:
  assumes "k \<le> 32"
  shows "unat (a + b :: unsigned) mod 2 ^ k = (unat a + unat b) mod 2 ^ k"
proof -
  have "(2 :: nat) ^ k dvd 2 ^ 32" using assms by (rule le_imp_power_dvd)
  then show ?thesis by (simp add: unat_word_ariths mod_mod_cancel)
qed

lemma unat_add_small: "unat a + unat b < 2 ^ 32 \<Longrightarrow> unat (a + b :: unsigned) = unat a + unat b"
  by (simp add: unat_word_ariths)

lemma unat_sub_le: "b \<le> (a :: unsigned) \<Longrightarrow> unat (a - b) = unat a - unat b"
  by (rule unat_sub)

lemma unat_less_32: "unat (w :: unsigned) < 2 ^ 32"
proof -
  have "unat w < 2 ^ LENGTH(32)" by (rule unsigned_less)
  then show ?thesis by simp
qed

lemma unat_of_nat_small: "n < 2 ^ 32 \<Longrightarrow> unat (of_nat n :: unsigned) = n"
  by (simp add: unat_of_nat)

lemma unat_of_nat_le:
  assumes "n \<le> unat (w :: unsigned)"
  shows "unat (of_nat n :: unsigned) = n"
  by (rule unat_of_nat_small) (rule le_less_trans [OF assms unat_less_32])

lemma sint_small:
  assumes "unat (w :: unsigned) < 2 ^ 31"
  shows "sint w = int (unat w)"
proof -
  have "int (unat w) < int (2 ^ 31)"
    using assms by (simp only: of_nat_less_iff)
  then have "uint w < 2 ^ 31" by simp
  then have "signed_take_bit 31 (uint w) = uint w"
    by (intro signed_take_bit_int_eq_self) (simp_all add: order_trans [OF _ uint_ge_0])
  then show ?thesis by (simp add: sint_uint)
qed

end
