(* ===== verification/Iobuf.thy ===== *)
theory Iobuf
  imports Prelude
begin

text \<open>
  The I/O ring buffer of \<open>src/libhttp/iobuf.h\<close> and \<open>iobuf.c\<close>.  The read and write
  offsets are absolute 32-bit counters, masked on access.  The contents of a buffer are
  the bytes between the two counters (\<open>iobuf_bytes\<close>); \<open>iobuf_ok\<close> is the invariant the
  header states: a power of two size, and counters never further apart than the size.

  \<open>minute_iobuf_put\<close>, and the users of the buffer that compare the counters directly,
  are right only while the write counter has not wrapped around behind the read counter:
  \<open>iobuf_unwrapped\<close> names that condition, and the theorems below show what the code does
  with and without it.
\<close>

record iobuf =
  io_read  :: unsigned
  io_write :: unsigned
  io_mask  :: unsigned
  io_flags :: unsigned
  io_data  :: bytes

definition IOBUF_EOF :: unsigned where
  "IOBUF_EOF = 1"

definition minute_iobuf_used :: "iobuf \<Rightarrow> unsigned" where
  "minute_iobuf_used io = io_write io - io_read io"

definition minute_iobuf_free :: "iobuf \<Rightarrow> unsigned" where
  "minute_iobuf_free io = io_mask io + 1 - minute_iobuf_used io"

definition minute_iobuf_init :: "unsigned \<Rightarrow> bytes \<Rightarrow> iobuf" where
  "minute_iobuf_init sz data =
     \<lparr>io_read = 0, io_write = 0, io_mask = sz - 1, io_flags = 0, io_data = data\<rparr>"

definition minute_iobuf_clear :: "iobuf \<Rightarrow> iobuf" where
  "minute_iobuf_clear io = io\<lparr>io_read := 0, io_write := 0\<rparr>"

definition minute_iobuf_put :: "char \<Rightarrow> iobuf \<Rightarrow> (int \<times> iobuf) option" where
  "minute_iobuf_put c io =
     (let r = io_read io; w = io_write io;
          ri = r AND io_mask io; wi = w AND io_mask io
      in if r < w \<and> ri = wi then Some (0, io)
         else do {
           d \<leftarrow> mem_write (io_data io) (unat wi) c;
           Some (1, io\<lparr>io_data := d, io_write := io_write io + 1\<rparr>)
         })"

definition minute_iobuf_replace :: "int \<Rightarrow> char \<Rightarrow> iobuf \<Rightarrow> (int \<times> iobuf) option" where
  "minute_iobuf_replace off c io =
     (let b = (if off < 0 then io_write io else io_read io) in do {
        d \<leftarrow> mem_write (io_data io) (unat ((b + word_of_int off) AND io_mask io)) c;
        Some (1, io\<lparr>io_data := d\<rparr>)
      })"

definition minute_iobuf_write :: "bytes \<Rightarrow> unsigned \<Rightarrow> iobuf \<Rightarrow> (int \<times> iobuf) option" where
  "minute_iobuf_write data sz io =
     (let b = io_read io; e = io_write io; ne = e + sz; buf = io_data io;
          ei = e AND io_mask io; nei = ne AND io_mask io
      in if io_mask io + 1 < ne - b then Some (-1, io)
         else if ei < nei then do {
           d \<leftarrow> memcpy buf (unat ei) data 0 (unat sz);
           Some (sint sz, io\<lparr>io_data := d, io_write := ne\<rparr>)
         }
         else let split = io_mask io + 1 - ei in do {
           d1 \<leftarrow> memcpy buf (unat ei) data 0 (unat split);
           d2 \<leftarrow> memcpy d1 0 data (unat split) (unat (sz - split));
           Some (sint sz, io\<lparr>io_data := d2, io_write := ne\<rparr>)
         })"

definition minute_iobuf_writesz :: "bytes \<Rightarrow> iobuf \<Rightarrow> (int \<times> iobuf) option" where
  "minute_iobuf_writesz text io = minute_iobuf_write text (of_nat (length text)) io"

text \<open>The destination block is an argument and comes back updated.\<close>

definition minute_iobuf_read ::
    "bytes \<Rightarrow> unsigned \<Rightarrow> iobuf \<Rightarrow> (int \<times> bytes \<times> iobuf) option" where
  "minute_iobuf_read data sz io =
     (let b = io_read io;
          e = (if sz < io_write io - b then b + sz else io_write io);
          bi = b AND io_mask io; l = e - b; ei = e AND io_mask io
      in if ei < bi then let tail = io_mask io + 1 - bi in do {
           d1 \<leftarrow> memcpy data 0 (io_data io) (unat bi) (unat tail);
           d2 \<leftarrow> memcpy d1 (unat tail) (io_data io) 0 (unat (l - tail));
           Some (sint l, d2, io\<lparr>io_read := e\<rparr>)
         }
         else if l \<noteq> 0 then do {
           d \<leftarrow> memcpy data 0 (io_data io) (unat bi) (unat l);
           Some (sint l, d, io\<lparr>io_read := e\<rparr>)
         }
         else Some (sint l, data, io\<lparr>io_read := e\<rparr>))"

section \<open>Invariant and contents\<close>

definition iobuf_size :: "iobuf \<Rightarrow> nat" where
  "iobuf_size io = unat (io_mask io) + 1"

definition iobuf_ok :: "iobuf \<Rightarrow> bool" where
  "iobuf_ok io \<longleftrightarrow> (\<exists>k < 31. iobuf_size io = 2 ^ k) \<and> length (io_data io) = iobuf_size io
     \<and> unat (minute_iobuf_used io) \<le> iobuf_size io"

definition iobuf_bytes :: "iobuf \<Rightarrow> bytes" where
  "iobuf_bytes io = ring_slice (io_data io) (unat (io_read io)) (unat (minute_iobuf_used io))"

definition iobuf_unwrapped :: "iobuf \<Rightarrow> bool" where
  "iobuf_unwrapped io \<longleftrightarrow> io_read io \<le> io_write io"

lemma length_iobuf_bytes: "length (iobuf_bytes io) = unat (minute_iobuf_used io)"
  by (simp add: iobuf_bytes_def)

lemma iobuf_ok_length: "iobuf_ok io \<Longrightarrow> length (io_data io) = iobuf_size io"
  by (simp add: iobuf_ok_def)

lemma iobuf_ok_used: "iobuf_ok io \<Longrightarrow> unat (minute_iobuf_used io) \<le> iobuf_size io"
  by (simp add: iobuf_ok_def)

lemma iobuf_ok_size:
  assumes "iobuf_ok io"
  shows "0 < iobuf_size io" "iobuf_size io < 2 ^ 31"
proof -
  from assms obtain k where k: "k < 31" "iobuf_size io = 2 ^ k"
    by (auto simp: iobuf_ok_def)
  have "(2::nat) ^ k < 2 ^ 31" using k(1) by (rule power_strict_increasing) simp
  then show "0 < iobuf_size io" "iobuf_size io < 2 ^ 31" using k(2) by simp_all
qed

lemma unat_size: "iobuf_ok io \<Longrightarrow> unat (io_mask io + 1) = iobuf_size io"
  using iobuf_ok_size [of io] by (simp add: iobuf_size_def unat_add_small)

text \<open>A masked counter is a position of the ring.\<close>

lemma ring_index:
  assumes "iobuf_ok io"
  shows "unat (w AND io_mask io) = unat w mod iobuf_size io"
  using assms unat_and_mask [of "io_mask io" _ w]
  by (auto simp: iobuf_ok_def iobuf_size_def)

lemma ring_index_less: "iobuf_ok io \<Longrightarrow> unat (w AND io_mask io) < iobuf_size io"
  using iobuf_ok_size [of io] by (simp add: ring_index)

lemma counter_add:
  assumes "iobuf_ok io"
  shows "unat (a + b :: unsigned) mod iobuf_size io = (unat a + unat b) mod iobuf_size io"
  using assms unat_add_mod_pow2 [of _ a b] by (auto simp: iobuf_ok_def)

text \<open>Where the free bytes start: behind the used ones.\<close>

lemma write_index:
  assumes "iobuf_ok io"
  shows "unat (io_write io) mod iobuf_size io
       = (unat (io_read io) + unat (minute_iobuf_used io)) mod iobuf_size io"
  using counter_add [OF assms, of "io_read io" "minute_iobuf_used io"]
  by (simp add: minute_iobuf_used_def)

lemma write_index_eq_read_index:
  assumes "iobuf_ok io"
  shows "io_read io AND io_mask io = io_write io AND io_mask io
     \<longleftrightarrow> unat (minute_iobuf_used io) = 0 \<or> unat (minute_iobuf_used io) = iobuf_size io"
proof -
  let ?r = "unat (io_read io)" and ?u = "unat (minute_iobuf_used io)" and ?n = "iobuf_size io"
  have "io_read io AND io_mask io = io_write io AND io_mask io \<longleftrightarrow> ?r mod ?n = (?r + ?u) mod ?n"
    using ring_index [OF assms] write_index [OF assms] by (metis word_eq_iff_unsigned)
  also have "\<dots> \<longleftrightarrow> ?u mod ?n = 0"
    by (metis add.right_neutral add_diff_cancel_left' le_add1 mod_0 mod_add_right_eq
        mod_eq_dvd_iff_nat mod_eq_0_iff_dvd)
  also have "\<dots> \<longleftrightarrow> ?u = 0 \<or> ?u = ?n"
    using iobuf_ok_used [OF assms] by (auto simp: le_less)
  finally show ?thesis .
qed

text \<open>
  The common step of everything that fills the buffer: \<open>xs\<close> is stored at the write
  position and the write counter advances by its length.
\<close>

definition iobuf_fill :: "bytes \<Rightarrow> iobuf \<Rightarrow> iobuf" where
  "iobuf_fill xs io = io\<lparr>io_data := ring_put (io_data io) (unat (io_write io)) xs,
                        io_write := io_write io + of_nat (length xs)\<rparr>"

lemma iobuf_fill_sel [simp]:
  "io_read (iobuf_fill xs io) = io_read io" "io_mask (iobuf_fill xs io) = io_mask io"
  "io_flags (iobuf_fill xs io) = io_flags io" "iobuf_size (iobuf_fill xs io) = iobuf_size io"
  "io_write (iobuf_fill xs io) = io_write io + of_nat (length xs)"
  "length (io_data (iobuf_fill xs io)) = length (io_data io)"
  by (simp_all add: iobuf_fill_def iobuf_size_def)

lemma iobuf_fill_used:
  assumes "iobuf_ok io" "unat (minute_iobuf_used io) + length xs \<le> iobuf_size io"
  shows "unat (minute_iobuf_used (iobuf_fill xs io)) = unat (minute_iobuf_used io) + length xs"
proof -
  have *: "length xs < 2 ^ 32" using assms iobuf_ok_size [of io] by simp
  have "minute_iobuf_used (iobuf_fill xs io) = minute_iobuf_used io + of_nat (length xs)"
    by (simp add: minute_iobuf_used_def)
  moreover have "unat (of_nat (length xs) :: unsigned) = length xs"
    using * by (rule unat_of_nat_small)
  ultimately show ?thesis
    using assms iobuf_ok_size [of io] by (simp add: unat_add_small)
qed

lemma iobuf_fill_ok:
  assumes "iobuf_ok io" "unat (minute_iobuf_used io) + length xs \<le> iobuf_size io"
  shows "iobuf_ok (iobuf_fill xs io)"
  using assms iobuf_fill_used [OF assms] by (simp add: iobuf_ok_def)

lemma iobuf_fill_bytes:
  assumes "iobuf_ok io" "unat (minute_iobuf_used io) + length xs \<le> iobuf_size io"
  shows "iobuf_bytes (iobuf_fill xs io) = iobuf_bytes io @ xs"
proof -
  have "ring_put (io_data io) (unat (io_write io)) xs
      = ring_put (io_data io) (unat (io_read io) + unat (minute_iobuf_used io)) xs"
    by (rule ring_put_cong_mod) (use assms(1) in \<open>simp add: iobuf_ok_length write_index\<close>)
  then show ?thesis
    using assms ring_slice_put [of "unat (minute_iobuf_used io)" xs "io_data io" "unat (io_read io)"]
    by (simp add: iobuf_bytes_def iobuf_fill_used iobuf_ok_length) (simp add: iobuf_fill_def)
qed

text \<open>The common step of everything that empties it: the read counter advances.\<close>

definition iobuf_skip :: "nat \<Rightarrow> iobuf \<Rightarrow> iobuf" where
  "iobuf_skip n io = io\<lparr>io_read := io_read io + of_nat n\<rparr>"

lemma iobuf_skip_used:
  assumes "n \<le> unat (minute_iobuf_used io)"
  shows "unat (minute_iobuf_used (iobuf_skip n io)) = unat (minute_iobuf_used io) - n"
proof -
  have n: "unat (of_nat n :: unsigned) = n"
    using assms by (auto intro: unat_of_nat_le)
  have "minute_iobuf_used (iobuf_skip n io) = minute_iobuf_used io - of_nat n"
    by (simp add: minute_iobuf_used_def iobuf_skip_def)
  then show ?thesis using assms n by (simp add: unat_sub_le word_le_nat_alt)
qed

lemma iobuf_skip_sel [simp]:
  "io_write (iobuf_skip n io) = io_write io" "io_mask (iobuf_skip n io) = io_mask io"
  "io_flags (iobuf_skip n io) = io_flags io" "iobuf_size (iobuf_skip n io) = iobuf_size io"
  "io_data (iobuf_skip n io) = io_data io"
  by (simp_all add: iobuf_skip_def iobuf_size_def)

lemma iobuf_skip_ok: "iobuf_ok io \<Longrightarrow> n \<le> unat (minute_iobuf_used io) \<Longrightarrow> iobuf_ok (iobuf_skip n io)"
  by (auto simp: iobuf_ok_def iobuf_skip_used)

lemma iobuf_skip_bytes:
  assumes "iobuf_ok io" "n \<le> unat (minute_iobuf_used io)"
  shows "iobuf_bytes (iobuf_skip n io) = drop n (iobuf_bytes io)"
proof -
  have n: "unat (of_nat n :: unsigned) = n"
    using assms by (auto intro: unat_of_nat_le)
  have "unat (io_read io + of_nat n) mod iobuf_size io = (unat (io_read io) + n) mod iobuf_size io"
    using counter_add [OF assms(1), of "io_read io" "of_nat n"] n by simp
  then have "ring_slice (io_data io) (unat (io_read io + of_nat n)) k
           = ring_slice (io_data io) (unat (io_read io) + n) k" for k
    using assms(1) by (intro ring_slice_cong_mod) (simp add: iobuf_ok_length)
  then show ?thesis
    using assms by (simp add: iobuf_bytes_def iobuf_skip_used drop_ring_slice)
      (simp add: iobuf_skip_def)
qed

section \<open>Behaviour of the operations\<close>

lemma minute_iobuf_clear_ok: "iobuf_ok io \<Longrightarrow> iobuf_ok (minute_iobuf_clear io)"
  by (simp add: iobuf_ok_def minute_iobuf_clear_def minute_iobuf_used_def iobuf_size_def)

lemma minute_iobuf_clear_bytes: "iobuf_bytes (minute_iobuf_clear io) = []"
  by (simp add: iobuf_bytes_def minute_iobuf_clear_def minute_iobuf_used_def)

lemma minute_iobuf_init_ok:
  assumes "k < 31" "unat sz = 2 ^ k" "length data = 2 ^ k"
  shows "iobuf_ok (minute_iobuf_init sz data)" "iobuf_size (minute_iobuf_init sz data) = 2 ^ k"
proof -
  have "1 \<le> sz" using assms(2) by (simp add: word_le_nat_alt)
  then have "unat (sz - 1) + 1 = 2 ^ k" using assms(2) by (simp add: unat_sub_le)
  then show "iobuf_ok (minute_iobuf_init sz data)"
      "iobuf_size (minute_iobuf_init sz data) = 2 ^ k"
    using assms by (auto simp: iobuf_ok_def iobuf_size_def minute_iobuf_init_def minute_iobuf_used_def)
qed

lemma unat_free:
  assumes "iobuf_ok io"
  shows "unat (minute_iobuf_free io) = iobuf_size io - unat (minute_iobuf_used io)"
  using assms unat_size [OF assms] iobuf_ok_used [OF assms]
  by (simp add: minute_iobuf_free_def unat_sub_le word_le_nat_alt)

lemma iobuf_fill_put:
  assumes "iobuf_ok io"
  shows "(do { d \<leftarrow> mem_write (io_data io) (unat (io_write io AND io_mask io)) c;
               Some (1 :: int, io\<lparr>io_data := d, io_write := io_write io + 1\<rparr>) })
       = Some (1, iobuf_fill [c] io)"
  using assms ring_index_less [OF assms, of "io_write io"]
  by (simp add: mem_simps iobuf_ok_length iobuf_fill_def ring_index)

lemma minute_iobuf_put_eq:
  assumes "iobuf_ok io" "iobuf_unwrapped io"
  shows "minute_iobuf_put c io =
    (if unat (minute_iobuf_used io) = iobuf_size io then Some (0, io) else Some (1, iobuf_fill [c] io))"
proof -
  have "io_read io < io_write io \<and> io_read io AND io_mask io = io_write io AND io_mask io
      \<longleftrightarrow> unat (minute_iobuf_used io) = iobuf_size io"
    using assms write_index_eq_read_index [OF assms(1)] iobuf_ok_size [OF assms(1)]
    by (auto simp: iobuf_unwrapped_def minute_iobuf_used_def order_le_less unsigned_eq_0_iff)
  then show ?thesis
    using iobuf_fill_put [OF assms(1), of c] by (simp add: minute_iobuf_put_def Let_def)
qed

text \<open>A counter that wrapped around hides a full buffer from \<open>minute_iobuf_put\<close>.\<close>

lemma minute_iobuf_put_wrapped:
  assumes "iobuf_ok io" "\<not> iobuf_unwrapped io"
  shows "minute_iobuf_put c io = Some (1, iobuf_fill [c] io)"
  using assms iobuf_fill_put [OF assms(1), of c]
  by (auto simp: minute_iobuf_put_def Let_def iobuf_unwrapped_def)

lemma iobuf_fill_full_not_ok:
  assumes "iobuf_ok io" "unat (minute_iobuf_used io) = iobuf_size io"
  shows "\<not> iobuf_ok (iobuf_fill [c] io)"
proof -
  have "unat (minute_iobuf_used io + 1) = iobuf_size io + 1"
    using assms iobuf_ok_size [OF assms(1)] by (simp add: unat_add_small)
  then show ?thesis
    by (simp add: iobuf_ok_def minute_iobuf_used_def algebra_simps)
qed

lemma used_after_write: "(io_write io + sz) - io_read io = minute_iobuf_used io + sz"
  by (simp add: minute_iobuf_used_def)

text \<open>The two branches of the copy into the ring are one \<open>ring_put\<close>.\<close>

lemma memcpy_ring_flat:
  assumes "i + length xs \<le> length d" "xs = take n data" "n \<le> length data"
  shows "memcpy d i data 0 n = Some (ring_put d i xs)"
  using assms by (simp add: memcpy_def ring_put_flat)

lemma memcpy_ring_wrap:
  assumes "i < length d" "length d \<le> i + n" "n \<le> length d" "n \<le> length data"
  shows "(do { d1 \<leftarrow> memcpy d i data 0 (length d - i);
               memcpy d1 0 data (length d - i) (n - (length d - i)) })
       = Some (ring_put d i (take n data))"
proof -
  let ?s = "length d - i"
  let ?d1 = "ring_put d i (take ?s data)"
  have s: "?s \<le> n" "i + ?s = length d" using assms by auto
  have 1: "memcpy d i data 0 ?s = Some ?d1"
    using assms s by (intro memcpy_ring_flat) auto
  have split: "take n data = take ?s data @ take (n - ?s) (drop ?s data)"
    using s(1) by (metis le_add_diff_inverse take_add)
  have "ring_put d i (take n data) = ring_put ?d1 (i + ?s) (take (n - ?s) (drop ?s data))"
    using assms by (simp only: split ring_put_append) simp
  also have "\<dots> = ring_put ?d1 0 (take (n - ?s) (drop ?s data))"
    using s by (intro ring_put_cong_mod) simp
  also have "\<dots> = take (n - ?s) (drop ?s data) @ drop (n - ?s) ?d1"
    using assms by (subst ring_put_flat) auto
  finally have "memcpy ?d1 0 data ?s (n - ?s) = Some (ring_put d i (take n data))"
    using assms by (simp add: memcpy_def)
  then show ?thesis using 1 by simp
qed

lemma minute_iobuf_write_eq:
  assumes ok: "iobuf_ok io" and sz: "0 < unat sz" "unat sz \<le> length data"
    and small: "unat (minute_iobuf_used io) + unat sz < 2 ^ 32"
  shows "minute_iobuf_write data sz io =
    (if iobuf_size io < unat (minute_iobuf_used io) + unat sz then Some (-1, io)
     else Some (int (unat sz), iobuf_fill (take (unat sz) data) io))"
proof (cases "iobuf_size io < unat (minute_iobuf_used io) + unat sz")
  case True
  then have "io_mask io + 1 < (io_write io + sz) - io_read io"
    using small unat_size [OF ok] by (simp add: used_after_write word_less_nat_alt unat_add_small)
  then show ?thesis using True by (simp add: minute_iobuf_write_def Let_def)
next
  case False
  let ?n = "iobuf_size io" and ?ei = "io_write io AND io_mask io"
    and ?nei = "(io_write io + sz) AND io_mask io" and ?xs = "take (unat sz) data"
  have fits: "\<not> io_mask io + 1 < (io_write io + sz) - io_read io"
    using False small unat_size [OF ok] by (simp add: used_after_write word_less_nat_alt unat_add_small)
  have len: "length (io_data io) = ?n" using ok by (rule iobuf_ok_length)
  have szn: "unat sz \<le> ?n" using False by simp
  have ei: "unat ?ei < ?n" using ok by (rule ring_index_less)
  have nei: "unat ?nei = (unat ?ei + unat sz) mod ?n"
    using ok by (simp add: ring_index counter_add mod_add_left_eq)
  have ret: "sint sz = int (unat sz)"
    using szn iobuf_ok_size [OF ok] by (intro sint_small) simp
  have put: "ring_put (io_data io) (unat ?ei) ?xs = ring_put (io_data io) (unat (io_write io)) ?xs"
    using ok by (intro ring_put_cong_mod) (simp add: ring_index len)
  have fill: "io\<lparr>io_data := ring_put (io_data io) (unat ?ei) ?xs, io_write := io_write io + sz\<rparr>
            = iobuf_fill ?xs io"
    using sz(2) by (simp add: iobuf_fill_def put)
  show ?thesis
  proof (cases "?ei < ?nei")
    case True
    then have "unat ?ei + unat sz < ?n"
      unfolding word_less_nat_alt nei wrap_above_iff [OF ei szn] by blast
    then have "memcpy (io_data io) (unat ?ei) data 0 (unat sz)
             = Some (ring_put (io_data io) (unat ?ei) ?xs)"
      using sz(2) len by (intro memcpy_ring_flat) auto
    then show ?thesis
      using True False fits ret fill by (simp add: minute_iobuf_write_def Let_def)
  next
    case wrap: False
    then have ge: "?n \<le> unat ?ei + unat sz"
      using sz(1) unfolding word_less_nat_alt nei wrap_above_iff [OF ei szn] by simp
    have split: "unat (io_mask io + 1 - ?ei) = ?n - unat ?ei"
      using ei unat_size [OF ok] by (simp add: unat_sub_le word_le_nat_alt)
    have rest: "unat (sz - (io_mask io + 1 - ?ei)) = unat sz - (?n - unat ?ei)"
      using ge split by (simp add: unat_sub_le word_le_nat_alt)
    have "(do { d1 \<leftarrow> memcpy (io_data io) (unat ?ei) data 0 (unat (io_mask io + 1 - ?ei));
                memcpy d1 0 data (unat (io_mask io + 1 - ?ei)) (unat (sz - (io_mask io + 1 - ?ei))) })
        = Some (ring_put (io_data io) (unat ?ei) ?xs)"
      using memcpy_ring_wrap [of "unat ?ei" "io_data io" "unat sz" data] ei ge szn sz(2) len split rest
      by simp
    then show ?thesis
      using wrap False fits ret fill
      by (auto simp: minute_iobuf_write_def Let_def bind_eq_Some_conv)
  qed
qed

text \<open>
  Writing no bytes at all does not do nothing: the length zero takes the wrapping branch,
  whose second copy has a length of nearly \<open>2 ^ 32\<close> bytes.
\<close>

lemma minute_iobuf_write_zero:
  assumes ok: "iobuf_ok io" and "length data < 2 ^ 32"
  shows "minute_iobuf_write data 0 io = None"
proof -
  let ?s = "io_mask io + 1 - (io_write io AND io_mask io)"
  have "\<not> io_mask io + 1 < io_write io - io_read io"
    using iobuf_ok_used [OF ok] unat_size [OF ok]
    by (simp add: word_less_nat_alt minute_iobuf_used_def)
  moreover have "unat ?s = iobuf_size io - unat (io_write io AND io_mask io)"
    using ring_index_less [OF ok, of "io_write io"] unat_size [OF ok]
    by (simp add: unat_sub_le word_le_nat_alt)
  then have "0 < unat ?s" using ring_index_less [OF ok, of "io_write io"] by simp
  then have "unat ?s + unat (0 - ?s) = 2 ^ 32"
    using unat_less_32 [of ?s] by (subst (2) unat_sub_if_size) (simp add: word_size)
  then have "memcpy d 0 data (unat ?s) (unat (0 - ?s)) = None" for d
    using assms(2) by (intro memcpy_None) simp
  ultimately show ?thesis by (simp add: minute_iobuf_write_def Let_def)
qed

text \<open>
  Reading.  The branch is chosen by comparing the two positions, which are equal both for
  an empty and for a full read; a read of the whole ring that does not start at position 0
  takes the unwrapped branch and leaves the block.
\<close>

definition iobuf_read_len :: "unsigned \<Rightarrow> iobuf \<Rightarrow> nat" where
  "iobuf_read_len sz io = min (unat sz) (unat (minute_iobuf_used io))"

definition iobuf_read_overruns :: "unsigned \<Rightarrow> iobuf \<Rightarrow> bool" where
  "iobuf_read_overruns sz io \<longleftrightarrow>
     iobuf_read_len sz io = iobuf_size io \<and> unat (io_read io) mod iobuf_size io \<noteq> 0"

lemma minute_iobuf_read_eq:
  assumes ok: "iobuf_ok io" and len: "iobuf_read_len sz io \<le> length data"
  shows "minute_iobuf_read data sz io =
    (if iobuf_read_overruns sz io then None
     else let n = iobuf_read_len sz io
          in Some (int n, take n (iobuf_bytes io) @ drop n data, iobuf_skip n io))"
proof -
  let ?b = "io_read io" and ?n = "iobuf_size io" and ?l = "iobuf_read_len sz io"
  define e where "e = (if sz < io_write io - ?b then ?b + sz else io_write io)"
  let ?bi = "?b AND io_mask io" and ?ei = "e AND io_mask io"
  have l: "unat (e - ?b) = ?l"
    by (auto simp: e_def iobuf_read_len_def minute_iobuf_used_def word_less_nat_alt min_def)
  have ln: "?l \<le> ?n" using iobuf_ok_used [OF ok] by (simp add: iobuf_read_len_def)
  have lu: "?l \<le> unat (minute_iobuf_used io)" by (simp add: iobuf_read_len_def)
  have ret: "sint (e - ?b) = int ?l"
    using l ln iobuf_ok_size [OF ok] by (subst sint_small) auto
  have skip: "io\<lparr>io_read := e\<rparr> = iobuf_skip ?l io"
    by (simp add: iobuf_skip_def flip: l)
  have dl: "length (io_data io) = ?n" using ok by (rule iobuf_ok_length)
  have bi: "unat ?bi < ?n" "unat ?bi = unat ?b mod ?n"
    using ring_index_less [OF ok] ring_index [OF ok] by blast+
  have ei: "unat ?ei = (unat ?bi + ?l) mod ?n"
  proof -
    have "unat (?b + (e - ?b)) mod ?n = (unat ?b + ?l) mod ?n"
      unfolding counter_add [OF ok] l by (rule refl)
    moreover have "?b + (e - ?b) = e" by simp
    ultimately have "unat e mod ?n = (unat ?b + ?l) mod ?n" by (simp only:)
    then show ?thesis using ok by (simp add: ring_index mod_add_left_eq)
  qed
  have slice: "take ?l (iobuf_bytes io) = ring_slice (io_data io) (unat ?bi) ?l"
    using lu dl bi ring_slice_mod [of "io_data io" "unat ?b" ?l]
    by (simp add: iobuf_bytes_def take_ring_slice min_def)
  show ?thesis
  proof (cases "?ei < ?bi")
    case True
    then have "?n \<le> unat ?bi + ?l" and lt: "?l < ?n"
      unfolding word_less_nat_alt ei wrap_below_iff [OF bi(1) ln] by blast+
    then have tail: "unat (io_mask io + 1 - ?bi) = ?n - unat ?bi" and "?n - unat ?bi \<le> ?l"
      using bi unat_size [OF ok] by (auto simp: unat_sub_le word_le_nat_alt)
    then have rest: "unat (e - ?b - (io_mask io + 1 - ?bi)) = ?l - (?n - unat ?bi)"
      using l by (simp add: unat_sub_le word_le_nat_alt)
    have "ring_slice (io_data io) (unat ?bi) ?l
        = drop (unat ?bi) (io_data io) @ take (?l - (?n - unat ?bi)) (io_data io)"
      using bi \<open>?n \<le> unat ?bi + ?l\<close> ln dl by (subst ring_slice_wrap) (auto simp: algebra_simps)
    moreover have "?l - (?n - unat ?bi) \<le> ?n" using ln by simp
    ultimately show ?thesis
      using True tail rest lt len dl bi ret skip slice \<open>?n - unat ?bi \<le> ?l\<close>
      by (simp add: minute_iobuf_read_def Let_def memcpy_def iobuf_read_overruns_def flip: e_def)
  next
    case False
    show ?thesis
    proof (cases "?l = 0")
      case True
      then have "e - ?b = 0" using l by (simp add: unsigned_eq_0_iff)
      then show ?thesis
        using False True skip iobuf_ok_size [OF ok]
        by (simp add: minute_iobuf_read_def Let_def iobuf_read_overruns_def flip: e_def)
    next
      case nz: False
      then have ne: "e - ?b \<noteq> 0" using l by (metis unsigned_eq_0_iff)
      have ov: "iobuf_read_overruns sz io \<longleftrightarrow> ?n < unat ?bi + ?l"
        using False bi ln nz unfolding iobuf_read_overruns_def word_less_nat_alt ei
          wrap_below_iff [OF bi(1) ln] by auto
      then show ?thesis
        using False ne l ret skip slice len dl
        by (simp add: minute_iobuf_read_def Let_def memcpy_def ring_slice_flat flip: e_def)
    qed
  qed
qed

section \<open>The buffer as a queue of bytes\<close>

text \<open>
  What the users of a buffer rely on.  Filling appends to the contents while there is room,
  skipping drops from the front; whatever sequence of fills and skips a client makes, the
  bytes come out in the order in which they went in.
\<close>

locale byte_queue =
  fixes ok :: "'q \<Rightarrow> bool"
    and contents :: "'q \<Rightarrow> bytes"
    and capacity :: "'q \<Rightarrow> nat"
    and fill :: "bytes \<Rightarrow> 'q \<Rightarrow> 'q"
    and skip :: "nat \<Rightarrow> 'q \<Rightarrow> 'q"
  assumes fill_ok: "ok q \<Longrightarrow> length (contents q) + length xs \<le> capacity q \<Longrightarrow> ok (fill xs q)"
    and fill_contents: "ok q \<Longrightarrow> length (contents q) + length xs \<le> capacity q
      \<Longrightarrow> contents (fill xs q) = contents q @ xs"
    and fill_capacity: "capacity (fill xs q) = capacity q"
    and skip_ok: "ok q \<Longrightarrow> n \<le> length (contents q) \<Longrightarrow> ok (skip n q)"
    and skip_contents: "ok q \<Longrightarrow> n \<le> length (contents q)
      \<Longrightarrow> contents (skip n q) = drop n (contents q)"
    and skip_capacity: "capacity (skip n q) = capacity q"
    and contents_bound: "ok q \<Longrightarrow> length (contents q) \<le> capacity q"
begin

inductive moves :: "'q \<Rightarrow> bytes \<Rightarrow> bytes \<Rightarrow> 'q \<Rightarrow> bool" where
  moves_refl: "moves q [] [] q"
| moves_fill: "moves q xs ys r \<Longrightarrow> length (contents r) + length zs \<le> capacity r
    \<Longrightarrow> moves q (xs @ zs) ys (fill zs r)"
| moves_skip: "moves q xs ys r \<Longrightarrow> n \<le> length (contents r)
    \<Longrightarrow> moves q xs (ys @ take n (contents r)) (skip n r)"

lemma moves_ok: "moves q xs ys r \<Longrightarrow> ok q \<Longrightarrow> ok r"
  by (induction rule: moves.induct) (auto intro: fill_ok skip_ok)

lemma moves_capacity: "moves q xs ys r \<Longrightarrow> capacity r = capacity q"
  by (induction rule: moves.induct) (auto simp: fill_capacity skip_capacity)

lemma moves_in_order: "moves q xs ys r \<Longrightarrow> ok q \<Longrightarrow> contents q @ xs = ys @ contents r"
proof (induction rule: moves.induct)
  case (moves_fill q xs ys r zs)
  then show ?case using moves_ok [of q xs ys r] by (simp add: fill_contents)
next
  case (moves_skip q xs ys r n)
  then show ?case using moves_ok [of q xs ys r] by (simp add: skip_contents)
qed simp

lemma moves_trans:
  "moves r xs' ys' s \<Longrightarrow> moves q xs ys r \<Longrightarrow> moves q (xs @ xs') (ys @ ys') s"
proof (induction rule: moves.induct)
  case (moves_fill q' xs' ys' r' zs)
  then show ?case using moves.moves_fill [of q "xs @ xs'" "ys @ ys'" r' zs] by simp
next
  case (moves_skip q' xs' ys' r' n)
  then show ?case using moves.moves_skip [of q "xs @ xs'" "ys @ ys'" r' n] by simp
qed simp

lemma moves_one_fill: "length (contents q) + length xs \<le> capacity q \<Longrightarrow> moves q xs [] (fill xs q)"
  using moves_fill [OF moves_refl] by simp

lemma moves_one_skip: "n \<le> length (contents q) \<Longrightarrow> moves q [] (take n (contents q)) (skip n q)"
  using moves_skip [OF moves_refl] by simp

end

interpretation ring: byte_queue iobuf_ok iobuf_bytes iobuf_size iobuf_fill iobuf_skip
  by unfold_locales
    (simp_all add: length_iobuf_bytes iobuf_fill_ok iobuf_fill_bytes iobuf_skip_ok
      iobuf_skip_bytes iobuf_ok_used)

section \<open>Properties\<close>

text \<open>An empty ring of eight bytes in which the next writes wrap around.\<close>

definition wrapping_ring :: iobuf where
  "wrapping_ring = \<lparr>io_read = 6, io_write = 6, io_mask = 7, io_flags = 0, io_data = replicate 8 NUL\<rparr>"

lemma wrapping_ring_ok: "iobuf_ok wrapping_ring" "iobuf_size wrapping_ring = 8"
proof -
  have s: "iobuf_size wrapping_ring = 8" "unat (minute_iobuf_used wrapping_ring) = 0"
    "length (io_data wrapping_ring) = 8" by code_simp+
  then show "iobuf_ok wrapping_ring" "iobuf_size wrapping_ring = 8"
    unfolding iobuf_ok_def by (auto intro: exI [of _ 3])
qed

text \<open>C33. \<open>minute_iobuf_write\<close> of a positive number of bytes appends exactly these bytes to
  the contents when they fit, returns their number and keeps the ring invariant; otherwise it
  returns -1 and leaves the buffer as it was.\<close>
theorem iobuf_write_correct:
  assumes "iobuf_ok io" "0 < unat sz" "unat sz \<le> length data"
    and "unat (minute_iobuf_used io) + unat sz < 2 ^ 32"
  shows "\<exists>r io'. minute_iobuf_write data sz io = Some (r, io') \<and> iobuf_ok io' \<and>
    (if length (iobuf_bytes io) + unat sz \<le> iobuf_size io
     then r = int (unat sz) \<and> iobuf_bytes io' = iobuf_bytes io @ take (unat sz) data
     else r = -1 \<and> io' = io)"
  using minute_iobuf_write_eq [OF assms] assms
    ring.fill_ok [of io "take (unat sz) data"] ring.fill_contents [of io "take (unat sz) data"]
  by (auto simp: length_iobuf_bytes)

lemma iobuf_write_witness:
  "\<exists>io'. minute_iobuf_write ''abcde'' 5 wrapping_ring = Some (5, io') \<and> iobuf_ok io'
     \<and> iobuf_bytes io' = ''abcde''"
proof -
  have b: "iobuf_bytes wrapping_ring = []" "minute_iobuf_used wrapping_ring = 0" by code_simp+
  have h: "0 < unat (5 :: unsigned)" "unat (5 :: unsigned) \<le> length ''abcde''"
    "unat (minute_iobuf_used wrapping_ring) + unat (5 :: unsigned) < 2 ^ 32"
    by (simp_all add: b)
  show ?thesis
    using iobuf_write_correct [OF wrapping_ring_ok(1) h] b(1) wrapping_ring_ok(2) by auto
qed

text \<open>C34. \<open>minute_iobuf_read\<close> hands out the first bytes of the contents in order, as many as
  are asked for and present, and removes exactly these, keeping the ring invariant; the one
  exception is a read of a completely full ring whose read position is not 0, which copies
  from outside the block.\<close>
theorem iobuf_read_correct:
  assumes "iobuf_ok io" "min (unat sz) (length (iobuf_bytes io)) \<le> length data"
  shows "(if iobuf_read_overruns sz io then minute_iobuf_read data sz io = None
    else \<exists>n io'. n = min (unat sz) (length (iobuf_bytes io))
      \<and> minute_iobuf_read data sz io = Some (int n, take n (iobuf_bytes io) @ drop n data, io')
      \<and> iobuf_ok io' \<and> iobuf_bytes io' = drop n (iobuf_bytes io))"
  using minute_iobuf_read_eq [of io sz data] assms
    ring.skip_ok [of io "iobuf_read_len sz io"] ring.skip_contents [of io "iobuf_read_len sz io"]
  by (auto simp: length_iobuf_bytes iobuf_read_len_def Let_def)

lemma iobuf_read_witness:
  "\<exists>io'. minute_iobuf_read ''....'' 4 (iobuf_fill ''abcde'' wrapping_ring) = Some (4, ''abcd'', io')
     \<and> iobuf_bytes io' = ''e''"
proof -
  have h: "iobuf_ok (iobuf_fill ''abcde'' wrapping_ring)"
  proof (rule iobuf_fill_ok [OF wrapping_ring_ok(1)])
    have "minute_iobuf_used wrapping_ring = 0" by code_simp
    then show "unat (minute_iobuf_used wrapping_ring) + length ''abcde'' \<le> iobuf_size wrapping_ring"
      by (simp add: wrapping_ring_ok(2))
  qed
  have b: "iobuf_bytes (iobuf_fill ''abcde'' wrapping_ring) = ''abcde''"
    "\<not> iobuf_read_overruns 4 (iobuf_fill ''abcde'' wrapping_ring)" by code_simp+
  have l: "min (unat (4 :: unsigned)) (length (iobuf_bytes (iobuf_fill ''abcde'' wrapping_ring))) \<le> length ''....''"
    unfolding b by simp
  show ?thesis using iobuf_read_correct [OF h l] b by auto
qed

text \<open>C35. \<open>minute_iobuf_put\<close> appends one character unless the buffer is full, as long as the
  write counter has not wrapped around behind the read counter; once it has, a full buffer is
  not noticed, the oldest byte is overwritten and the ring invariant is lost.\<close>
theorem iobuf_put_correct:
  assumes "iobuf_ok io"
  shows "(if iobuf_unwrapped io \<and> length (iobuf_bytes io) = iobuf_size io
      then minute_iobuf_put c io = Some (0, io)
      else \<exists>io'. minute_iobuf_put c io = Some (1, io')
        \<and> (if length (iobuf_bytes io) = iobuf_size io then \<not> iobuf_ok io'
           else iobuf_ok io' \<and> iobuf_bytes io' = iobuf_bytes io @ [c]))"
  using assms minute_iobuf_put_eq [OF assms, of c] minute_iobuf_put_wrapped [OF assms, of c]
    iobuf_fill_full_not_ok [OF assms, of c] ring.fill_ok [OF assms, of "[c]"]
    ring.fill_contents [OF assms, of "[c]"] ring.contents_bound [OF assms]
  by (cases "iobuf_unwrapped io") (auto simp: length_iobuf_bytes Suc_le_eq)


lemma iobuf_put_witness:
  "\<exists>io'. minute_iobuf_put (CHR ''x'') wrapping_ring = Some (1, io') \<and> iobuf_bytes io' = ''x''"
proof -
  have "iobuf_bytes wrapping_ring = []" by code_simp
  then show ?thesis
    using iobuf_put_correct [OF wrapping_ring_ok(1), of "CHR ''x''"] wrapping_ring_ok(2) by auto
qed

end
