(* ===== verification/Textint.thy ===== *)
theory Textint
  imports Prelude
begin

text \<open>
  The double headed text and integer buffer of \<open>src/libhttp/textint.h\<close> and
  \<open>textint.c\<close>: characters grow up from the start of one memory block and 4-byte integers
  grow down from its end.  An integer is stored as its four bytes in little-endian order
  (the machine's); \<open>textint_text\<close> and \<open>textint_ints\<close> are the two abstract contents and
  \<open>textint_ok\<close> the invariant: the two heads never cross and the block is aligned.
\<close>

record textint =
  ti_text :: unsigned
  ti_ints :: unsigned
  ti_size :: unsigned
  ti_data :: bytes

section \<open>Integers in memory\<close>

definition le32 :: "unsigned \<Rightarrow> bytes" where
  "le32 w = (let n = unat w in
     [char_of n, char_of (n div 256), char_of (n div 65536), char_of (n div 16777216)])"

definition of_le32 :: "bytes \<Rightarrow> unsigned" where
  "of_le32 bs = of_nat (of_char (bs ! 0) + 256 * of_char (bs ! 1)
     + 65536 * of_char (bs ! 2) + 16777216 * of_char (bs ! 3))"

text \<open>\<open>((int*)data)[k]\<close>, read and written.\<close>

definition mem_get_int :: "bytes \<Rightarrow> nat \<Rightarrow> int option" where
  "mem_get_int d k = (if 4 * k + 4 \<le> length d then Some (sint (of_le32 (drop (4 * k) d))) else None)"

definition mem_put_int :: "bytes \<Rightarrow> nat \<Rightarrow> int \<Rightarrow> bytes option" where
  "mem_put_int d k i =
     (if 4 * k + 4 \<le> length d then Some (take (4 * k) d @ le32 (word_of_int i) @ drop (4 * k + 4) d)
      else None)"

section \<open>Operations\<close>

definition minute_textint_init :: "unsigned \<Rightarrow> bytes \<Rightarrow> textint" where
  "minute_textint_init sz data = \<lparr>ti_text = 0, ti_ints = sz, ti_size = sz, ti_data = data\<rparr>"

definition minute_textint_clear :: "textint \<Rightarrow> textint" where
  "minute_textint_clear t = t\<lparr>ti_text := 0, ti_ints := ti_size t\<rparr>"

definition minute_textint_textsize :: "textint \<Rightarrow> unsigned" where
  "minute_textint_textsize t = ti_text t"

definition minute_textint_intsize :: "textint \<Rightarrow> unsigned" where
  "minute_textint_intsize t = (ti_size t - ti_ints t) div 4"

definition minute_textint_putc :: "char \<Rightarrow> textint \<Rightarrow> (int \<times> textint) option" where
  "minute_textint_putc c t =
     (let lo = ti_text t; hi = ti_ints t
      in if hi \<le> lo then Some (0, t)
         else do {
           d \<leftarrow> mem_write (ti_data t) (unat lo) c;
           Some (1, t\<lparr>ti_data := d, ti_text := ti_text t + 1\<rparr>)
         })"

definition minute_textint_puti :: "int \<Rightarrow> textint \<Rightarrow> (int \<times> textint) option" where
  "minute_textint_puti i t =
     (let lo = ti_text t; hi = ti_ints t - 4
      in if hi \<le> lo then Some (0, t)
         else do {
           d \<leftarrow> mem_put_int (ti_data t) (unat hi div 4) i;
           Some (1, t\<lparr>ti_data := d, ti_ints := ti_ints t - 4\<rparr>)
         })"

definition minute_textint_geti :: "int \<Rightarrow> textint \<Rightarrow> int option" where
  "minute_textint_geti off t =
     (let w = (if off < 0 then ti_ints t else ti_size t) div 4 - 1
      in mem_get_int (ti_data t) (unat (w - word_of_int off)))"

text \<open>The result is a pointer into the block, given as its index.\<close>

definition minute_textint_gets :: "int \<Rightarrow> textint \<Rightarrow> nat option" where
  "minute_textint_gets off t =
     (let w = (if off < 0 then ti_text t else 0); p = unat (w + word_of_int off)
      in if p \<le> length (ti_data t) then Some p else None)"

definition minute_textint_replacec :: "int \<Rightarrow> char \<Rightarrow> textint \<Rightarrow> (int \<times> textint) option" where
  "minute_textint_replacec off c t =
     (let w = (if off < 0 then ti_text t else 0) in do {
        d \<leftarrow> mem_write (ti_data t) (unat (w + word_of_int off)) c;
        Some (1, t\<lparr>ti_data := d\<rparr>)
      })"

definition minute_textint_replacei :: "int \<Rightarrow> int \<Rightarrow> textint \<Rightarrow> (int \<times> textint) option" where
  "minute_textint_replacei off i t =
     (let w = (if off < 0 then ti_ints t else ti_size t) div 4 - 1 in do {
        d \<leftarrow> mem_put_int (ti_data t) (unat (w - word_of_int off)) i;
        Some (1, t\<lparr>ti_data := d\<rparr>)
      })"

text \<open>The zero-terminated string at a position of a block, if it is terminated inside it.\<close>

definition c_string_at :: "bytes \<Rightarrow> nat \<Rightarrow> string option" where
  "c_string_at d p =
     (if NUL \<in> set (drop p d) then Some (takeWhile (\<lambda>c. c \<noteq> NUL) (drop p d)) else None)"

section \<open>Invariant and contents\<close>

definition textint_ok :: "textint \<Rightarrow> bool" where
  "textint_ok t \<longleftrightarrow> ti_text t \<le> ti_ints t \<and> ti_ints t \<le> ti_size t
     \<and> 0 < unat (ti_ints t) \<and> 4 dvd unat (ti_ints t) \<and> 4 dvd unat (ti_size t)
     \<and> length (ti_data t) = unat (ti_size t)"

definition textint_text :: "textint \<Rightarrow> bytes" where
  "textint_text t = take (unat (ti_text t)) (ti_data t)"

definition int_slot :: "textint \<Rightarrow> nat \<Rightarrow> int" where
  "int_slot t k = sint (of_le32 (drop (unat (ti_size t) - 4 * (k + 1)) (ti_data t)))"

definition textint_count :: "textint \<Rightarrow> nat" where
  "textint_count t = (unat (ti_size t) - unat (ti_ints t)) div 4"

definition textint_ints :: "textint \<Rightarrow> int list" where
  "textint_ints t = map (int_slot t) [0..<textint_count t]"

definition c_int :: "int \<Rightarrow> int" where
  "c_int i = sint (word_of_int i :: unsigned)"

lemma length_le32 [simp]: "length (le32 w) = 4"
  by (simp add: le32_def Let_def)

lemma nat_bytes:
  assumes "n < 4294967296"
  shows "n mod 256 + 256 * (n div 256 mod 256) + 65536 * (n div 65536 mod 256)
       + 16777216 * (n div 16777216 mod 256) = (n :: nat)"
proof -
  have 1: "n = n mod 256 + 256 * (n div 256)" by (rule mod_mult_div_eq [symmetric])
  have 2: "n div 256 = n div 256 mod 256 + 256 * (n div 65536)"
    using mod_mult_div_eq [of "n div 256" 256] by (simp add: div_mult2_eq [symmetric])
  have 3: "n div 65536 = n div 65536 mod 256 + 256 * (n div 16777216)"
    using mod_mult_div_eq [of "n div 65536" 256] by (simp add: div_mult2_eq [symmetric])
  have 4: "n div 16777216 mod 256 = n div 16777216"
    using assms by (intro mod_less) (simp add: less_mult_imp_div_less)
  show ?thesis using 1 2 3 4 by linarith
qed

lemma of_le32_le32 [simp]: "of_le32 (le32 w @ xs) = w"
proof -
  have "unat w < 4294967296" using unat_less_32 [of w] by simp
  then show ?thesis
    using nat_bytes [of "unat w"] by (simp add: of_le32_def le32_def Let_def)
qed

lemma mem_put_int_Some [mem_simps]:
  "4 * k + 4 \<le> length d
   \<Longrightarrow> mem_put_int d k i = Some (take (4 * k) d @ le32 (word_of_int i) @ drop (4 * k + 4) d)"
  by (simp add: mem_put_int_def)

lemma mem_get_int_Some [mem_simps]:
  "4 * k + 4 \<le> length d \<Longrightarrow> mem_get_int d k = Some (sint (of_le32 (drop (4 * k) d)))"
  by (simp add: mem_get_int_def)

section \<open>Behaviour of the operations\<close>

lemma textint_ok_nat:
  assumes "textint_ok t"
  shows "unat (ti_text t) \<le> unat (ti_ints t)" "unat (ti_ints t) \<le> unat (ti_size t)"
    "4 \<le> unat (ti_ints t)" "4 dvd unat (ti_ints t)" "4 dvd unat (ti_size t)"
    "length (ti_data t) = unat (ti_size t)"
  using assms by (auto simp: textint_ok_def word_le_nat_alt dvd_imp_le)

lemma textint_count_mult:
  assumes "textint_ok t"
  shows "4 * textint_count t = unat (ti_size t) - unat (ti_ints t)"
  using textint_ok_nat(4,5) [OF assms] by (simp add: textint_count_def dvd_mult_div_cancel)

lemma textint_count_bound: "textint_ok t \<Longrightarrow> 4 * textint_count t + 4 \<le> unat (ti_size t)"
  using textint_count_mult [of t] textint_ok_nat(2,3) [of t] by linarith

lemma unat_sub_4: "4 \<le> unat w \<Longrightarrow> unat (w - 4 :: unsigned) = unat w - 4"
  by (simp add: unat_sub_le word_le_nat_alt)

lemma length_textint_text: "textint_ok t \<Longrightarrow> length (textint_text t) = unat (ti_text t)"
  using textint_ok_nat [of t] by (simp add: textint_text_def)

lemma length_textint_ints [simp]: "length (textint_ints t) = textint_count t"
  by (simp add: textint_ints_def)

lemma textint_init_ok:
  assumes "4 dvd unat sz" "0 < unat sz" "length data = unat sz"
  shows "textint_ok (minute_textint_init sz data)"
    "textint_text (minute_textint_init sz data) = []"
    "textint_ints (minute_textint_init sz data) = []"
  using assms by (simp_all add: textint_ok_def minute_textint_init_def textint_text_def
      textint_ints_def textint_count_def)

lemma textint_clear_ok:
  assumes "textint_ok t"
  shows "textint_ok (minute_textint_clear t)"
    "textint_text (minute_textint_clear t) = []" "textint_ints (minute_textint_clear t) = []"
proof -
  have "0 < unat (ti_size t)" using textint_ok_nat(2,3) [OF assms] by linarith
  then show "textint_ok (minute_textint_clear t)"
    "textint_text (minute_textint_clear t) = []" "textint_ints (minute_textint_clear t) = []"
    using assms by (simp_all add: textint_ok_def minute_textint_clear_def textint_text_def
        textint_ints_def textint_count_def)
qed

lemma textint_intsize:
  assumes "textint_ok t"
  shows "unat (minute_textint_intsize t) = length (textint_ints t)"
proof -
  have "unat (ti_size t - ti_ints t) = unat (ti_size t) - unat (ti_ints t)"
    using textint_ok_nat(2) [OF assms] by (simp add: unat_sub_le word_le_nat_alt)
  then show ?thesis
    by (simp add: minute_textint_intsize_def textint_count_def unat_div)
qed

text \<open>Appending a character.\<close>

definition textint_addc :: "char \<Rightarrow> textint \<Rightarrow> textint" where
  "textint_addc c t = t\<lparr>ti_data := (ti_data t)[unat (ti_text t) := c], ti_text := ti_text t + 1\<rparr>"

definition textint_full :: "textint \<Rightarrow> bool" where
  "textint_full t \<longleftrightarrow> unat (ti_ints t) \<le> unat (ti_text t)"

lemma minute_textint_putc_eq:
  assumes "textint_ok t"
  shows "minute_textint_putc c t =
    (if textint_full t then Some (0, t) else Some (1, textint_addc c t))"
  using textint_ok_nat [OF assms]
  by (simp add: minute_textint_putc_def textint_full_def textint_addc_def Let_def
      word_le_nat_alt mem_simps)

lemma textint_addc_sel [simp]:
  "ti_ints (textint_addc c t) = ti_ints t" "ti_size (textint_addc c t) = ti_size t"
  "ti_text (textint_addc c t) = ti_text t + 1"
  "length (ti_data (textint_addc c t)) = length (ti_data t)"
  by (simp_all add: textint_addc_def)

lemma unat_text_Suc: "\<not> textint_full t \<Longrightarrow> unat (ti_text t + 1) = Suc (unat (ti_text t))"
  using unat_less_32 [of "ti_ints t"] by (simp add: textint_full_def unat_add_small)

lemma textint_addc_ok: "textint_ok t \<Longrightarrow> \<not> textint_full t \<Longrightarrow> textint_ok (textint_addc c t)"
  using unat_text_Suc [of t]
  by (auto simp: textint_ok_def textint_full_def word_le_nat_alt)

lemma textint_addc_text:
  assumes "textint_ok t" "\<not> textint_full t"
  shows "textint_text (textint_addc c t) = textint_text t @ [c]"
proof -
  have "unat (ti_text t) < length (ti_data t)"
    using textint_ok_nat [OF assms(1)] assms(2) by (simp add: textint_full_def)
  then show ?thesis
    using unat_text_Suc [OF assms(2)]
    by (simp add: textint_text_def textint_addc_def take_Suc_conv_app_nth)
qed

lemma textint_addc_ints:
  assumes "textint_ok t" "\<not> textint_full t"
  shows "textint_ints (textint_addc c t) = textint_ints t"
proof -
  have "int_slot (textint_addc c t) k = int_slot t k" if "k < textint_count t" for k
  proof -
    have "unat (ti_text t) < unat (ti_size t) - 4 * (k + 1)"
      using that textint_count_mult [OF assms(1)] textint_ok_nat [OF assms(1)] assms(2)
      by (simp add: textint_full_def)
    then show ?thesis by (simp add: int_slot_def textint_addc_def)
  qed
  then show ?thesis
    by (simp add: textint_ints_def textint_count_def)
qed

text \<open>Appending an integer.\<close>

definition textint_addi :: "int \<Rightarrow> textint \<Rightarrow> textint" where
  "textint_addi i t = t\<lparr>ti_data := take (unat (ti_ints t) - 4) (ti_data t) @ le32 (word_of_int i)
       @ drop (unat (ti_ints t)) (ti_data t), ti_ints := ti_ints t - 4\<rparr>"

definition textint_ifull :: "textint \<Rightarrow> bool" where
  "textint_ifull t \<longleftrightarrow> unat (ti_ints t) \<le> unat (ti_text t) + 4"

lemma minute_textint_puti_eq:
  assumes "textint_ok t"
  shows "minute_textint_puti i t =
    (if textint_ifull t then Some (0, t) else Some (1, textint_addi i t))"
proof -
  note ok = textint_ok_nat [OF assms]
  have hi: "unat (ti_ints t - 4) = unat (ti_ints t) - 4" using ok(3) by (rule unat_sub_4)
  have slot: "4 * ((unat (ti_ints t) - 4) div 4) = unat (ti_ints t) - 4"
    using ok(4) by (simp add: dvd_diff_nat)
  have "ti_ints t - 4 \<le> ti_text t \<longleftrightarrow> textint_ifull t"
    using hi ok(3) by (auto simp: word_le_nat_alt textint_ifull_def)
  then show ?thesis
    using ok hi slot by (simp add: minute_textint_puti_def textint_addi_def Let_def mem_put_int_Some)
qed

lemma textint_addi_sel [simp]:
  "ti_text (textint_addi i t) = ti_text t" "ti_size (textint_addi i t) = ti_size t"
  "ti_ints (textint_addi i t) = ti_ints t - 4"
  by (simp_all add: textint_addi_def)

lemma textint_addi_length [simp]:
  "textint_ok t \<Longrightarrow> length (ti_data (textint_addi i t)) = length (ti_data t)"
  using textint_ok_nat [of t] by (simp add: textint_addi_def)

lemma textint_addi_ok:
  assumes "textint_ok t" "\<not> textint_ifull t"
  shows "textint_ok (textint_addi i t)"
  using textint_ok_nat [OF assms(1)] assms unat_sub_4 [of "ti_ints t"]
  by (auto simp: textint_ok_def [of "textint_addi i t"] textint_ifull_def word_le_nat_alt
      dvd_diff_nat)

lemma textint_addi_text:
  assumes "textint_ok t" "\<not> textint_ifull t"
  shows "textint_text (textint_addi i t) = textint_text t"
proof -
  have "unat (ti_text t) \<le> unat (ti_ints t) - 4" using assms(2) by (simp add: textint_ifull_def)
  then show ?thesis
    using textint_ok_nat [OF assms(1)] by (simp add: textint_text_def textint_addi_def min_def)
qed

lemma textint_addi_ints:
  assumes "textint_ok t" "\<not> textint_ifull t"
  shows "textint_ints (textint_addi i t) = textint_ints t @ [c_int i]"
proof -
  note ok = textint_ok_nat [OF assms(1)]
  let ?I = "unat (ti_ints t)" and ?S = "unat (ti_size t)" and ?n = "textint_count t"
  have n: "4 * ?n = ?S - ?I" by (rule textint_count_mult [OF assms(1)])
  have count: "textint_count (textint_addi i t) = Suc ?n"
  proof -
    have "4 * textint_count (textint_addi i t) = ?S - (?I - 4)"
      using textint_count_mult [OF textint_addi_ok [OF assms]] unat_sub_4 [OF ok(3)] by simp
    then show ?thesis using n ok by linarith
  qed
  have old: "int_slot (textint_addi i t) k = int_slot t k" if "k < ?n" for k
  proof -
    have "4 * (k + 1) \<le> ?S - ?I" using that by (simp flip: n)
    then have a: "?I \<le> ?S - 4 * (k + 1)" using ok(2) by simp
    have "drop b (ti_data (textint_addi i t)) = drop b (ti_data t)" if "?I \<le> b" for b
      using that ok by (simp add: textint_addi_def)
    from this [OF a] show ?thesis by (simp add: int_slot_def)
  qed
  have "4 * (?n + 1) = ?S - ?I + 4" using n by simp
  then have "?S - 4 * (?n + 1) = ?I - 4" using ok(2,3) by simp
  then have "drop (?S - 4 * (?n + 1)) (ti_data (textint_addi i t))
      = le32 (word_of_int i) @ drop ?I (ti_data t)"
    using ok by (simp add: textint_addi_def)
  then have new: "int_slot (textint_addi i t) ?n = c_int i"
    by (simp add: int_slot_def c_int_def)
  show ?thesis using old new by (simp add: textint_ints_def count)
qed

text \<open>Reading and replacing.\<close>

lemma geti_index:
  assumes "textint_ok t" "k < textint_count t"
  shows "unat (ti_size t div 4 - 1 - of_nat k) = unat (ti_size t) div 4 - 1 - k"
    "4 * (unat (ti_size t) div 4 - 1 - k) = unat (ti_size t) - 4 * (k + 1)"
proof -
  note ok = textint_ok_nat [OF assms(1)]
  have k: "4 * k + 8 \<le> unat (ti_size t)" using textint_count_bound [OF assms(1)] assms(2) by linarith
  have d: "unat (ti_size t div 4) = unat (ti_size t) div 4" by (simp add: unat_div)
  have q: "4 * (unat (ti_size t) div 4) = unat (ti_size t)" using ok(5) by (rule dvd_mult_div_cancel)
  have one: "unat (ti_size t div 4 - 1) = unat (ti_size t) div 4 - 1"
    using d q k by (subst unat_sub_le) (auto simp: word_le_nat_alt)
  have kk: "unat (of_nat k :: unsigned) = k"
    using k unat_less_32 [of "ti_size t"] by (intro unat_of_nat_small) linarith
  have le: "k \<le> unat (ti_size t) div 4 - 1" using q k by linarith
  show "unat (ti_size t div 4 - 1 - of_nat k) = unat (ti_size t) div 4 - 1 - k"
    using le by (subst unat_sub_le) (auto simp: word_le_nat_alt one kk)
  show "4 * (unat (ti_size t) div 4 - 1 - k) = unat (ti_size t) - 4 * (k + 1)"
    using q k by (simp add: diff_mult_distrib2)
qed

lemma geti_index_neg:
  assumes "textint_ok t" "0 < k" "k \<le> textint_count t"
  shows "ti_ints t div 4 - 1 + of_nat k = ti_size t div 4 - 1 - of_nat (textint_count t - k)"
proof -
  note ok = textint_ok_nat [OF assms(1)]
  have "unat (ti_ints t) div 4 + textint_count t = unat (ti_size t) div 4"
    using textint_count_mult [OF assms(1)] ok by (elim dvdE) auto
  then have "unat (ti_ints t) div 4 + k + (textint_count t - k) = unat (ti_size t) div 4"
    using assms(3) by simp
  then have "(of_nat (unat (ti_ints t) div 4 + k + (textint_count t - k)) :: unsigned)
           = of_nat (unat (ti_size t) div 4)" by simp
  moreover have "(of_nat (unat w div 4) :: unsigned) = w div 4" for w :: unsigned
    using unat_of_nat_le [of "unat w div 4" w]
    by (simp add: unat_div word_eq_iff_unsigned [where ?'a = nat])
  ultimately show ?thesis by (simp add: algebra_simps)
qed

lemma minute_textint_geti_nonneg:
  assumes "textint_ok t" "k < length (textint_ints t)"
  shows "minute_textint_geti (int k) t = Some (textint_ints t ! k)"
proof -
  have k: "k < textint_count t" using assms(2) by simp
  have "4 * (unat (ti_size t) div 4 - 1 - k) + 4 \<le> length (ti_data t)"
    using geti_index(2) [OF assms(1) k] textint_count_bound [OF assms(1)] k
      textint_ok_nat(6) [OF assms(1)] by linarith
  then show ?thesis
    using geti_index [OF assms(1) k] k
    by (simp add: minute_textint_geti_def Let_def mem_get_int_Some textint_ints_def int_slot_def)
qed

lemma minute_textint_geti_neg:
  assumes "textint_ok t" "0 < k" "k \<le> length (textint_ints t)"
  shows "minute_textint_geti (- int k) t = Some (textint_ints t ! (length (textint_ints t) - k))"
proof -
  have k: "k \<le> textint_count t" using assms(3) by simp
  have "minute_textint_geti (- int k) t = minute_textint_geti (int (textint_count t - k)) t"
    using assms(2) by (simp add: minute_textint_geti_def Let_def geti_index_neg [OF assms(1,2) k])
  then show ?thesis
    using minute_textint_geti_nonneg [OF assms(1), of "textint_count t - k"] assms(2) k by simp
qed

lemma minute_textint_gets_eq:
  assumes "textint_ok t" "p \<le> unat (ti_text t)"
  shows "minute_textint_gets (int p) t = Some p"
proof -
  have "p < 2 ^ 32" using assms(2) unat_less_32 [of "ti_text t"] by linarith
  then show ?thesis
    using assms textint_ok_nat [OF assms(1)]
    by (simp add: minute_textint_gets_def Let_def unat_of_nat_small)
qed

lemma minute_textint_replacec_last:
  assumes "textint_ok t" "0 < unat (ti_text t)"
  shows "minute_textint_replacec (-1) c t
       = Some (1, t\<lparr>ti_data := (ti_data t)[unat (ti_text t) - 1 := c]\<rparr>)"
proof -
  have "unat (ti_text t - 1) = unat (ti_text t) - 1"
    using assms(2) by (subst unat_sub_le) (auto simp: word_le_nat_alt)
  then show ?thesis
    using textint_ok_nat [OF assms(1)] assms(2)
    by (simp add: minute_textint_replacec_def Let_def mem_write_Some)
qed

section \<open>The buffer as an arena of strings\<close>

text \<open>
  What the request parser relies on: characters and integers are only ever appended, each
  within the room that is left, and a string that was stored stays where it is.
\<close>

definition textint_room :: "textint \<Rightarrow> nat" where
  "textint_room t = unat (ti_ints t) - unat (ti_text t)"

locale text_arena =
  fixes ok :: "'t \<Rightarrow> bool"
    and chars :: "'t \<Rightarrow> bytes"
    and ints :: "'t \<Rightarrow> int list"
    and room :: "'t \<Rightarrow> nat"
    and addc :: "char \<Rightarrow> 't \<Rightarrow> 't"
    and addi :: "int \<Rightarrow> 't \<Rightarrow> 't"
  assumes addc_ok: "ok t \<Longrightarrow> 0 < room t \<Longrightarrow> ok (addc c t)"
    and addc_chars: "ok t \<Longrightarrow> 0 < room t \<Longrightarrow> chars (addc c t) = chars t @ [c]"
    and addc_ints: "ok t \<Longrightarrow> 0 < room t \<Longrightarrow> ints (addc c t) = ints t"
    and addc_room: "ok t \<Longrightarrow> 0 < room t \<Longrightarrow> room (addc c t) = room t - 1"
    and addi_ok: "ok t \<Longrightarrow> 4 < room t \<Longrightarrow> ok (addi i t)"
    and addi_chars: "ok t \<Longrightarrow> 4 < room t \<Longrightarrow> chars (addi i t) = chars t"
    and addi_ints: "ok t \<Longrightarrow> 4 < room t \<Longrightarrow> ints (addi i t) = ints t @ [c_int i]"
    and addi_room: "ok t \<Longrightarrow> 4 < room t \<Longrightarrow> room (addi i t) = room t - 4"
begin

lemma add_string:
  assumes "ok t" "length s \<le> room t"
  shows "ok (fold addc s t)" "chars (fold addc s t) = chars t @ s"
    "ints (fold addc s t) = ints t" "room (fold addc s t) = room t - length s"
  using assms
proof (induction s arbitrary: t)
  case (Cons c s)
  case 1 then show ?case using Cons.IH(1) [of "addc c t"] by (simp add: addc_ok addc_room)
next
  case (Cons c s)
  case 2 then show ?case
    using Cons.IH(2) [of "addc c t"] by (simp add: addc_ok addc_room addc_chars)
next
  case (Cons c s)
  case 3 then show ?case
    using Cons.IH(3) [of "addc c t"] by (simp add: addc_ok addc_room addc_ints)
next
  case (Cons c s)
  case 4 then show ?case using Cons.IH(4) [of "addc c t"] by (simp add: addc_ok addc_room)
qed simp_all

lemma add_pair:
  assumes "ok t" "8 < room t"
  shows "ok (addi j (addi i t))" "chars (addi j (addi i t)) = chars t"
    "ints (addi j (addi i t)) = ints t @ [c_int i, c_int j]"
    "room (addi j (addi i t)) = room t - 8"
  using assms by (simp_all add: addi_ok addi_room addi_chars addi_ints)

end

lemma textint_room_simps:
  "0 < textint_room t \<longleftrightarrow> \<not> textint_full t" "4 < textint_room t \<longleftrightarrow> \<not> textint_ifull t"
  by (auto simp: textint_room_def textint_full_def textint_ifull_def)

lemma textint_addc_room: "\<not> textint_full t \<Longrightarrow> textint_room (textint_addc c t) = textint_room t - 1"
  using unat_text_Suc [of t] by (simp add: textint_room_def)

lemma textint_addi_room: "textint_ok t \<Longrightarrow> textint_room (textint_addi i t) = textint_room t - 4"
  using textint_ok_nat(3) [of t] by (simp add: textint_room_def unat_sub_4)

interpretation arena: text_arena textint_ok textint_text textint_ints textint_room
    textint_addc textint_addi
  by unfold_locales
    (simp_all add: textint_room_simps textint_addc_ok textint_addc_text textint_addc_ints
      textint_addc_room textint_addi_ok textint_addi_text textint_addi_ints textint_addi_room)

section \<open>Properties\<close>

text \<open>C38. Appending to either head of a textint buffer: \<open>minute_textint_putc\<close> appends the
  character unless the heads have met, \<open>minute_textint_puti\<close> appends the integer unless fewer
  than five bytes are left between them, and neither disturbs the other head's contents or the
  invariant.\<close>
theorem textint_put_correct:
  assumes "textint_ok t"
  shows "(\<exists>r t'. minute_textint_putc c t = Some (r, t') \<and> textint_ok t'
      \<and> (if textint_room t = 0 then r = 0 \<and> t' = t
         else r = 1 \<and> textint_text t' = textint_text t @ [c] \<and> textint_ints t' = textint_ints t))
    \<and> (\<exists>r t'. minute_textint_puti i t = Some (r, t') \<and> textint_ok t'
      \<and> (if textint_room t \<le> 4 then r = 0 \<and> t' = t
         else r = 1 \<and> textint_text t' = textint_text t
           \<and> textint_ints t' = textint_ints t @ [c_int i]))"
  using assms textint_room_simps [of t]
  by (auto simp: minute_textint_putc_eq minute_textint_puti_eq arena.addc_ok arena.addc_chars
      arena.addc_ints arena.addi_ok arena.addi_chars arena.addi_ints not_less [symmetric])

text \<open>A block of 16 bytes.\<close>

definition small_text :: textint where
  "small_text = minute_textint_init 16 (replicate 16 NUL)"

lemma small_text_ok: "textint_ok small_text" "textint_text small_text = []" "textint_ints small_text = []"
  "textint_room small_text = 16"
  by code_simp+

lemma textint_put_witness:
  "(\<exists>t'. minute_textint_putc (CHR ''x'') small_text = Some (1, t') \<and> textint_text t' = ''x'')
   \<and> (\<exists>t'. minute_textint_puti 7 small_text = Some (1, t') \<and> textint_ints t' = [7])"
proof -
  have "c_int 7 = 7" by code_simp
  then show ?thesis
    using textint_put_correct [OF small_text_ok(1), of "CHR ''x''" 7] small_text_ok(2-4) by auto
qed



end
