(* ===== verification/Http_Headers.thy ===== *)
theory Http_Headers
  imports Prelude
begin

text \<open>
  The header enumerations of \<open>src/libhttp/http-headers.h\<close> and the name tables of
  \<open>http-headers.c\<close>.  An enumeration constant is a constructor; its C value is given by
  \<open>rq_code\<close> and \<open>rsp_code\<close>, and the tables are indexed by it.
\<close>

datatype http_request_header =
    http_rq_unknown_header
  | http_rq_accept
  | http_rq_accept_charset
  | http_rq_accept_encoding
  | http_rq_accept_language
  | http_rq_authorization
  | http_rq_cache_control
  | http_rq_connection
  | http_rq_content_encoding
  | http_rq_content_language
  | http_rq_content_length
  | http_rq_content_location
  | http_rq_content_md5
  | http_rq_content_type
  | http_rq_cookie
  | http_rq_date
  | http_rq_expect
  | http_rq_from
  | http_rq_host
  | http_rq_if_match
  | http_rq_if_modified_since
  | http_rq_if_none_match
  | http_rq_if_range
  | http_rq_if_unmodified_since
  | http_rq_max_forwards
  | http_rq_origin
  | http_rq_pragma
  | http_rq_proxy_authorization
  | http_rq_range
  | http_rq_referer
  | http_rq_te
  | http_rq_trailer
  | http_rq_transfer_encoding
  | http_rq_upgrade
  | http_rq_user_agent
  | http_rq_via
  | http_rq_warning

primrec rq_code :: "http_request_header \<Rightarrow> int" where
  "rq_code http_rq_unknown_header = 0"
| "rq_code http_rq_accept = 1"
| "rq_code http_rq_accept_charset = 2"
| "rq_code http_rq_accept_encoding = 3"
| "rq_code http_rq_accept_language = 4"
| "rq_code http_rq_authorization = 5"
| "rq_code http_rq_cache_control = 6"
| "rq_code http_rq_connection = 7"
| "rq_code http_rq_content_encoding = 8"
| "rq_code http_rq_content_language = 9"
| "rq_code http_rq_content_length = 10"
| "rq_code http_rq_content_location = 11"
| "rq_code http_rq_content_md5 = 12"
| "rq_code http_rq_content_type = 13"
| "rq_code http_rq_cookie = 14"
| "rq_code http_rq_date = 15"
| "rq_code http_rq_expect = 16"
| "rq_code http_rq_from = 17"
| "rq_code http_rq_host = 18"
| "rq_code http_rq_if_match = 19"
| "rq_code http_rq_if_modified_since = 20"
| "rq_code http_rq_if_none_match = 21"
| "rq_code http_rq_if_range = 22"
| "rq_code http_rq_if_unmodified_since = 23"
| "rq_code http_rq_max_forwards = 24"
| "rq_code http_rq_origin = 25"
| "rq_code http_rq_pragma = 26"
| "rq_code http_rq_proxy_authorization = 27"
| "rq_code http_rq_range = 28"
| "rq_code http_rq_referer = 29"
| "rq_code http_rq_te = 30"
| "rq_code http_rq_trailer = 31"
| "rq_code http_rq_transfer_encoding = 32"
| "rq_code http_rq_upgrade = 33"
| "rq_code http_rq_user_agent = 34"
| "rq_code http_rq_via = 35"
| "rq_code http_rq_warning = 36"

datatype http_response_header =
    http_rsp_unknown_header
  | http_rsp_accept_ranges
  | http_rsp_age
  | http_rsp_allow
  | http_rsp_cache_control
  | http_rsp_connection
  | http_rsp_content_encoding
  | http_rsp_content_language
  | http_rsp_content_length
  | http_rsp_content_location
  | http_rsp_content_md5
  | http_rsp_content_disposition
  | http_rsp_content_range
  | http_rsp_content_type
  | http_rsp_date
  | http_rsp_etag
  | http_rsp_expires
  | http_rsp_last_modified
  | http_rsp_link
  | http_rsp_location
  | http_rsp_p3p
  | http_rsp_pragma
  | http_rsp_proxy_authenticate
  | http_rsp_refresh
  | http_rsp_retry_after
  | http_rsp_server
  | http_rsp_set_cookie
  | http_rsp_strict_transport_security
  | http_rsp_trailer
  | http_rsp_transfer_encoding
  | http_rsp_vary
  | http_rsp_via
  | http_rsp_warning
  | http_rsp_www_authenticate

primrec rsp_code :: "http_response_header \<Rightarrow> int" where
  "rsp_code http_rsp_unknown_header = 0"
| "rsp_code http_rsp_accept_ranges = 1"
| "rsp_code http_rsp_age = 2"
| "rsp_code http_rsp_allow = 3"
| "rsp_code http_rsp_cache_control = 4"
| "rsp_code http_rsp_connection = 5"
| "rsp_code http_rsp_content_encoding = 6"
| "rsp_code http_rsp_content_language = 7"
| "rsp_code http_rsp_content_length = 8"
| "rsp_code http_rsp_content_location = 9"
| "rsp_code http_rsp_content_md5 = 10"
| "rsp_code http_rsp_content_disposition = 11"
| "rsp_code http_rsp_content_range = 12"
| "rsp_code http_rsp_content_type = 13"
| "rsp_code http_rsp_date = 14"
| "rsp_code http_rsp_etag = 15"
| "rsp_code http_rsp_expires = 16"
| "rsp_code http_rsp_last_modified = 17"
| "rsp_code http_rsp_link = 18"
| "rsp_code http_rsp_location = 19"
| "rsp_code http_rsp_p3p = 20"
| "rsp_code http_rsp_pragma = 21"
| "rsp_code http_rsp_proxy_authenticate = 22"
| "rsp_code http_rsp_refresh = 23"
| "rsp_code http_rsp_retry_after = 24"
| "rsp_code http_rsp_server = 25"
| "rsp_code http_rsp_set_cookie = 26"
| "rsp_code http_rsp_strict_transport_security = 27"
| "rsp_code http_rsp_trailer = 28"
| "rsp_code http_rsp_transfer_encoding = 29"
| "rsp_code http_rsp_vary = 30"
| "rsp_code http_rsp_via = 31"
| "rsp_code http_rsp_warning = 32"
| "rsp_code http_rsp_www_authenticate = 33"

definition http_request_header_names :: "string list" where
  "http_request_header_names =
    [''X-Unknown-Header'', ''Accept'', ''Accept-Charset'', ''Accept-Encoding'',
     ''Accept-Language'', ''Authorization'', ''Cache-Control'', ''Connection'',
     ''Content-Encoding'', ''Content-Language'', ''Content-Length'', ''Content-Location'',
     ''Content-MD5'', ''Content-Type'', ''Cookie'', ''Date'', ''Expect'', ''From'',
     ''Host'', ''If-Match'', ''If-Modified-Since'', ''If-None-Match'', ''If-Range'',
     ''If-Unmodified-Since'', ''Max-Forwards'', ''Origin'', ''Pragma'',
     ''Proxy-Authorization'', ''Range'', ''Referer'', ''TE'', ''Trailer'',
     ''Transfer-Encoding'', ''Upgrade'', ''User-Agent'', ''Via'', ''Warning'']"

definition http_response_header_names :: "string list" where
  "http_response_header_names =
    [''X-Unknown-Header'', ''Accept-Ranges'', ''Age'', ''Allow'', ''Cache-Control'',
     ''Connection'', ''Content-Encoding'', ''Content-Language'', ''Content-Length'',
     ''Content-Location'', ''Content-MD5'', ''Content-Disposition'', ''Content-Range'',
     ''Content-Type'', ''Date'', ''ETag'', ''Expires'', ''Last-Modified'', ''Link'',
     ''Location'', ''P3P'', ''Pragma'', ''Proxy-Authenticate'', ''Refresh'',
     ''Retry-After'', ''Server'', ''Set-Cookie'', ''Strict-Transport-Security'',
     ''Trailer'', ''Transfer-Encoding'', ''Vary'', ''Via'', ''Warning'',
     ''WWW-Authenticate'']"

definition http_request_header_names_count :: int where
  "http_request_header_names_count = int (length http_request_header_names)"

definition http_response_header_names_count :: int where
  "http_response_header_names_count = int (length http_response_header_names)"

text \<open>The C conversion of an integer to the enumeration.\<close>

definition all_request_headers :: "http_request_header list" where
  "all_request_headers =
    [http_rq_unknown_header, http_rq_accept, http_rq_accept_charset,
     http_rq_accept_encoding, http_rq_accept_language, http_rq_authorization,
     http_rq_cache_control, http_rq_connection, http_rq_content_encoding,
     http_rq_content_language, http_rq_content_length, http_rq_content_location,
     http_rq_content_md5, http_rq_content_type, http_rq_cookie,
     http_rq_date, http_rq_expect, http_rq_from,
     http_rq_host, http_rq_if_match, http_rq_if_modified_since,
     http_rq_if_none_match, http_rq_if_range, http_rq_if_unmodified_since,
     http_rq_max_forwards, http_rq_origin, http_rq_pragma,
     http_rq_proxy_authorization, http_rq_range, http_rq_referer,
     http_rq_te, http_rq_trailer, http_rq_transfer_encoding,
     http_rq_upgrade, http_rq_user_agent, http_rq_via,
     http_rq_warning]"

definition all_response_headers :: "http_response_header list" where
  "all_response_headers =
    [http_rsp_unknown_header, http_rsp_accept_ranges, http_rsp_age,
     http_rsp_allow, http_rsp_cache_control, http_rsp_connection,
     http_rsp_content_encoding, http_rsp_content_language, http_rsp_content_length,
     http_rsp_content_location, http_rsp_content_md5, http_rsp_content_disposition,
     http_rsp_content_range, http_rsp_content_type, http_rsp_date,
     http_rsp_etag, http_rsp_expires, http_rsp_last_modified,
     http_rsp_link, http_rsp_location, http_rsp_p3p,
     http_rsp_pragma, http_rsp_proxy_authenticate, http_rsp_refresh,
     http_rsp_retry_after, http_rsp_server, http_rsp_set_cookie,
     http_rsp_strict_transport_security, http_rsp_trailer, http_rsp_transfer_encoding,
     http_rsp_vary, http_rsp_via, http_rsp_warning,
     http_rsp_www_authenticate]"

definition rq_of_code :: "int \<Rightarrow> http_request_header option" where
  "rq_of_code i = find (\<lambda>h. rq_code h = i) all_request_headers"

definition rsp_of_code :: "int \<Rightarrow> http_response_header option" where
  "rsp_of_code i = find (\<lambda>h. rsp_code h = i) all_response_headers"

definition request_header_name :: "http_request_header \<Rightarrow> string" where
  "request_header_name h = http_request_header_names ! nat (rq_code h)"

definition response_header_name :: "http_response_header \<Rightarrow> string" where
  "response_header_name h = http_response_header_names ! nat (rsp_code h)"

lemma rq_of_code_code: "rq_of_code (rq_code h) = Some h"
  by (cases h) (simp_all add: rq_of_code_def all_request_headers_def)

lemma rsp_of_code_code: "rsp_of_code (rsp_code h) = Some h"
  by (cases h) (simp_all add: rsp_of_code_def all_response_headers_def)

lemma header_name_counts:
  "http_request_header_names_count = 37" "http_response_header_names_count = 34"
  by (simp_all add: http_request_header_names_count_def http_request_header_names_def
      http_response_header_names_count_def http_response_header_names_def)

lemma rq_code_range: "0 \<le> rq_code h \<and> rq_code h < http_request_header_names_count"
  by (cases h) (simp_all add: header_name_counts)

lemma rsp_code_range: "0 \<le> rsp_code h \<and> rsp_code h < http_response_header_names_count"
  by (cases h) (simp_all add: header_name_counts)

end
