(* ===== verification/Http.thy ===== *)
theory Http
  imports Http_Headers
begin

text \<open>
  The request vocabulary of \<open>src/libhttp/http.h\<close> (protocol versions, methods, header
  flags, the parsed request) and the status texts of \<open>http-text.c\<close>.  The C values of
  the enumerations are \<open>version_code\<close> and \<open>method_code\<close>; versions are ordered by them, as
  the comparisons of \<open>httpd.c\<close> do.
\<close>

datatype http_version = http_unknown_version | http_0_9 | http_1_0 | http_1_1

primrec version_code :: "http_version \<Rightarrow> int" where
  "version_code http_unknown_version = 0"
| "version_code http_0_9 = 9"
| "version_code http_1_0 = 10"
| "version_code http_1_1 = 11"

instantiation http_version :: linorder
begin

definition less_eq_http_version :: "http_version \<Rightarrow> http_version \<Rightarrow> bool" where
  "v \<le> w \<longleftrightarrow> version_code v \<le> version_code w"

definition less_http_version :: "http_version \<Rightarrow> http_version \<Rightarrow> bool" where
  "v < w \<longleftrightarrow> version_code v < version_code w"

instance
proof
  fix v w :: http_version
  show "v \<le> w \<Longrightarrow> w \<le> v \<Longrightarrow> v = w"
    by (cases v; cases w) (simp_all add: less_eq_http_version_def)
qed (auto simp: less_eq_http_version_def less_http_version_def)

end

datatype http_method =
    http_unknown_method
  | http_get
  | http_head
  | http_post
  | http_put
  | http_options
  | http_delete
  | http_trace
  | http_connect

primrec method_code :: "http_method \<Rightarrow> int" where
  "method_code http_unknown_method = 0"
| "method_code http_get = 1"
| "method_code http_head = 2"
| "method_code http_post = 3"
| "method_code http_put = 4"
| "method_code http_options = 5"
| "method_code http_delete = 6"
| "method_code http_trace = 7"
| "method_code http_connect = 8"

definition http_methods :: "http_method list" where
  "http_methods = [http_get, http_head, http_post, http_put, http_options, http_delete,
     http_trace, http_connect]"

text \<open>The \<open>case\<close> labels of the parser: the method a code stands for, if it is one of them.\<close>

definition method_of_code :: "int \<Rightarrow> http_method option" where
  "method_of_code r = find (\<lambda>h. method_code h = r) http_methods"

lemma method_of_code_code: "h \<noteq> http_unknown_method \<Longrightarrow> method_of_code (method_code h) = Some h"
  by (cases h) (simp_all add: method_of_code_def http_methods_def)

text \<open>\<open>enum http_header_flags\<close>\<close>

definition http_connection_close :: unsigned where "http_connection_close = 0x01"
definition http_connection_keep :: unsigned where "http_connection_keep = 0x02"
definition http_expect_continue :: unsigned where "http_expect_continue = 0x04"
definition http_transfer_chunked :: unsigned where "http_transfer_chunked = 0x08"
definition http_content_length :: unsigned where "http_content_length = 0x10"

definition flag_set :: "unsigned \<Rightarrow> unsigned \<Rightarrow> bool" where
  "flag_set flags f \<longleftrightarrow> flags AND f \<noteq> 0"

lemmas http_flag_defs = http_connection_close_def http_connection_keep_def
  http_expect_continue_def http_transfer_chunked_def http_content_length_def

record minute_http_rq =
  rq_flags           :: unsigned
  rq_server_protocol :: http_version
  rq_request_method  :: http_method
  rq_path            :: unsigned
  rq_query           :: unsigned
  rq_content_length  :: unsigned

text \<open>A request of all zero bytes, as \<open>memset\<close> and \<open>= {}\<close> make it.\<close>

definition zero_rq :: minute_http_rq where
  "zero_rq = \<lparr>rq_flags = 0, rq_server_protocol = http_unknown_version,
     rq_request_method = http_unknown_method, rq_path = 0, rq_query = 0, rq_content_length = 0\<rparr>"

section \<open>Status texts\<close>

definition minute_http_version_text :: "http_version \<Rightarrow> string" where
  "minute_http_version_text v = (if v = http_1_1 then ''HTTP/1.1'' else ''HTTP/1.0'')"

definition response_texts :: "(int \<times> string) list" where
  "response_texts =
    [(100, ''Continue''),
     (101, ''Switching Protocols''),
     (200, ''OK''),
     (201, ''Created''),
     (202, ''Accepted''),
     (203, ''Non-Authoritative Information''),
     (204, ''No Content''),
     (205, ''Reset Content''),
     (206, ''Partial Content''),
     (300, ''Multiple Choices''),
     (301, ''Moved Permanently''),
     (302, ''Found''),
     (303, ''See Other''),
     (304, ''Not Modified''),
     (305, ''Use Proxy''),
     (307, ''Temporary Redirect''),
     (400, ''Bad Request''),
     (401, ''Not Authorized''),
     (402, ''Payment Required''),
     (403, ''Forbidden''),
     (404, ''Not Found''),
     (405, ''Method Not Allowed''),
     (406, ''Not Acceptable''),
     (407, ''Proxy Authentication Required''),
     (408, ''Request Timed Out''),
     (409, ''Conflict''),
     (410, ''Gone''),
     (411, ''Length Required''),
     (412, ''Precondition Failed''),
     (413, ''Request Entity Too Large''),
     (414, ''Request-URI Too Long''),
     (415, ''Unsupported Media Type''),
     (416, ''Requested Range Not Satisfiable''),
     (417, ''Expectation Failed''),
     (418, ''I'' @ CHR 0x27 # ''m a teapot''),
     (500, ''Internal Server Error''),
     (501, ''Not Implemented''),
     (502, ''Bad Gateway''),
     (503, ''Service Unavailable''),
     (504, ''Gateway Timeout''),
     (505, ''HTTP Version Not Supported'')]"

definition response_classes :: "(int \<times> string) list" where
  "response_classes =
    [(1, ''Informational''), (2, ''Successful''), (3, ''Redirection''), (4, ''Client Error''),
     (5, ''Server Error'')]"

definition minute_http_response_text :: "int \<Rightarrow> string" where
  "minute_http_response_text code =
     (case map_of response_texts code of
        Some s \<Rightarrow> s
      | None \<Rightarrow> (case map_of response_classes (code div 100) of Some s \<Rightarrow> s | None \<Rightarrow> ''Unknown''))"

end
