(* ===== verification/Patricia.thy ===== *)
theory Patricia
  imports Http "HOL-Library.Multiset"
begin

text \<open>
  The compacted tries of \<open>src/libhttp/http.c\<close>: the two tables, the character maps and
  \<open>walk_trie\<close>, which the parser calls once per input character.  A table entry holds the
  characters to match (\<open>prefix\<close>), the identity its children check (\<open>next\<close>), the identity of
  its parent (\<open>check\<close>), the offset of its children and the value of the word that ends here.

  The locale \<open>trie_table\<close> states what makes a table a dictionary; it is interpreted once for
  each of the six tries the two tables hold (header names, methods, the protocol name, and
  the values of the Connection, Transfer-Encoding and Expect headers).
\<close>

record patricia =
  pat_prefix   :: "string option"
  pat_check    :: nat
  pat_next     :: nat
  pat_offset   :: nat
  pat_terminal :: int

record triestate =
  ts_poff :: nat
  ts_slot :: nat

definition pat :: "string \<Rightarrow> nat \<Rightarrow> nat \<Rightarrow> nat \<Rightarrow> int \<Rightarrow> patricia" where
  "pat s c n f t = \<lparr>pat_prefix = Some s, pat_check = c, pat_next = n, pat_offset = f,
     pat_terminal = t\<rparr>"

definition no_pat :: patricia where
  "no_pat = \<lparr>pat_prefix = None, pat_check = 0, pat_next = 0, pat_offset = 0, pat_terminal = 0\<rparr>"

definition http_proto :: int where "http_proto = 1"

definition headers :: "patricia list" where
  "headers =
    [pat ''a'' 0 1 4 0,
     no_pat,
     pat ''c'' 0 8 13 0,
     pat ''date'' 0 99 0 (rq_code http_rq_date),
     pat ''expect'' 0 99 0 (rq_code http_rq_expect),
     pat ''from'' 0 99 0 (rq_code http_rq_from),
     pat ''ccept'' 1 2 0 (rq_code http_rq_accept),
     pat ''host'' 0 99 0 (rq_code http_rq_host),
     pat ''if-'' 0 26 30 0,
     pat ''charset'' 3 99 0 (rq_code http_rq_accept_charset),
     pat ''e'' 41 99 0 (rq_code http_rq_te),
     pat ''encoding'' 3 99 0 (rq_code http_rq_accept_encoding),
     pat ''max-forwards'' 0 99 0 (rq_code http_rq_max_forwards),
     pat ''ache-control'' 8 99 0 (rq_code http_rq_cache_control),
     pat ''origin'' 0 99 0 (rq_code http_rq_origin),
     pat ''pr'' 0 35 25 0,
     pat ''atch'' 27 99 0 (rq_code http_rq_if_match),
     pat ''r'' 0 38 28 0,
     pat ''language'' 3 99 0 (rq_code http_rq_accept_language),
     pat ''t'' 0 41 6 0,
     pat ''u'' 0 46 31 0,
     pat ''via'' 0 99 0 (rq_code http_rq_via),
     pat ''warning'' 0 99 0 (rq_code http_rq_warning),
     pat ''ra'' 41 43 21 0,
     pat ''uthorization'' 1 99 0 (rq_code http_rq_authorization),
     pat ''agma'' 35 99 0 (rq_code http_rq_pragma),
     pat ''-'' 2 3 7 0,
     pat ''o'' 8 10 23 0,
     pat ''ange'' 38 99 0 (rq_code http_rq_range),
     pat ''iler'' 43 99 0 (rq_code http_rq_trailer),
     pat ''odified-since'' 27 99 0 (rq_code http_rq_if_modified_since),
     pat ''anguage'' 15 99 0 (rq_code http_rq_content_language),
     pat ''eferer'' 38 99 0 (rq_code http_rq_referer),
     pat ''encoding'' 13 99 0 (rq_code http_rq_content_encoding),
     pat ''nsfer-encoding'' 43 99 0 (rq_code http_rq_transfer_encoding),
     pat ''ength'' 15 99 0 (rq_code http_rq_content_length),
     pat ''n'' 10 11 25 0,
     pat ''okie'' 10 99 0 (rq_code http_rq_cookie),
     pat ''nection'' 11 99 0 (rq_code http_rq_connection),
     pat ''oxy-authorization'' 35 99 0 (rq_code http_rq_proxy_authorization),
     pat ''l'' 13 15 31 0,
     pat ''md5'' 13 99 0 (rq_code http_rq_content_md5),
     pat ''m'' 26 27 16 0,
     pat ''none-match'' 26 99 0 (rq_code http_rq_if_none_match),
     pat ''tent-'' 11 13 29 0,
     pat ''ocation'' 15 99 0 (rq_code http_rq_content_location),
     pat ''pgrade'' 46 99 0 (rq_code http_rq_upgrade),
     pat ''range'' 26 99 0 (rq_code http_rq_if_range),
     pat ''type'' 13 99 0 (rq_code http_rq_content_type),
     pat ''ser-agent'' 46 99 0 (rq_code http_rq_user_agent),
     pat ''unmodified-since'' 26 99 0 (rq_code http_rq_if_unmodified_since),
     no_pat,
     no_pat,
     no_pat,
     no_pat,
     no_pat,
     no_pat,
     no_pat,
     no_pat]"

definition patinitial_headers :: patricia where
  "patinitial_headers = pat '''' 0 0 0 0"

definition utility :: "patricia list" where
  "utility =
    [no_pat,
     no_pat,
     pat ''CONNECT'' 0 99 0 (method_code http_connect),
     pat ''DELETE'' 0 99 0 (method_code http_delete),
     pat ''close'' 20 99 0 (uint http_connection_close),
     pat ''chunked'' 25 99 0 (uint http_transfer_chunked),
     pat ''GET'' 0 99 0 (method_code http_get),
     pat ''HEAD'' 0 99 0 (method_code http_head),
     pat ''HTTP'' 10 99 0 http_proto,
     no_pat,
     no_pat,
     no_pat,
     pat ''keep-alive'' 20 99 0 (uint http_connection_keep),
     no_pat,
     pat ''OPTIONS'' 0 99 0 (method_code http_options),
     pat ''P'' 0 1 2 0,
     pat ''OST'' 1 99 0 (method_code http_post),
     no_pat,
     no_pat,
     pat ''TRACE'' 0 99 0 (method_code http_trace),
     no_pat,
     no_pat,
     pat ''UT'' 1 99 0 (method_code http_put),
     no_pat,
     no_pat,
     no_pat,
     pat ''100-continue'' 30 99 0 (uint http_expect_continue),
     no_pat,
     no_pat,
     no_pat]"

definition patinitial_method :: patricia where
  "patinitial_method = pat '''' 0 0 0 0"

definition patinitial_protocol :: patricia where
  "patinitial_protocol = pat '''' 0 10 1 0"

definition patinitial_connection :: patricia where
  "patinitial_connection = pat '''' 0 20 2 0"

definition patinitial_transfer :: patricia where
  "patinitial_transfer = pat '''' 0 25 3 0"

definition patinitial_expect :: patricia where
  "patinitial_expect = pat '''' 0 30 0 0"

definition utility_trie_map :: "int \<Rightarrow> nat" where
  "utility_trie_map c =
     (if 65 \<le> c \<and> c \<le> 90 then nat (c - 65)
      else if 97 \<le> c \<and> c \<le> 122 then nat (c - 97)
      else 26)"

definition header_trie_map :: "int \<Rightarrow> nat" where
  "header_trie_map c =
     (if 97 \<le> c \<and> c \<le> 122 then nat (c - 97)
      else if c = 45 then 26
      else 27)"

text \<open>The character of a prefix, with the terminating zero; outside it is undefined.\<close>

definition prefix_char :: "string \<Rightarrow> nat \<Rightarrow> int option" where
  "prefix_char s i =
     (if i < length s then Some (char_int (s ! i)) else if i = length s then Some 0 else None)"

definition walk_next ::
    "int \<Rightarrow> nat \<Rightarrow> patricia list \<Rightarrow> patricia \<Rightarrow> int \<Rightarrow> triestate \<Rightarrow> (int \<times> triestate) option" where
  "walk_next c offset_c tree p pc ts =
     (if pc = 0 then
        let slot = pat_offset p + offset_c in
        if length tree \<le> slot then None
        else (case pat_prefix (tree ! slot) of
            None \<Rightarrow> Some (-1, ts)
          | Some s \<Rightarrow>
              if prefix_char s 0 = Some c \<and> pat_check (tree ! slot) = pat_next p
              then Some (0, \<lparr>ts_poff = 1, ts_slot = slot\<rparr>)
              else Some (-1, ts))
      else if pc = c then Some (0, ts\<lparr>ts_poff := ts_poff ts + 1\<rparr>)
      else Some (-1, ts))"

definition walk_trie ::
    "int \<Rightarrow> nat \<Rightarrow> patricia list \<Rightarrow> patricia option \<Rightarrow> triestate \<Rightarrow> (int \<times> triestate) option" where
  "walk_trie c offset_c tree initial ts =
     (if ts_poff ts \<noteq> 0 then
        if length tree \<le> ts_slot ts then None
        else let p = tree ! ts_slot ts in do {
          s \<leftarrow> pat_prefix p;
          pc \<leftarrow> prefix_char s (ts_poff ts);
          if pc = 0 \<and> c = 0 then Some (pat_terminal p, ts)
          else walk_next c offset_c tree p pc ts
        }
      else do { p \<leftarrow> initial; walk_next c offset_c tree p 0 ts })"

section \<open>Words\<close>

text \<open>
  The word a table entry stands for, from the root: the nodes of a trie are given with the
  characters that lead to them.
\<close>

definition header_nodes :: "(nat \<times> string) list" where
  "header_nodes =
    [(0, ''''), (2, ''''), (3, ''''), (4, ''''), (5, ''''), (6, ''a''), (7, ''''),
     (8, ''''), (9, ''accept-''), (10, ''t''), (11, ''accept-''), (12, ''''), (13, ''c''),
     (14, ''''), (15, ''''), (16, ''if-m''), (17, ''''), (18, ''accept-''), (19, ''''),
     (20, ''''), (21, ''''), (22, ''''), (23, ''t''), (24, ''a''), (25, ''pr''),
     (26, ''accept''), (27, ''c''), (28, ''r''), (29, ''tra''), (30, ''if-m''),
     (31, ''content-l''), (32, ''r''), (33, ''content-''), (34, ''tra''),
     (35, ''content-l''), (36, ''co''), (37, ''co''), (38, ''con''), (39, ''pr''),
     (40, ''content-''), (41, ''content-''), (42, ''if-''), (43, ''if-''), (44, ''con''),
     (45, ''content-l''), (46, ''u''), (47, ''if-''), (48, ''content-''), (49, ''u''),
     (50, ''if-'')]"

definition header_parents :: "(nat \<times> nat) list" where
  "header_parents =
    [(6, 0), (9, 26), (10, 19), (11, 26), (13, 2), (16, 42), (18, 26), (23, 19), (24, 0),
     (25, 15), (26, 6), (27, 2), (28, 17), (29, 23), (30, 42), (31, 40), (32, 17),
     (33, 44), (34, 23), (35, 40), (36, 27), (37, 27), (38, 36), (39, 15), (40, 44),
     (41, 44), (42, 8), (43, 8), (44, 36), (45, 40), (46, 20), (47, 8), (48, 44),
     (49, 20), (50, 8)]"

definition method_nodes :: "(nat \<times> string) list" where
  "method_nodes = [(2, []), (3, []), (6, []), (7, []), (14, []), (15, []), (16, ''P''), (19, []),
     (22, ''P'')]"

text \<open>\<open>hangs tree cmap b q\<close>: entry \<open>q\<close> is a child of \<open>b\<close>, found under its first character.\<close>

definition hangs :: "patricia list \<Rightarrow> (int \<Rightarrow> nat) \<Rightarrow> patricia \<Rightarrow> nat \<Rightarrow> bool" where
  "hangs tree cmap b q \<longleftrightarrow> q < length tree \<and>
     (case pat_prefix (tree ! q) of None \<Rightarrow> False
      | Some s \<Rightarrow> s \<noteq> [] \<and> pat_check (tree ! q) = pat_next b
          \<and> q = pat_offset b + cmap (char_int (hd s)))"

text \<open>
  Feeding the characters of a word, and then a terminator \<open>t\<close>, which the parser passes on as a
  zero but still maps to an offset.
\<close>

fun walk_word ::
    "(int \<Rightarrow> nat) \<Rightarrow> patricia list \<Rightarrow> patricia \<Rightarrow> triestate \<Rightarrow> string \<Rightarrow> triestate option" where
  "walk_word cmap tree initial ts [] = Some ts"
| "walk_word cmap tree initial ts (c # cs) =
     (case walk_trie (char_int c) (cmap (char_int c)) tree (Some initial) ts of
        Some (r, ts') \<Rightarrow> if r = 0 then walk_word cmap tree initial ts' cs else None
      | None \<Rightarrow> None)"

definition trie_lookup ::
    "int \<Rightarrow> (int \<Rightarrow> nat) \<Rightarrow> patricia list \<Rightarrow> patricia \<Rightarrow> string \<Rightarrow> int option" where
  "trie_lookup t cmap tree initial w =
     (case walk_word cmap tree initial \<lparr>ts_poff = 0, ts_slot = 0\<rparr> w of
        Some ts \<Rightarrow> (case walk_trie 0 (cmap t) tree (Some initial) ts of
            Some (r, ts') \<Rightarrow> if 0 < r then Some r else None
          | None \<Rightarrow> None)
      | None \<Rightarrow> None)"

section \<open>What makes a table a dictionary\<close>

locale trie_table =
  fixes tree :: "patricia list"
    and initial :: patricia
    and cmap :: "int \<Rightarrow> nat"
    and path :: "nat \<Rightarrow> string option"
    and dict :: "(string \<times> int) list"
  assumes node_prefix: "path p = Some w
      \<Longrightarrow> p < length tree \<and> (\<exists>u. pat_prefix (tree ! p) = Some u \<and> u \<noteq> [] \<and> NUL \<notin> set u)"
    and no_empty: "q < length tree \<Longrightarrow> pat_prefix (tree ! q) = Some u \<Longrightarrow> u \<noteq> [] \<and> hd u \<noteq> NUL"
    and bound: "pat_offset initial + cmap c < length tree
      \<and> (\<forall>p < length tree. pat_offset (tree ! p) + cmap c < length tree)"
    and start: "hangs tree cmap initial q \<Longrightarrow> path q = Some []"
    and child: "path p = Some w \<Longrightarrow> pat_prefix (tree ! p) = Some u \<Longrightarrow> hangs tree cmap (tree ! p) q
      \<Longrightarrow> path q = Some (w @ u)"
    and parent: "path q = Some w \<Longrightarrow> w = [] \<and> hangs tree cmap initial q \<or>
      (\<exists>p v u. path p = Some v \<and> pat_prefix (tree ! p) = Some u \<and> w = v @ u
         \<and> hangs tree cmap (tree ! p) q)"
    and node_value: "path p = Some w \<Longrightarrow> pat_prefix (tree ! p) = Some u
      \<Longrightarrow> pat_terminal (tree ! p) \<noteq> 0
      \<Longrightarrow> 0 < pat_terminal (tree ! p) \<and> (w @ u, pat_terminal (tree ! p)) \<in> set dict"
    and dict_node: "(w, r) \<in> set dict \<Longrightarrow> \<exists>p v u. path p = Some v \<and> pat_prefix (tree ! p) = Some u
      \<and> w = v @ u \<and> pat_terminal (tree ! p) = r \<and> 0 < r"
begin

definition valid :: "triestate \<Rightarrow> bool" where
  "valid ts \<longleftrightarrow> ts_poff ts = 0 \<or>
     (\<exists>w u. path (ts_slot ts) = Some w \<and> pat_prefix (tree ! ts_slot ts) = Some u
        \<and> ts_poff ts \<le> length u)"

definition spelled :: "triestate \<Rightarrow> string" where
  "spelled ts = (if ts_poff ts = 0 then []
     else the (path (ts_slot ts)) @ take (ts_poff ts) (the (pat_prefix (tree ! ts_slot ts))))"

lemma valid_start: "valid \<lparr>ts_poff = 0, ts_slot = k\<rparr>" "spelled \<lparr>ts_poff = 0, ts_slot = k\<rparr> = []"
  by (simp_all add: valid_def spelled_def)

lemma valid_zero: "ts_poff ts = 0 \<Longrightarrow> valid ts"
  by (simp add: valid_def)

lemma char_int_zero_iff: "char_int c = 0 \<longleftrightarrow> c = NUL"
proof -
  have "char_int NUL = 0" by (simp add: char_int_def of_char_def)
  then show ?thesis by (metis char_int_inject)
qed

lemma prefix_char_lt: "i < length u \<Longrightarrow> NUL \<notin> set u
    \<Longrightarrow> prefix_char u i = Some (char_int (u ! i)) \<and> char_int (u ! i) \<noteq> 0"
  by (auto simp: prefix_char_def char_int_zero_iff in_set_conv_nth)

lemma walk_next_child:
  assumes "pat_offset b + cmap c < length tree"
  shows "walk_next c (cmap c) tree b 0 ts =
    (let q = pat_offset b + cmap c in
     if hangs tree cmap b q \<and> char_int (hd (the (pat_prefix (tree ! q)))) = c
     then Some (0, \<lparr>ts_poff = 1, ts_slot = q\<rparr>) else Some (-1, ts))"
proof (cases "pat_prefix (tree ! (pat_offset b + cmap c))")
  case None
  then show ?thesis using assms by (simp add: walk_next_def hangs_def Let_def)
next
  case (Some s)
  then have "s \<noteq> []" using no_empty [OF assms] by blast
  then have "prefix_char s 0 = Some (char_int (hd s))" by (simp add: prefix_char_def hd_conv_nth)
  then show ?thesis
    using assms Some \<open>s \<noteq> []\<close>
    by (cases "char_int (hd s) = c") (simp_all add: walk_next_def hangs_def)
qed

lemma hangs_spelled:
  assumes "path q = Some w" "hangs tree cmap b q"
  shows "valid \<lparr>ts_poff = 1, ts_slot = q\<rparr>"
    "spelled \<lparr>ts_poff = 1, ts_slot = q\<rparr> = w @ [hd (the (pat_prefix (tree ! q)))]"
proof -
  obtain c cs where s: "pat_prefix (tree ! q) = Some (c # cs)"
    using assms(2) by (auto simp: hangs_def neq_Nil_conv split: option.splits)
  show "valid \<lparr>ts_poff = 1, ts_slot = q\<rparr>"
    using assms(1) s by (simp add: valid_def)
  show "spelled \<lparr>ts_poff = 1, ts_slot = q\<rparr> = w @ [hd (the (pat_prefix (tree ! q)))]"
    using assms(1) s by (simp add: spelled_def)
qed

text \<open>One step of the walk from a valid state: a character extends the word or is refused.\<close>

lemma walk_char:
  assumes "valid ts" "c \<noteq> NUL"
  obtains (step) ts' where "walk_trie (char_int c) (cmap (char_int c)) tree (Some initial) ts = Some (0, ts')"
      "valid ts'" "spelled ts' = spelled ts @ [c]" "ts_poff ts' \<noteq> 0"
    | (stuck) "walk_trie (char_int c) (cmap (char_int c)) tree (Some initial) ts = Some (-1, ts)"
proof (cases "ts_poff ts = 0")
  case True
  let ?q = "pat_offset initial + cmap (char_int c)"
  have "walk_trie (char_int c) (cmap (char_int c)) tree (Some initial) ts
      = walk_next (char_int c) (cmap (char_int c)) tree initial 0 ts"
    using True by (simp add: walk_trie_def)
  also have "\<dots> = (if hangs tree cmap initial ?q \<and> char_int (hd (the (pat_prefix (tree ! ?q)))) = char_int c
     then Some (0, \<lparr>ts_poff = 1, ts_slot = ?q\<rparr>) else Some (-1, ts))"
    using bound by (subst walk_next_child) (simp_all add: Let_def)
  finally show ?thesis
    using step stuck start [of ?q] hangs_spelled [of ?q "[]" initial] True
    by (auto simp: spelled_def split: if_splits)
next
  case False
  obtain w u where wu: "path (ts_slot ts) = Some w" "pat_prefix (tree ! ts_slot ts) = Some u"
      "ts_poff ts \<le> length u"
    using assms(1) False by (auto simp: valid_def)
  have p: "ts_slot ts < length tree" "NUL \<notin> set u"
    using node_prefix [OF wu(1)] wu(2) by auto
  let ?p = "tree ! ts_slot ts"
  show ?thesis
  proof (cases "ts_poff ts = length u")
    case True
    let ?q = "pat_offset ?p + cmap (char_int c)"
    have "walk_trie (char_int c) (cmap (char_int c)) tree (Some initial) ts
        = walk_next (char_int c) (cmap (char_int c)) tree ?p 0 ts"
      using False True wu p assms(2)
      by (simp add: walk_trie_def prefix_char_def Let_def char_int_zero_iff)
    also have "\<dots> = (if hangs tree cmap ?p ?q \<and> char_int (hd (the (pat_prefix (tree ! ?q)))) = char_int c
       then Some (0, \<lparr>ts_poff = 1, ts_slot = ?q\<rparr>) else Some (-1, ts))"
      using bound p by (subst walk_next_child) (simp_all add: Let_def)
    finally show ?thesis
      using step stuck child [OF wu(1,2), of ?q] hangs_spelled [of ?q "w @ u" ?p] False True wu
      by (auto simp: spelled_def split: if_splits)
  next
    case inside: False
    then have lt: "ts_poff ts < length u" using wu(3) by simp
    have "walk_trie (char_int c) (cmap (char_int c)) tree (Some initial) ts
        = (if u ! ts_poff ts = c then Some (0, ts\<lparr>ts_poff := ts_poff ts + 1\<rparr>) else Some (-1, ts))"
      using False wu p prefix_char_lt [OF lt p(2)]
      by (simp add: walk_trie_def Let_def walk_next_def)
    then show ?thesis
      using step [of "ts\<lparr>ts_poff := ts_poff ts + 1\<rparr>"] stuck wu lt False
      by (auto simp: valid_def spelled_def take_Suc_conv_app_nth split: if_splits)
  qed
qed

text \<open>The terminator: the value of the word spelled so far, 0 inside a branching point.\<close>

lemma walk_end:
  assumes "valid ts"
  obtains r where "walk_trie 0 (cmap d) tree (Some initial) ts = Some (r, ts)"
    "r = -1 \<or> r = 0 \<or> 0 < r \<and> (spelled ts, r) \<in> set dict"
proof (cases "ts_poff ts = 0")
  case True
  have "walk_next 0 (cmap d) tree initial 0 ts = Some (-1, ts)"
  proof -
    let ?q = "pat_offset initial + cmap d"
    have "?q < length tree" using bound by blast
    then show ?thesis
      using no_empty [of ?q]
      by (cases "pat_prefix (tree ! ?q)")
        (auto simp: walk_next_def Let_def prefix_char_def char_int_zero_iff hd_conv_nth)
  qed
  then show ?thesis using that [of "-1"] True by (simp add: walk_trie_def)
next
  case False
  obtain w u where wu: "path (ts_slot ts) = Some w" "pat_prefix (tree ! ts_slot ts) = Some u"
      "ts_poff ts \<le> length u"
    using assms(1) False by (auto simp: valid_def)
  have p: "ts_slot ts < length tree" "NUL \<notin> set u"
    using node_prefix [OF wu(1)] wu(2) by auto
  let ?p = "tree ! ts_slot ts"
  show ?thesis
  proof (cases "ts_poff ts = length u")
    case True
    then have "walk_trie 0 (cmap d) tree (Some initial) ts = Some (pat_terminal ?p, ts)"
      using False wu p by (simp add: walk_trie_def prefix_char_def Let_def)
    moreover have "spelled ts = w @ u" using True False wu by (simp add: spelled_def)
    ultimately show ?thesis
      using that node_value [OF wu(1,2)] by (cases "pat_terminal ?p = 0") auto
  next
    case inside: False
    then have lt: "ts_poff ts < length u" using wu(3) by simp
    have "walk_trie 0 (cmap d) tree (Some initial) ts = Some (-1, ts)"
      using False wu p prefix_char_lt [OF lt p(2)]
      by (simp add: walk_trie_def Let_def walk_next_def)
    then show ?thesis using that by simp
  qed
qed

lemma walk_word_sound:
  "walk_word cmap tree initial ts w = Some ts' \<Longrightarrow> valid ts \<Longrightarrow> NUL \<notin> set w
   \<Longrightarrow> valid ts' \<and> spelled ts' = spelled ts @ w"
proof (induction w arbitrary: ts)
  case (Cons c w)
  have "c \<noteq> NUL" using Cons.prems(3) by auto
  with Cons.prems(2) show ?case
  proof (cases rule: walk_char)
    case (step t)
    then show ?thesis using Cons.IH [of t] Cons.prems by simp
  next
    case stuck
    then show ?thesis using Cons.prems(1) by simp
  qed
qed simp

lemma walk_word_append:
  "walk_word cmap tree initial ts v = Some t
   \<Longrightarrow> walk_word cmap tree initial ts (v @ w) = walk_word cmap tree initial t w"
  by (induction v arbitrary: ts) (auto split: option.splits if_splits)

lemma walk_inside:
  assumes "path p = Some v" "pat_prefix (tree ! p) = Some u"
  shows "0 < k \<Longrightarrow> k + m \<le> length u \<Longrightarrow>
    walk_word cmap tree initial \<lparr>ts_poff = k, ts_slot = p\<rparr> (take m (drop k u))
    = Some \<lparr>ts_poff = k + m, ts_slot = p\<rparr>"
proof (induction m arbitrary: k)
  case (Suc m)
  have p: "p < length tree" "NUL \<notin> set u" using node_prefix [OF assms(1)] assms(2) by auto
  have k: "k < length u" using Suc.prems by simp
  have "walk_trie (char_int (u ! k)) n tree (Some initial) \<lparr>ts_poff = k, ts_slot = p\<rparr>
      = Some (0, \<lparr>ts_poff = Suc k, ts_slot = p\<rparr>)" for n
    using Suc.prems(1) assms(2) p prefix_char_lt [OF k p(2)]
    by (simp add: walk_trie_def Let_def walk_next_def)
  moreover have "take (Suc m) (drop k u) = u ! k # take m (drop (Suc k) u)"
    using k by (simp add: Cons_nth_drop_Suc [symmetric])
  ultimately show ?case using Suc.IH [of "Suc k"] Suc.prems by simp
qed simp

lemma walk_enter:
  assumes "hangs tree cmap b q" "pat_prefix (tree ! q) = Some s"
    and "walk_trie (char_int (hd s)) (cmap (char_int (hd s))) tree (Some initial) ts
       = walk_next (char_int (hd s)) (cmap (char_int (hd s))) tree b 0 ts"
  shows "walk_word cmap tree initial ts [hd s] = Some \<lparr>ts_poff = 1, ts_slot = q\<rparr>"
proof -
  have "q = pat_offset b + cmap (char_int (hd s))" "q < length tree"
    using assms(1,2) by (auto simp: hangs_def)
  then show ?thesis
    using assms walk_next_child [of b "char_int (hd s)" ts] by (simp add: Let_def)
qed

lemma walk_to_node:
  "path p = Some v \<Longrightarrow> pat_prefix (tree ! p) = Some u
   \<Longrightarrow> walk_word cmap tree initial \<lparr>ts_poff = 0, ts_slot = 0\<rparr> (v @ u)
     = Some \<lparr>ts_poff = length u, ts_slot = p\<rparr>"
proof (induction "length v" arbitrary: v u p rule: less_induct)
  case less
  let ?z = "\<lparr>ts_poff = 0, ts_slot = 0\<rparr>"
  have u: "u \<noteq> []" using node_prefix [OF less.prems(1)] less.prems(2) by auto
  have "walk_word cmap tree initial ?z (v @ [hd u]) = Some \<lparr>ts_poff = 1, ts_slot = p\<rparr>"
    using parent [OF less.prems(1)]
  proof (elim disjE exE conjE)
    assume "v = []" "hangs tree cmap initial p"
    then show ?thesis
      using walk_enter [of initial p u ?z] less.prems(2) by (simp add: walk_trie_def)
  next
    fix p' v' u'
    assume p': "path p' = Some v'" "pat_prefix (tree ! p') = Some u'" "v = v' @ u'"
      "hangs tree cmap (tree ! p') p"
    have n': "p' < length tree" "u' \<noteq> []" using node_prefix [OF p'(1)] p'(2) by auto
    then have "walk_word cmap tree initial ?z (v' @ u')
        = Some \<lparr>ts_poff = length u', ts_slot = p'\<rparr>"
      using less.hyps [of v' p' u'] p' by simp
    moreover have "NUL \<notin> set u" using node_prefix [OF less.prems(1)] less.prems(2) by auto
    then have "char_int (hd u) \<noteq> 0"
      using hd_in_set [OF u] unfolding char_int_zero_iff by metis
    then have "walk_word cmap tree initial \<lparr>ts_poff = length u', ts_slot = p'\<rparr> [hd u]
        = Some \<lparr>ts_poff = 1, ts_slot = p\<rparr>"
      using walk_enter [OF p'(4) less.prems(2)] p' n'
      by (simp add: walk_trie_def Let_def prefix_char_def)
    ultimately show ?thesis
      using p'(3) walk_word_append [of ?z "v' @ u'" _ "[hd u]"] by simp
  qed
  from walk_word_append [OF this, of "tl u"] u
  have "walk_word cmap tree initial ?z (v @ u)
      = walk_word cmap tree initial \<lparr>ts_poff = 1, ts_slot = p\<rparr> (take (length u - 1) (drop 1 u))"
    by (simp add: drop_Suc)
  then show ?case
    using walk_inside [OF less.prems, of 1 "length u - 1"] u by (simp add: Suc_le_eq)
qed

lemma lookup_iff:
  assumes "NUL \<notin> set w"
  shows "trie_lookup t cmap tree initial w = Some r \<longleftrightarrow> (w, r) \<in> set dict"
proof
  let ?z = "\<lparr>ts_poff = 0, ts_slot = 0\<rparr>"
  assume "trie_lookup t cmap tree initial w = Some r"
  then obtain ts ts' where "walk_word cmap tree initial ?z w = Some ts"
    and fin: "walk_trie 0 (cmap t) tree (Some initial) ts = Some (r, ts')" "0 < r"
    by (auto simp: trie_lookup_def split: option.splits if_splits)
  then have ts: "valid ts" "spelled ts = w"
    using walk_word_sound [of ?z w ts] assms valid_start [of 0] by auto
  from walk_end [OF ts(1), of t] show "(w, r) \<in> set dict"
    by cases (use fin ts(2) in auto)
next
  assume "(w, r) \<in> set dict"
  then obtain p u v where p: "path p = Some v" "pat_prefix (tree ! p) = Some u" "w = v @ u"
    "pat_terminal (tree ! p) = r" "0 < r" using dict_node by blast
  have "p < length tree" "u \<noteq> []" using node_prefix [OF p(1)] p(2) by auto
  then have "walk_trie 0 (cmap t) tree (Some initial) \<lparr>ts_poff = length u, ts_slot = p\<rparr>
      = Some (r, \<lparr>ts_poff = length u, ts_slot = p\<rparr>)"
    using p by (simp add: walk_trie_def Let_def prefix_char_def)
  then show "trie_lookup t cmap tree initial w = Some r"
    using walk_to_node [OF p(1,2)] p(3,5) by (simp add: trie_lookup_def)
qed

lemma lookup_map_of:
  assumes "NUL \<notin> set w"
  shows "trie_lookup t cmap tree initial w = map_of dict w"
proof (cases "map_of dict w")
  case None
  then have "(w, r) \<notin> set dict" for r by (auto simp: map_of_eq_None_iff image_iff)
  then show ?thesis using lookup_iff [OF assms] None by (cases "trie_lookup t cmap tree initial w") auto
next
  case (Some r)
  then show ?thesis using lookup_iff [OF assms] map_of_SomeD [OF Some] by simp
qed

end

section \<open>The six tries\<close>

text \<open>
  The laws of the locale, decided by evaluation.  \<open>nodes\<close> gives the entries of a trie with
  the characters that lead to them and \<open>parents\<close> the entry each hangs below;
  \<open>kids_ok\<close> runs over the table for one node and looks at everything that claims it.
\<close>

definition entry_ok :: "nat \<Rightarrow> nat \<Rightarrow> patricia \<Rightarrow> bool" where
  "entry_ok k n e \<longleftrightarrow> pat_offset e + k < n \<and>
     (case pat_prefix e of None \<Rightarrow> True | Some u \<Rightarrow> u \<noteq> [] \<and> hd u \<noteq> NUL)"

definition node_ok :: "patricia list \<Rightarrow> nat \<times> string \<Rightarrow> bool" where
  "node_ok tree pw \<longleftrightarrow> fst pw < length tree \<and> (case pat_prefix (tree ! fst pw) of None \<Rightarrow> False
     | Some u \<Rightarrow> NUL \<notin> set u \<and> 0 \<le> pat_terminal (tree ! fst pw))"

fun kids_ok ::
    "(int \<Rightarrow> nat) \<Rightarrow> (nat \<times> string) list \<Rightarrow> nat \<Rightarrow> nat \<Rightarrow> string \<Rightarrow> nat \<Rightarrow> patricia list \<Rightarrow> bool" where
  "kids_ok cmap nodes nx off w q [] = True"
| "kids_ok cmap nodes nx off w q (e # es) =
     ((if pat_check e = nx then (case pat_prefix e of None \<Rightarrow> True
         | Some s \<Rightarrow> q = off + cmap (char_int (hd s)) \<longrightarrow> map_of nodes q = Some w) else True)
      \<and> kids_ok cmap nodes nx off w (Suc q) es)"

definition node_kids_ok ::
    "patricia list \<Rightarrow> (int \<Rightarrow> nat) \<Rightarrow> (nat \<times> string) list \<Rightarrow> nat \<times> string \<Rightarrow> bool" where
  "node_kids_ok tree cmap nodes pw =
     kids_ok cmap nodes (pat_next (tree ! fst pw)) (pat_offset (tree ! fst pw))
       (snd pw @ the (pat_prefix (tree ! fst pw))) 0 tree"

definition node_parent_ok ::
    "patricia list \<Rightarrow> patricia \<Rightarrow> (int \<Rightarrow> nat) \<Rightarrow> (nat \<times> string) list \<Rightarrow> (nat \<times> nat) list
     \<Rightarrow> nat \<times> string \<Rightarrow> bool" where
  "node_parent_ok tree initial cmap nodes parents qw =
     (case map_of parents (fst qw) of
        None \<Rightarrow> snd qw = [] \<and> hangs tree cmap initial (fst qw)
      | Some p \<Rightarrow> hangs tree cmap (tree ! p) (fst qw) \<and>
          (case map_of nodes p of None \<Rightarrow> False
           | Some v \<Rightarrow> snd qw = v @ the (pat_prefix (tree ! p))))"

fun entry_words :: "patricia list \<Rightarrow> (nat \<times> string) list \<Rightarrow> (string \<times> int) list" where
  "entry_words tree [] = []"
| "entry_words tree (pw # nodes) =
     (if pat_terminal (tree ! fst pw) = 0 then entry_words tree nodes
      else (snd pw @ the (pat_prefix (tree ! fst pw)), pat_terminal (tree ! fst pw))
        # entry_words tree nodes)"

definition trie_check ::
    "nat \<Rightarrow> patricia list \<Rightarrow> patricia \<Rightarrow> (int \<Rightarrow> nat) \<Rightarrow> (nat \<times> string) list \<Rightarrow> (nat \<times> nat) list
     \<Rightarrow> (string \<times> int) list \<Rightarrow> bool" where
  "trie_check k tree initial cmap nodes parents dict \<longleftrightarrow>
     distinct (map fst nodes) \<and> list_all (node_ok tree) nodes
   \<and> pat_offset initial + k < length tree \<and> list_all (entry_ok k (length tree)) tree
   \<and> kids_ok cmap nodes (pat_next initial) (pat_offset initial) [] 0 tree
   \<and> list_all (node_kids_ok tree cmap nodes) nodes
   \<and> list_all (node_parent_ok tree initial cmap nodes parents) nodes
   \<and> mset (entry_words tree nodes) = mset dict"

lemma kids_okD:
  "kids_ok cmap nodes nx off w k es \<Longrightarrow> j < length es \<Longrightarrow> pat_check (es ! j) = nx
   \<Longrightarrow> pat_prefix (es ! j) = Some s \<Longrightarrow> k + j = off + cmap (char_int (hd s))
   \<Longrightarrow> map_of nodes (k + j) = Some w"
proof (induction es arbitrary: j k)
  case (Cons e es)
  then show ?case using Cons.IH [of "Suc k" "j - 1"] by (cases j) (auto split: if_splits)
qed simp

lemma kids_ok_hangs:
  assumes "kids_ok cmap nodes (pat_next b) (pat_offset b) w 0 tree" "hangs tree cmap b q"
  shows "map_of nodes q = Some w"
proof -
  obtain s where "q < length tree" "pat_prefix (tree ! q) = Some s"
    "pat_check (tree ! q) = pat_next b" "q = pat_offset b + cmap (char_int (hd s))"
    using assms(2) by (auto simp: hangs_def split: option.splits)
  then show ?thesis using kids_okD [OF assms(1), of q s] by simp
qed

lemma in_entry_words:
  "(v, r) \<in> set (entry_words tree nodes) \<longleftrightarrow> (\<exists>p w. (p, w) \<in> set nodes
     \<and> pat_terminal (tree ! p) \<noteq> 0 \<and> v = w @ the (pat_prefix (tree ! p)) \<and> r = pat_terminal (tree ! p))"
  by (induction nodes) (auto simp: split_pairs)

lemma trie_checkI:
  assumes check: "trie_check k tree initial cmap nodes parents dict" and cmap: "\<And>c. cmap c \<le> k"
  shows "trie_table tree initial cmap (map_of nodes) dict"
proof
  note c = check [unfolded trie_check_def list_all_iff]
  have entry: "entry_ok k (length tree) e" if "e \<in> set tree" for e
    using c that by blast
  have node: "p < length tree \<and> (\<exists>u. pat_prefix (tree ! p) = Some u \<and> u \<noteq> [] \<and> NUL \<notin> set u
      \<and> 0 \<le> pat_terminal (tree ! p))" if "map_of nodes p = Some w" for p w
  proof -
    have "node_ok tree (p, w)" using map_of_SomeD [OF that] c by blast
    then have p: "p < length tree" "case pat_prefix (tree ! p) of
        Some u \<Rightarrow> NUL \<notin> set u \<and> 0 \<le> pat_terminal (tree ! p) | None \<Rightarrow> False"
      unfolding node_ok_def fst_conv by blast+
    then have "entry_ok k (length tree) (tree ! p)" using entry by simp
    then show ?thesis using p by (auto simp: entry_ok_def split: option.splits)
  qed
  have words: "(v, r) \<in> set dict \<longleftrightarrow> (v, r) \<in> set (entry_words tree nodes)" for v r
    using c by (metis set_mset_mset)
  fix p q w u r d
  show "map_of nodes p = Some w
      \<Longrightarrow> p < length tree \<and> (\<exists>u. pat_prefix (tree ! p) = Some u \<and> u \<noteq> [] \<and> NUL \<notin> set u)"
    using node by blast
  show "q < length tree \<Longrightarrow> pat_prefix (tree ! q) = Some u \<Longrightarrow> u \<noteq> [] \<and> hd u \<noteq> NUL"
    using entry [of "tree ! q"] by (simp add: entry_ok_def)
  show "pat_offset initial + cmap d < length tree
      \<and> (\<forall>p < length tree. pat_offset (tree ! p) + cmap d < length tree)"
  proof -
    have "pat_offset e + cmap d < length tree" if "e \<in> set tree" for e
      using entry [OF that] cmap [of d] by (simp add: entry_ok_def)
    moreover have "pat_offset initial + k < length tree" using c by blast
    ultimately show ?thesis using cmap [of d] by simp
  qed
  show "hangs tree cmap initial q \<Longrightarrow> map_of nodes q = Some []"
    using c kids_ok_hangs by blast
  show "map_of nodes q = Some (w @ u)"
    if "map_of nodes p = Some w" "pat_prefix (tree ! p) = Some u" "hangs tree cmap (tree ! p) q"
  proof -
    have "node_kids_ok tree cmap nodes (p, w)" using map_of_SomeD [OF that(1)] c by blast
    then show ?thesis using that kids_ok_hangs by (simp add: node_kids_ok_def)
  qed
  show "w = [] \<and> hangs tree cmap initial q \<or> (\<exists>p v u. map_of nodes p = Some v
      \<and> pat_prefix (tree ! p) = Some u \<and> w = v @ u \<and> hangs tree cmap (tree ! p) q)"
    if "map_of nodes q = Some w"
  proof -
    have "node_parent_ok tree initial cmap nodes parents (q, w)"
      using map_of_SomeD [OF that] c by blast
    then consider (root) "w = []" "hangs tree cmap initial q"
      | (inner) p v where "map_of nodes p = Some v" "hangs tree cmap (tree ! p) q"
          "w = v @ the (pat_prefix (tree ! p))"
      by (auto simp: node_parent_ok_def split: option.splits)
    then show ?thesis
    proof cases
      case inner
      then obtain u where "pat_prefix (tree ! p) = Some u" using node by blast
      with inner show ?thesis by auto
    qed simp
  qed
  show "0 < pat_terminal (tree ! p) \<and> (w @ u, pat_terminal (tree ! p)) \<in> set dict"
    if "map_of nodes p = Some w" "pat_prefix (tree ! p) = Some u" "pat_terminal (tree ! p) \<noteq> 0"
    using that node [OF that(1)] map_of_SomeD [OF that(1)] words in_entry_words by fastforce
  show "\<exists>p v u. map_of nodes p = Some v \<and> pat_prefix (tree ! p) = Some u \<and> w = v @ u
      \<and> pat_terminal (tree ! p) = r \<and> 0 < r" if "(w, r) \<in> set dict"
  proof -
    obtain p v where p: "(p, v) \<in> set nodes" "w = v @ the (pat_prefix (tree ! p))"
        "r = pat_terminal (tree ! p)" "r \<noteq> 0"
      using \<open>(w, r) \<in> set dict\<close> words [of w r] in_entry_words [of w r tree nodes] by blast
    then have "map_of nodes p = Some v" using c by simp
    then show ?thesis using node [of p v] p by fastforce
  qed
qed

definition char_lower :: "char \<Rightarrow> char" where
  "char_lower c = (if 65 \<le> char_int c \<and> char_int c \<le> 90 then int_char (char_int c + 32) else c)"

definition header_dict :: "(string \<times> int) list" where
  "header_dict = map (\<lambda>h. (map char_lower (request_header_name h), rq_code h)) (tl all_request_headers)"

definition method_dict :: "(string \<times> int) list" where
  "method_dict = [(''GET'', method_code http_get), (''HEAD'', method_code http_head),
     (''POST'', method_code http_post), (''PUT'', method_code http_put),
     (''OPTIONS'', method_code http_options), (''DELETE'', method_code http_delete),
     (''TRACE'', method_code http_trace), (''CONNECT'', method_code http_connect)]"

lemma trie_map_bounds: "utility_trie_map c \<le> 26" "header_trie_map c \<le> 27"
  by (auto simp: utility_trie_map_def header_trie_map_def)

lemma header_check:
  "trie_check 27 headers patinitial_headers header_trie_map header_nodes header_parents header_dict"
  unfolding trie_check_def
  apply (intro conjI)
  subgoal by code_simp
  subgoal by code_simp
  subgoal by code_simp
  subgoal by code_simp
  subgoal by code_simp
  subgoal by code_simp
  subgoal by code_simp
  subgoal by code_simp
  done

interpretation header_trie:
  trie_table headers patinitial_headers header_trie_map "map_of header_nodes" header_dict
  using header_check trie_map_bounds(2) by (rule trie_checkI)

lemma method_check: "trie_check 26 utility patinitial_method utility_trie_map method_nodes
    [(16, 15), (22, 15)] method_dict"
  by code_simp

interpretation method_trie:
  trie_table utility patinitial_method utility_trie_map "map_of method_nodes" method_dict
  using method_check trie_map_bounds(1) by (rule trie_checkI)

definition protocol_dict :: "(string \<times> int) list" where
  "protocol_dict = [(''HTTP'', http_proto)]"

definition protocol_nodes :: "(nat \<times> string) list" where "protocol_nodes = [(8, [])]"

interpretation protocol_trie:
  trie_table utility patinitial_protocol utility_trie_map "map_of protocol_nodes" protocol_dict
proof (rule trie_checkI)
  show "trie_check 26 utility patinitial_protocol utility_trie_map protocol_nodes [] protocol_dict"
    by code_simp
qed (rule trie_map_bounds)

definition connection_dict :: "(string \<times> int) list" where
  "connection_dict = [(''close'', uint http_connection_close), (''keep-alive'', uint http_connection_keep)]"

definition connection_nodes :: "(nat \<times> string) list" where "connection_nodes = [(4, []), (12, [])]"

interpretation connection_trie:
  trie_table utility patinitial_connection utility_trie_map "map_of connection_nodes"
    connection_dict
proof (rule trie_checkI)
  show "trie_check 26 utility patinitial_connection utility_trie_map connection_nodes []
      connection_dict"
    by code_simp
qed (rule trie_map_bounds)

definition transfer_dict :: "(string \<times> int) list" where
  "transfer_dict = [(''chunked'', uint http_transfer_chunked)]"

definition transfer_nodes :: "(nat \<times> string) list" where "transfer_nodes = [(5, [])]"

interpretation transfer_trie:
  trie_table utility patinitial_transfer utility_trie_map "map_of transfer_nodes" transfer_dict
proof (rule trie_checkI)
  show "trie_check 26 utility patinitial_transfer utility_trie_map transfer_nodes [] transfer_dict"
    by code_simp
qed (rule trie_map_bounds)

definition expect_dict :: "(string \<times> int) list" where
  "expect_dict = [(''100-continue'', uint http_expect_continue)]"

definition expect_nodes :: "(nat \<times> string) list" where "expect_nodes = [(26, [])]"

interpretation expect_trie:
  trie_table utility patinitial_expect utility_trie_map "map_of expect_nodes" expect_dict
proof (rule trie_checkI)
  show "trie_check 26 utility patinitial_expect utility_trie_map expect_nodes [] expect_dict"
    by code_simp
qed (rule trie_map_bounds)

section \<open>Properties\<close>

text \<open>C10. The header trie is the dictionary of the request header names: for every string \<open>w\<close>
  without a zero byte, walking \<open>w\<close> and its terminating colon yields the header whose
  lower-case name is \<open>w\<close>, and nothing for any other string.\<close>
theorem header_trie_correct:
  assumes "NUL \<notin> set w"
  shows "trie_lookup 58 header_trie_map headers patinitial_headers w = map_of header_dict w"
  by (rule header_trie.lookup_map_of [OF assms])

lemma header_trie_witness:
  "trie_lookup 58 header_trie_map headers patinitial_headers ''content-length'' = Some 10
   \<and> trie_lookup 58 header_trie_map headers patinitial_headers ''content-size'' = None"
proof -
  have "map_of header_dict ''content-length'' = Some 10" "map_of header_dict ''content-size'' = None"
    "NUL \<notin> set ''content-length''" "NUL \<notin> set ''content-size''" by code_simp+
  then show ?thesis
    using header_trie_correct [of "''content-length''"] header_trie_correct [of "''content-size''"] by simp
qed

text \<open>C13. The method trie recognises exactly the eight request methods.\<close>
theorem method_trie_correct:
  assumes "NUL \<notin> set w"
  shows "trie_lookup 32 utility_trie_map utility patinitial_method w = map_of method_dict w"
  by (rule method_trie.lookup_map_of [OF assms])


lemma method_trie_witness:
  "trie_lookup 32 utility_trie_map utility patinitial_method ''POST'' = Some (method_code http_post)
   \<and> trie_lookup 32 utility_trie_map utility patinitial_method ''POT'' = None"
proof -
  have "map_of method_dict ''POST'' = Some (method_code http_post)" "map_of method_dict ''POT'' = None"
    "NUL \<notin> set ''POST''" "NUL \<notin> set ''POT''" by code_simp+
  then show ?thesis
    using method_trie_correct [of "''POST''"] method_trie_correct [of "''POT''"] by simp
qed

end
