(* ===== verification/Http_Read.thy ===== *)
theory Http_Read
  imports Iobuf Textint Patricia
begin

text \<open>
  The request parser of \<open>src/libhttp/http.c\<close>, \<open>minute_http_read\<close>: a state machine that looks
  at one character at a time, collects the path, the query and the selected header values in
  the textint buffer, and interprets the Connection, Content-Length, Expect and
  Transfer-Encoding headers.  Each \<open>case\<close> of the source's \<open>switch\<close> is one definition
  \<open>sw_...\<close>; \<open>shift\<close> and \<open>reset\<close> are the source's macros; \<open>http_go\<close> is the loop with its
  \<open>goto top\<close>.

  The text buffer and the request are changed in place, while the parser state and the read
  counter of the input are written back only when the parser asks for more input or is done.
  The shift \<open>1u<<r\<close> of the header mask is taken modulo 32, as the machine does.
\<close>

datatype http_request_state =
    h_initial
  | h_method
  | h_method_sp
  | h_path
  | h_query
  | h_path_sp
  | h_prot
  | h_prot_slash
  | h_prot_http_x
  | h_prot_http_x_dot
  | h_prot_http_x_x
  | h_cr
  | h_nl
  | h_newline
  | h_skipline
  | h_header
  | h_header_unknown
  | h_escaped_1
  | h_escaped_2
  | h_value_lead
  | h_cont
  | h_value
  | h_head_connection
  | h_head_content_length
  | h_head_expect
  | h_head_transfer_encoding
  | h_head_flag
  | h_error_not_implemented
  | h_error_bad_request
  | h_error_internal_server_error

definition hrf_collect_header :: unsigned where "hrf_collect_header = 1"

text \<open>The parser state, without its two pointers: the buffers are arguments.\<close>

record minute_http_rqs =
  s_flags :: unsigned
  s_httpv0 :: unsigned
  s_httpv1 :: unsigned
  s_tries :: triestate
  s_m     :: unsigned
  s_esc   :: unsigned
  s_st    :: http_request_state
  s_est   :: http_request_state
  s_nl    :: nat
  s_hmask :: unsigned

text \<open>The locals of \<open>minute_http_read\<close>: its copy of the state and what it works on.\<close>

record http_ctx = minute_http_rqs +
  c_b      :: unsigned
  c_tstate :: triestate
  c_flag   :: "patricia option"
  c_rq     :: minute_http_rq
  c_text   :: textint

text \<open>What one pass through the \<open>switch\<close> does: leave it, jump to \<open>top\<close>, return a code, or
  have undefined behaviour.\<close>

datatype ctrl = Break http_ctx | Again int http_ctx | Return nat http_ctx | Fault

section \<open>Characters of a request line\<close>

abbreviation (input) in_range :: "int \<Rightarrow> int \<Rightarrow> int \<Rightarrow> bool" where
  "in_range lo hi c \<equiv> lo \<le> c \<and> c \<le> hi"

abbreviation (input) HT :: int where "HT \<equiv> 9"
abbreviation (input) LF :: int where "LF \<equiv> 10"
abbreviation (input) CR :: int where "CR \<equiv> 13"
abbreviation (input) SP :: int where "SP \<equiv> 32"
abbreviation (input) H_EOF :: int where "H_EOF \<equiv> -1"

definition uri_hex :: "int \<Rightarrow> bool" where
  "uri_hex c \<longleftrightarrow> in_range 97 102 c \<or> in_range 65 70 c \<or> in_range 48 57 c"

definition uri_hex_conv :: "int \<Rightarrow> int" where
  "uri_hex_conv c =
     (if in_range 97 102 c then c + 10 - 97
      else if in_range 65 70 c then c + 10 - 97
      else c - 48)"

definition uri_alphanum :: "int \<Rightarrow> bool" where
  "uri_alphanum c \<longleftrightarrow> in_range 97 122 c \<or> in_range 65 90 c \<or> in_range 48 57 c"

definition uri_mark :: "int \<Rightarrow> bool" where
  "uri_mark c \<longleftrightarrow> c = 45 \<or> c = 95 \<or> c = 46 \<or> c = 33 \<or> c = 126 \<or> c = 42 \<or> c = 39 \<or> c = 40 \<or> c = 41"

definition uri_unreserved :: "int \<Rightarrow> bool" where
  "uri_unreserved c \<longleftrightarrow> uri_alphanum c \<or> uri_mark c"

definition uri_reserved :: "int \<Rightarrow> bool" where
  "uri_reserved c \<longleftrightarrow> c = 59 \<or> c = 47 \<or> c = 63 \<or> c = 58 \<or> c = 64 \<or> c = 38 \<or> c = 61 \<or> c = 43
     \<or> c = 36 \<or> c = 44"

definition uri_pchar :: "int \<Rightarrow> bool" where
  "uri_pchar c \<longleftrightarrow> uri_unreserved c \<or> c = 58 \<or> c = 64 \<or> c = 38 \<or> c = 61 \<or> c = 43 \<or> c = 36 \<or> c = 44"

definition uri_uric :: "int \<Rightarrow> bool" where
  "uri_uric c \<longleftrightarrow> uri_unreserved c \<or> uri_reserved c"

section \<open>The cases of the switch\<close>

definition shift :: "http_request_state \<Rightarrow> http_ctx \<Rightarrow> http_ctx" where
  "shift st x = x\<lparr>s_st := st\<rparr>"

definition reset :: "http_request_state \<Rightarrow> int \<Rightarrow> http_ctx \<Rightarrow> ctrl" where
  "reset st c x = Again c (x\<lparr>s_st := st\<rparr>)"

definition mark :: "http_ctx \<Rightarrow> http_ctx" where
  "mark x = x\<lparr>c_b := s_m x\<rparr>"

definition fresh_trie :: "http_ctx \<Rightarrow> http_ctx" where
  "fresh_trie x = x\<lparr>c_tstate := \<lparr>ts_poff = 0, ts_slot = 0\<rparr>\<rparr>"

text \<open>\<open>if (1 != minute_textint_putc(c, s.text)) return code;\<close> and then \<open>k\<close>.\<close>

definition putc_or :: "nat \<Rightarrow> char \<Rightarrow> http_ctx \<Rightarrow> (http_ctx \<Rightarrow> ctrl) \<Rightarrow> ctrl" where
  "putc_or code c x k =
     (case minute_textint_putc c (c_text x) of
        None \<Rightarrow> Fault
      | Some (r, t) \<Rightarrow> if r \<noteq> 1 then Return code (x\<lparr>c_text := t\<rparr>) else k (x\<lparr>c_text := t\<rparr>))"

definition puti_or :: "nat \<Rightarrow> int \<Rightarrow> http_ctx \<Rightarrow> (http_ctx \<Rightarrow> ctrl) \<Rightarrow> ctrl" where
  "puti_or code i x k =
     (case minute_textint_puti i (c_text x) of
        None \<Rightarrow> Fault
      | Some (r, t) \<Rightarrow> if r \<noteq> 1 then Return code (x\<lparr>c_text := t\<rparr>) else k (x\<lparr>c_text := t\<rparr>))"

text \<open>A call of \<open>walk_trie\<close> on the local trie state.\<close>

definition walk ::
    "int \<Rightarrow> nat \<Rightarrow> patricia list \<Rightarrow> patricia option \<Rightarrow> http_ctx \<Rightarrow> (int \<Rightarrow> http_ctx \<Rightarrow> ctrl) \<Rightarrow> ctrl" where
  "walk c off tree initial x k =
     (case walk_trie c off tree initial (c_tstate x) of
        None \<Rightarrow> Fault
      | Some (r, ts) \<Rightarrow> k r (x\<lparr>c_tstate := ts\<rparr>))"

definition sw_initial :: "int \<Rightarrow> http_ctx \<Rightarrow> ctrl" where
  "sw_initial c x =
     (if c = LF \<or> c = CR then Break x
      else reset h_method c ((fresh_trie x)\<lparr>s_esc := 0\<rparr>))"

definition sw_method :: "int \<Rightarrow> http_ctx \<Rightarrow> ctrl" where
  "sw_method c x =
     walk (if c = SP then 0 else c) (utility_trie_map c) utility (Some patinitial_method) x
       (\<lambda>r x. case method_of_code r of
           Some h \<Rightarrow> Break (mark (shift h_method_sp (x\<lparr>c_rq := (c_rq x)\<lparr>rq_request_method := h\<rparr>\<rparr>)))
         | None \<Rightarrow>
             if r = -1 then reset h_error_bad_request c x
             else if r = 0 then Break (mark x)
             else reset h_error_internal_server_error c x)"

definition sw_method_sp :: "int \<Rightarrow> http_ctx \<Rightarrow> ctrl" where
  "sw_method_sp c x =
     (if c \<noteq> SP
      then reset h_path c ((mark x)\<lparr>c_rq := (c_rq x)\<lparr>rq_path := ti_text (c_text x)\<rparr>\<rparr>)
      else Break x)"

definition sw_path :: "int \<Rightarrow> http_ctx \<Rightarrow> ctrl" where
  "sw_path c x =
     (if uri_pchar c \<or> c = 47 \<or> c = 59 then
        putc_or 414 (int_char c) x (\<lambda>x. Break (mark x))
      else if c = 37 then Break (mark (shift h_escaped_1 (x\<lparr>s_est := h_path\<rparr>)))
      else if c = 63 then
        putc_or 414 NUL x (\<lambda>x.
          let x = mark x in
          Break (shift h_query (x\<lparr>c_rq := (c_rq x)\<lparr>rq_query := ti_text (c_text x)\<rparr>\<rparr>)))
      else if c = SP then putc_or 414 NUL x (\<lambda>x. Break (shift h_path_sp (mark x)))
      else reset h_error_bad_request c x)"

definition sw_escaped_1 :: "int \<Rightarrow> http_ctx \<Rightarrow> ctrl" where
  "sw_escaped_1 c x =
     (if \<not> uri_hex c then reset h_error_bad_request c x
      else Break (shift h_escaped_2 (x\<lparr>s_esc := word_of_int (uri_hex_conv c)\<rparr>)))"

definition sw_escaped_2 :: "int \<Rightarrow> http_ctx \<Rightarrow> ctrl" where
  "sw_escaped_2 c x =
     (if \<not> uri_hex c then reset h_error_bad_request c x
      else
        let escaped = push_bit 4 (s_esc x) OR word_of_int (uri_hex_conv c) in
        putc_or 414 (int_char (uint escaped)) x (\<lambda>x. Break (shift (s_est x) (x\<lparr>s_esc := 0\<rparr>))))"

definition sw_query :: "int \<Rightarrow> http_ctx \<Rightarrow> ctrl" where
  "sw_query c x =
     (if uri_uric c then putc_or 414 (int_char c) x (\<lambda>x. Break (mark x))
      else if c = 37 then Break (mark (shift h_escaped_1 (x\<lparr>s_est := h_query\<rparr>)))
      else if c = SP then putc_or 414 NUL x (\<lambda>x. Break (shift h_path_sp (mark x)))
      else reset h_error_bad_request c x)"

definition sw_path_sp :: "int \<Rightarrow> http_ctx \<Rightarrow> ctrl" where
  "sw_path_sp c x = (if c = SP then Break x else reset h_prot c (fresh_trie x))"

definition sw_prot :: "int \<Rightarrow> http_ctx \<Rightarrow> ctrl" where
  "sw_prot c x =
     walk (if c = 47 then 0 else c) (utility_trie_map c) utility (Some patinitial_protocol) x
       (\<lambda>r x.
         if r = http_proto then Break (mark (shift h_prot_slash x))
         else if r = -1 then Return 505 x
         else if r = 0 then Break (mark x)
         else reset h_error_internal_server_error c x)"

definition sw_prot_slash :: "int \<Rightarrow> http_ctx \<Rightarrow> ctrl" where
  "sw_prot_slash c x =
     (if in_range 48 57 c then Break (x\<lparr>s_httpv0 := s_httpv0 x * 10 + word_of_int (c - 48)\<rparr>)
      else reset h_prot_http_x c x)"

definition sw_prot_http_x :: "int \<Rightarrow> http_ctx \<Rightarrow> ctrl" where
  "sw_prot_http_x c x =
     (if c = 46 then Break (shift h_prot_http_x_dot x) else reset h_error_bad_request c x)"

definition sw_prot_http_x_dot :: "int \<Rightarrow> http_ctx \<Rightarrow> ctrl" where
  "sw_prot_http_x_dot c x =
     (if in_range 48 57 c then Break (x\<lparr>s_httpv1 := s_httpv1 x * 10 + word_of_int (c - 48)\<rparr>)
      else reset h_prot_http_x_x c x)"

definition sw_prot_http_x_x :: "int \<Rightarrow> http_ctx \<Rightarrow> ctrl" where
  "sw_prot_http_x_x c x =
     (let v = (if s_httpv0 x = 0 then
                 if s_httpv1 x = 9 then http_0_9 else rq_server_protocol (c_rq x)
               else if s_httpv0 x = 1 then
                 if s_httpv1 x = 0 then http_1_0
                 else if s_httpv1 x = 1 then http_1_1 else rq_server_protocol (c_rq x)
               else rq_server_protocol (c_rq x));
          x = x\<lparr>c_rq := (c_rq x)\<lparr>rq_server_protocol := v\<rparr>\<rparr>
      in if v = http_unknown_version then Return 505 x
         else if c = CR then Break (shift h_cr x)
         else if c = LF then Break (shift h_nl (x\<lparr>s_nl := s_nl x + 1\<rparr>))
         else reset h_error_bad_request c x)"

definition sw_cr :: "int \<Rightarrow> http_ctx \<Rightarrow> ctrl" where
  "sw_cr c x =
     (if c = LF then Break (shift h_nl (x\<lparr>s_nl := s_nl x + 1\<rparr>))
      else reset h_error_bad_request c x)"

definition sw_nl :: "int \<Rightarrow> http_ctx \<Rightarrow> ctrl" where
  "sw_nl c x =
     (let x = mark x in
      if c = CR then Break (shift h_cr x)
      else if c = LF then Break (shift h_nl (x\<lparr>s_nl := s_nl x + 1\<rparr>))
      else if c = SP \<or> c = HT then Break (shift h_cont (x\<lparr>s_nl := 0\<rparr>))
      else reset h_header c (fresh_trie (mark (x\<lparr>s_nl := 0\<rparr>))))"

text \<open>\<open>1u<<r\<close> on the machine: the shift count is reduced modulo 32.\<close>

definition header_mask :: "int \<Rightarrow> unsigned" where
  "header_mask r = push_bit (nat (r mod 32)) 1"

definition lower :: "int \<Rightarrow> int" where
  "lower c = (if in_range 65 90 c then c - 65 + 97 else c)"

text \<open>The \<open>switch (r)\<close> on a recognised header.\<close>

definition sw_header_found :: "int \<Rightarrow> http_ctx \<Rightarrow> (http_ctx \<Rightarrow> ctrl) \<Rightarrow> ctrl" where
  "sw_header_found r x k =
     (if r = rq_code http_rq_connection then
        k (shift h_value_lead (x\<lparr>s_est := h_head_connection\<rparr>))
      else if r = rq_code http_rq_content_length then
        k (shift h_value_lead (x\<lparr>s_est := h_head_content_length, s_esc := 0\<rparr>))
      else if r = rq_code http_rq_expect then
        k (shift h_value_lead (x\<lparr>s_est := h_head_expect\<rparr>))
      else if r = rq_code http_rq_transfer_encoding then
        k (shift h_value_lead (x\<lparr>s_est := h_head_transfer_encoding\<rparr>))
      else if s_hmask x AND header_mask r \<noteq> 0 then
        puti_or 413 r x (\<lambda>x.
          puti_or 413 (sint (ti_text (c_text x))) x (\<lambda>x.
            k (shift h_value_lead
                (x\<lparr>s_flags := s_flags x OR hrf_collect_header, s_est := h_value\<rparr>))))
      else
        k (shift h_skipline
            (x\<lparr>s_flags := s_flags x AND NOT hrf_collect_header, s_est := h_skipline\<rparr>)))"

definition sw_header :: "int \<Rightarrow> http_ctx \<Rightarrow> ctrl" where
  "sw_header c0 x =
     (let c = lower c0;
          k = (\<lambda>x. Break (if s_hmask x AND 1 = 0 then mark x else x))
      in walk (if c = 58 then 0 else c) (header_trie_map c) headers (Some patinitial_headers) x
           (\<lambda>r x.
             if r < 0 then reset h_skipline c x
             else if 0 < r then sw_header_found r (fresh_trie x) k
             else k x))"

definition sw_head_connection :: "int \<Rightarrow> http_ctx \<Rightarrow> ctrl" where
  "sw_head_connection c x = reset h_head_flag c (x\<lparr>c_flag := Some patinitial_connection\<rparr>)"

definition sw_head_content_length :: "int \<Rightarrow> http_ctx \<Rightarrow> ctrl" where
  "sw_head_content_length c x =
     (if in_range 48 57 c then Break (x\<lparr>s_esc := s_esc x * 10 + word_of_int (c - 48)\<rparr>)
      else if c = CR then
        Break (shift h_cr (x\<lparr>c_rq := (c_rq x)\<lparr>
          rq_flags := rq_flags (c_rq x) OR http_content_length,
          rq_content_length := s_esc x\<rparr>\<rparr>))
      else if c = LF then reset h_cr c x
      else reset h_error_bad_request c x)"

definition sw_head_expect :: "int \<Rightarrow> http_ctx \<Rightarrow> ctrl" where
  "sw_head_expect c x = reset h_head_flag c (x\<lparr>c_flag := Some patinitial_expect\<rparr>)"

definition sw_head_transfer_encoding :: "int \<Rightarrow> http_ctx \<Rightarrow> ctrl" where
  "sw_head_transfer_encoding c x = reset h_head_flag c (x\<lparr>c_flag := Some patinitial_transfer\<rparr>)"

definition sw_head_flag :: "int \<Rightarrow> http_ctx \<Rightarrow> ctrl" where
  "sw_head_flag c0 x =
     (let c = lower c0 in
      walk (if c = CR \<or> c = LF then 0 else c) (utility_trie_map c) utility (c_flag x) x
        (\<lambda>r x.
          if r < 0 then reset h_skipline c x
          else if 0 < r then
            reset h_skipline c
              (mark (x\<lparr>c_rq := (c_rq x)\<lparr>rq_flags := rq_flags (c_rq x) OR word_of_int r\<rparr>\<rparr>))
          else Break x))"

definition sw_cont :: "int \<Rightarrow> http_ctx \<Rightarrow> ctrl" where
  "sw_cont c x =
     (if s_flags x AND hrf_collect_header \<noteq> 0 then
        (case minute_textint_replacec (-1) (CHR '' '') (c_text x) of
           None \<Rightarrow> Fault
         | Some (r, t) \<Rightarrow> reset h_value_lead c (x\<lparr>c_text := t\<rparr>))
      else reset h_skipline c x)"

definition sw_value_lead :: "int \<Rightarrow> http_ctx \<Rightarrow> ctrl" where
  "sw_value_lead c x =
     (if c \<noteq> SP \<and> c \<noteq> HT then reset (s_est x) c (mark x) else Break x)"

definition sw_value :: "int \<Rightarrow> http_ctx \<Rightarrow> ctrl" where
  "sw_value c x =
     (let x = mark x; close = (\<lambda>x. putc_or 413 NUL x Break) in
      if c = CR then close (shift h_cr x)
      else if c = LF then close (shift h_nl (x\<lparr>s_nl := s_nl x + 1\<rparr>))
      else if c = H_EOF then close (x\<lparr>s_nl := 99\<rparr>)
      else if c = SP \<or> c = HT then
        putc_or 413 (CHR '' '') x (\<lambda>x. Break (shift h_value_lead (x\<lparr>s_est := s_st x\<rparr>)))
      else putc_or 413 (int_char c) x Break)"

definition sw_skipline :: "int \<Rightarrow> http_ctx \<Rightarrow> ctrl" where
  "sw_skipline c x =
     (let x = mark x in
      if c = CR then Break (shift h_cr x)
      else if c = LF then Break (shift h_nl (x\<lparr>s_nl := s_nl x + 1\<rparr>))
      else if c = H_EOF then Break (x\<lparr>s_nl := 99\<rparr>)
      else Break x)"

definition http_switch :: "int \<Rightarrow> http_ctx \<Rightarrow> ctrl" where
  "http_switch c x = (case s_st x of
       h_initial \<Rightarrow> sw_initial c x
     | h_method \<Rightarrow> sw_method c x
     | h_method_sp \<Rightarrow> sw_method_sp c x
     | h_path \<Rightarrow> sw_path c x
     | h_escaped_1 \<Rightarrow> sw_escaped_1 c x
     | h_escaped_2 \<Rightarrow> sw_escaped_2 c x
     | h_query \<Rightarrow> sw_query c x
     | h_path_sp \<Rightarrow> sw_path_sp c x
     | h_prot \<Rightarrow> sw_prot c x
     | h_prot_slash \<Rightarrow> sw_prot_slash c x
     | h_prot_http_x \<Rightarrow> sw_prot_http_x c x
     | h_prot_http_x_dot \<Rightarrow> sw_prot_http_x_dot c x
     | h_prot_http_x_x \<Rightarrow> sw_prot_http_x_x c x
     | h_cr \<Rightarrow> sw_cr c x
     | h_nl \<Rightarrow> sw_nl c x
     | h_header \<Rightarrow> sw_header c x
     | h_head_connection \<Rightarrow> sw_head_connection c x
     | h_head_content_length \<Rightarrow> sw_head_content_length c x
     | h_head_expect \<Rightarrow> sw_head_expect c x
     | h_head_transfer_encoding \<Rightarrow> sw_head_transfer_encoding c x
     | h_head_flag \<Rightarrow> sw_head_flag c x
     | h_cont \<Rightarrow> sw_cont c x
     | h_value_lead \<Rightarrow> sw_value_lead c x
     | h_value \<Rightarrow> sw_value c x
     | h_skipline \<Rightarrow> sw_skipline c x
     | h_error_not_implemented \<Rightarrow> Return 501 x
     | h_error_bad_request \<Rightarrow> Return 400 x
     | h_error_internal_server_error \<Rightarrow> Return 500 x
     | h_newline \<Rightarrow> Return 500 x
     | h_header_unknown \<Rightarrow> Return 500 x)"

section \<open>The loop\<close>

text \<open>The loop of \<open>minute_http_read\<close>.  Its argument is the place it is at: the head of the
  loop (\<open>None\<close>) or \<open>top\<close> with the current character.  The result is \<open>None\<close> when the loop does
  not end, \<open>Some None\<close> for undefined behaviour, and otherwise the code returned with the locals
  at that point.\<close>

definition EAGAIN :: nat where "EAGAIN = 11"

partial_function (option) http_go ::
    "iobuf \<Rightarrow> int option \<Rightarrow> http_ctx \<Rightarrow> (nat \<times> http_ctx) c_loop" where
  "http_go io at x =
     (case at of
        None \<Rightarrow>
          if s_m x = io_write io then
            if io_flags io AND IOBUF_EOF \<noteq> 0 then http_go io (Some H_EOF) x
            else Some (Some (EAGAIN, x))
          else
            (case mem_read (io_data io) (unat (s_m x AND io_mask io)) of
               None \<Rightarrow> Some None
             | Some ch \<Rightarrow> http_go io (Some (char_int ch)) x)
      | Some c \<Rightarrow>
          (case http_switch c x of
             Fault \<Rightarrow> Some None
           | Return code x' \<Rightarrow> Some (Some (code, x'))
           | Again c' x' \<Rightarrow> http_go io (Some c') x'
           | Break x' \<Rightarrow>
               let x'' = x'\<lparr>s_m := s_m x' + 1\<rparr> in
               if 1 < s_nl x'' then Some (Some (0, x'')) else http_go io None x''))"

declare http_go.simps [code]

text \<open>The locals at entry, and what is written back at each of the returns.\<close>

definition http_enter :: "minute_http_rq \<Rightarrow> minute_http_rqs \<Rightarrow> iobuf \<Rightarrow> textint \<Rightarrow> http_ctx" where
  "http_enter rq s io t = minute_http_rqs.extend s
     \<lparr>c_b = io_read io, c_tstate = s_tries s, c_flag = None, c_rq = rq, c_text = t\<rparr>"

definition http_leave ::
    "minute_http_rqs \<Rightarrow> iobuf \<Rightarrow> nat \<Rightarrow> http_ctx
     \<Rightarrow> nat \<times> minute_http_rq \<times> minute_http_rqs \<times> iobuf \<times> textint" where
  "http_leave s io code x =
     (if code = EAGAIN then
        (code, c_rq x, minute_http_rqs.truncate (x\<lparr>s_tries := c_tstate x\<rparr>),
         io\<lparr>io_read := c_b x\<rparr>, c_text x)
      else if code = 0 then
        (code, c_rq x, minute_http_rqs.truncate x, io\<lparr>io_read := s_m x\<rparr>, c_text x)
      else (code, c_rq x, s, io, c_text x))"

definition minute_http_read ::
    "minute_http_rq \<Rightarrow> minute_http_rqs \<Rightarrow> iobuf \<Rightarrow> textint
     \<Rightarrow> (nat \<times> minute_http_rq \<times> minute_http_rqs \<times> iobuf \<times> textint) c_loop" where
  "minute_http_read rq s io t =
     map_option (map_option (\<lambda>(code, x). http_leave s io code x))
       (http_go io None (http_enter rq s io t))"

definition minute_http_rqs_init :: "unsigned \<Rightarrow> iobuf \<Rightarrow> minute_http_rqs" where
  "minute_http_rqs_init hmask io =
     \<lparr>s_flags = 0, s_httpv0 = 0, s_httpv1 = 0, s_tries = \<lparr>ts_poff = 0, ts_slot = 0\<rparr>,
      s_m = io_read io, s_esc = 0, s_st = h_initial, s_est = h_initial, s_nl = 0, s_hmask = hmask\<rparr>"

text \<open>Byte 0 of the text is a NUL: the string at index 0 is the empty one.\<close>

definition minute_http_init ::
    "unsigned \<Rightarrow> iobuf \<Rightarrow> textint \<Rightarrow> (minute_http_rqs \<times> textint) option" where
  "minute_http_init hmask io t = do {
     d \<leftarrow> mem_write (ti_data t) 0 NUL;
     Some (minute_http_rqs_init hmask io, t\<lparr>ti_data := d, ti_text := 1, ti_ints := ti_size t\<rparr>)
   }"

definition minute_http_init_trailers :: "unsigned \<Rightarrow> iobuf \<Rightarrow> minute_http_rqs" where
  "minute_http_init_trailers hmask io = (minute_http_rqs_init hmask io)\<lparr>s_st := h_header\<rparr>"

end
