(* ===== verification/Http_Safe.thy ===== *)
theory Http_Safe
  imports Http_Read
begin

text \<open>
  The request parser never leaves its tables and buffers and always comes to an end: the
  invariant \<open>http_inv\<close> of the parser's locals, its preservation by every case of the switch,
  and a rank that bounds the number of \<open>goto top\<close> a character can cause.
\<close>

section \<open>The outcome of a switch\<close>

definition ctrl_post ::
    "(http_ctx \<Rightarrow> bool) \<Rightarrow> (int \<Rightarrow> http_ctx \<Rightarrow> bool) \<Rightarrow> (nat \<Rightarrow> http_ctx \<Rightarrow> bool) \<Rightarrow> ctrl \<Rightarrow> bool" where
  "ctrl_post P Q R z = (case z of Break x \<Rightarrow> P x | Again c x \<Rightarrow> Q c x | Return k x \<Rightarrow> R k x | Fault \<Rightarrow> False)"

lemma ctrl_post_simps [simp]:
  "ctrl_post P Q R (Break x) = P x" "ctrl_post P Q R (Again c x) = Q c x"
  "ctrl_post P Q R (Return k x) = R k x" "ctrl_post P Q R Fault = False"
  by (simp_all add: ctrl_post_def)

lemma ctrl_post_if:
  "(b \<Longrightarrow> ctrl_post P Q R z) \<Longrightarrow> (\<not> b \<Longrightarrow> ctrl_post P Q R z') \<Longrightarrow> ctrl_post P Q R (if b then z else z')"
  by simp

text \<open>States in which \<open>est\<close> may leave the parser, and those it never is in.\<close>

definition flag_states :: "http_request_state set" where
  "flag_states = {h_head_connection, h_head_expect, h_head_transfer_encoding}"

definition est_states :: "http_request_state set" where
  "est_states = {h_initial, h_path, h_query, h_value, h_skipline, h_head_content_length} \<union> flag_states"

definition dead_states :: "http_request_state set" where
  "dead_states = {h_newline, h_header_unknown, h_error_not_implemented, h_error_internal_server_error}"

text \<open>The trie a flag header walks, and the states of a walk in it.\<close>

definition flag_root :: "http_request_state \<Rightarrow> patricia" where
  "flag_root e = (if e = h_head_connection then patinitial_connection
     else if e = h_head_expect then patinitial_expect else patinitial_transfer)"

definition flag_valid :: "http_request_state \<Rightarrow> triestate \<Rightarrow> bool" where
  "flag_valid e ts = (if e = h_head_connection then connection_trie.valid ts
     else if e = h_head_expect then expect_trie.valid ts else transfer_trie.valid ts)"

definition collecting :: "http_ctx \<Rightarrow> bool" where
  "collecting x \<longleftrightarrow> s_flags x AND hrf_collect_header \<noteq> 0"

definition trie_inv :: "http_ctx \<Rightarrow> bool" where
  "trie_inv x = (case s_st x of
       h_method \<Rightarrow> method_trie.valid (c_tstate x)
     | h_prot \<Rightarrow> protocol_trie.valid (c_tstate x)
     | h_header \<Rightarrow> header_trie.valid (c_tstate x)
     | h_head_flag \<Rightarrow> s_est x \<in> flag_states \<and> flag_valid (s_est x) (c_tstate x)
         \<and> (c_flag x = Some (flag_root (s_est x)) \<or> ts_poff (c_tstate x) \<noteq> 0)
     | h_escaped_1 \<Rightarrow> s_est x \<in> {h_path, h_query}
     | h_escaped_2 \<Rightarrow> s_est x \<in> {h_path, h_query}
     | h_value_lead \<Rightarrow> s_est x \<in> flag_states \<longrightarrow> ts_poff (c_tstate x) = 0
     | h_cont \<Rightarrow> collecting x \<longrightarrow> s_est x \<notin> flag_states
     | h_head_connection \<Rightarrow> s_est x = h_head_connection \<and> ts_poff (c_tstate x) = 0
     | h_head_expect \<Rightarrow> s_est x = h_head_expect \<and> ts_poff (c_tstate x) = 0
     | h_head_transfer_encoding \<Rightarrow> s_est x = h_head_transfer_encoding \<and> ts_poff (c_tstate x) = 0
     | _ \<Rightarrow> True)"

definition text_inv :: "http_ctx \<Rightarrow> bool" where
  "text_inv x \<longleftrightarrow> textint_ok (c_text x) \<and> 1 \<le> unat (ti_text (c_text x))"

definition http_inv :: "http_ctx \<Rightarrow> bool" where
  "http_inv x \<longleftrightarrow> text_inv x \<and> s_est x \<in> est_states \<and> s_st x \<notin> dead_states \<and> trie_inv x"

text \<open>How many times a character can still be looked at again.\<close>

definition rank :: "http_request_state \<Rightarrow> nat" where
  "rank st = (case st of
       h_error_bad_request \<Rightarrow> 0 | h_skipline \<Rightarrow> 0 | h_value \<Rightarrow> 0
     | h_method \<Rightarrow> 1 | h_path \<Rightarrow> 1 | h_query \<Rightarrow> 1 | h_escaped_1 \<Rightarrow> 1 | h_escaped_2 \<Rightarrow> 1
     | h_prot \<Rightarrow> 1 | h_prot_http_x \<Rightarrow> 1 | h_prot_http_x_x \<Rightarrow> 1 | h_cr \<Rightarrow> 1 | h_header \<Rightarrow> 1
     | h_head_flag \<Rightarrow> 1
     | h_initial \<Rightarrow> 2 | h_method_sp \<Rightarrow> 2 | h_path_sp \<Rightarrow> 2 | h_prot_slash \<Rightarrow> 2
     | h_prot_http_x_dot \<Rightarrow> 2 | h_nl \<Rightarrow> 2 | h_head_content_length \<Rightarrow> 2
     | h_head_connection \<Rightarrow> 2 | h_head_expect \<Rightarrow> 2 | h_head_transfer_encoding \<Rightarrow> 2
     | h_value_lead \<Rightarrow> 3 | h_cont \<Rightarrow> 4 | _ \<Rightarrow> 0)"

definition error_codes :: "nat set" where
  "error_codes = {400, 413, 414, 505}"

text \<open>A folded line after a flag header while a header is being collected.\<close>

definition stale_fold :: "int \<Rightarrow> http_ctx \<Rightarrow> bool" where
  "stale_fold c x \<longleftrightarrow> s_st x = h_nl \<and> (c = SP \<or> c = HT) \<and> collecting x \<and> s_est x \<in> flag_states"


section \<open>Rules for the pieces of a case\<close>

context trie_table
begin

lemma walk_end_start: "ts_poff ts = 0 \<Longrightarrow> walk_trie 0 (cmap d) tree (Some initial) ts = Some (-1, ts)"
  using no_empty [of "pat_offset initial + cmap d"] bound [of d]
  by (cases "pat_prefix (tree ! (pat_offset initial + cmap d))")
    (auto simp: walk_trie_def walk_next_def Let_def prefix_char_def char_int_zero_iff hd_conv_nth)

text \<open>Every way the parser calls \<open>walk_trie\<close>: on a character or on 0 with any table column.\<close>

lemma walk_any:
  assumes "valid ts" "c = 0 \<or> c = d \<and> (\<exists>ch. d = char_int ch)"
  obtains r ts' where "walk_trie c (cmap d) tree (Some initial) ts = Some (r, ts')" "valid ts'"
    "r = -1 \<or> r = 0 \<or> 0 < r \<and> c = 0 \<and> (spelled ts, r) \<in> set dict" "r = 0 \<Longrightarrow> ts_poff ts' \<noteq> 0"
proof (cases "c = 0")
  case True
  from walk_end [OF assms(1), of d] show ?thesis
  proof cases
    case (1 r)
    then show ?thesis using that [of r ts] assms(1) True walk_end_start [of ts d] by fastforce
  qed
next
  case False
  then obtain ch where ch: "c = char_int ch" "d = char_int ch" "ch \<noteq> NUL"
    using assms(2) char_int_zero_iff by auto
  from walk_char [OF assms(1) ch(3)] show ?thesis
    by cases (use that ch assms(1) in auto)
qed

end

text \<open>No table spells the byte that reads as \<open>H_EOF\<close>.\<close>

definition no_eof :: "patricia list \<Rightarrow> bool" where
  "no_eof tree \<longleftrightarrow> list_all (\<lambda>e. case pat_prefix e of None \<Rightarrow> True | Some u \<Rightarrow> CHR 0xFF \<notin> set u) tree"

lemma char_int_eof: "char_int ch = H_EOF \<longleftrightarrow> ch = CHR 0xFF"
proof -
  have "char_int (CHR 0xFF) = -1" by code_simp
  then show ?thesis by (metis char_int_inject)
qed

lemma prefix_char_eof:
  "no_eof tree \<Longrightarrow> p < length tree \<Longrightarrow> pat_prefix (tree ! p) = Some u \<Longrightarrow> prefix_char u i \<noteq> Some H_EOF"
proof
  assume a: "no_eof tree" "p < length tree" "pat_prefix (tree ! p) = Some u"
    "prefix_char u i = Some H_EOF"
  then have "CHR 0xFF \<notin> set u" by (auto simp: no_eof_def list_all_length)
  moreover have "i < length u" "u ! i = CHR 0xFF"
    using a(4) char_int_eof by (auto simp: prefix_char_def split: if_splits)
  ultimately show False by (metis nth_mem)
qed

lemma walk_trie_eof:
  assumes "no_eof tree" "walk_trie H_EOF d tree i ts = Some (r, ts')"
  shows "r = -1"
proof -
  have next_eof: "r = -1" if "walk_next H_EOF d tree p pc ts = Some (r, ts')" "pc \<noteq> H_EOF" for p pc
    using that prefix_char_eof [OF assms(1), of "pat_offset p + d"]
    by (auto simp: walk_next_def Let_def not_le split: if_splits option.splits)
  show ?thesis
  proof (cases "ts_poff ts = 0")
    case True
    then show ?thesis using assms(2) next_eof by (auto simp: walk_trie_def split: bind_splits)
  next
    case False
    then show ?thesis
      using assms(2) next_eof prefix_char_eof [OF assms(1)]
      by (auto simp: walk_trie_def Let_def split: bind_splits if_splits) (metis not_le)
  qed
qed

lemma walk_trie_initial:
  "ts_poff ts \<noteq> 0 \<Longrightarrow> walk_trie c d tree i ts = walk_trie c d tree i' ts"
  by (simp add: walk_trie_def)


lemma putc_or_post:
  assumes "text_inv x"
    and "\<And>t. text_inv (x\<lparr>c_text := t\<rparr>) \<Longrightarrow> ctrl_post P Q R (k (x\<lparr>c_text := t\<rparr>))"
    and "\<And>t. text_inv (x\<lparr>c_text := t\<rparr>) \<Longrightarrow> R code (x\<lparr>c_text := t\<rparr>)"
  shows "ctrl_post P Q R (putc_or code c x k)"
proof -
  have ok: "textint_ok (c_text x)" "1 \<le> unat (ti_text (c_text x))"
    using assms(1) by (auto simp: text_inv_def)
  show ?thesis
  proof (cases "textint_full (c_text x)")
    case True
    then show ?thesis
      using assms(1) assms(3) [of "c_text x"] ok
      by (simp add: putc_or_def minute_textint_putc_eq text_inv_def)
  next
    case False
    then have "text_inv (x\<lparr>c_text := textint_addc c (c_text x)\<rparr>)"
      using ok unat_text_Suc [OF False] by (simp add: text_inv_def textint_addc_ok)
    then show ?thesis
      using assms(2) ok False by (simp add: putc_or_def minute_textint_putc_eq)
  qed
qed

lemma puti_or_post:
  assumes "text_inv x"
    and "\<And>t. text_inv (x\<lparr>c_text := t\<rparr>) \<Longrightarrow> ctrl_post P Q R (k (x\<lparr>c_text := t\<rparr>))"
    and "\<And>t. text_inv (x\<lparr>c_text := t\<rparr>) \<Longrightarrow> R code (x\<lparr>c_text := t\<rparr>)"
  shows "ctrl_post P Q R (puti_or code i x k)"
proof -
  have ok: "textint_ok (c_text x)" "1 \<le> unat (ti_text (c_text x))"
    using assms(1) by (auto simp: text_inv_def)
  show ?thesis
  proof (cases "textint_ifull (c_text x)")
    case True
    then show ?thesis
      using assms(1) assms(3) [of "c_text x"] ok
      by (simp add: puti_or_def minute_textint_puti_eq text_inv_def)
  next
    case False
    then have "text_inv (x\<lparr>c_text := textint_addi i (c_text x)\<rparr>)"
      using ok by (simp add: text_inv_def textint_addi_ok)
    then show ?thesis
      using assms(2) ok False by (simp add: puti_or_def minute_textint_puti_eq)
  qed
qed

context trie_table
begin

lemma walk_post:
  assumes "valid (c_tstate x)" "c = 0 \<or> c = d \<and> (\<exists>ch. d = char_int ch)"
    and "ini = Some initial \<or> ts_poff (c_tstate x) \<noteq> 0" "no_eof tree"
    and "\<And>r ts. valid ts \<Longrightarrow> r = -1 \<or> r = 0 \<and> ts_poff ts \<noteq> 0 \<and> c \<noteq> -1 \<or> 0 < r \<and> c = 0 \<and> r \<in> snd ` set dict
      \<Longrightarrow> ctrl_post P Q R (k r (x\<lparr>c_tstate := ts\<rparr>))"
  shows "ctrl_post P Q R (walk c (cmap d) tree ini x k)"
proof -
  have eq: "walk_trie c (cmap d) tree ini (c_tstate x)
      = walk_trie c (cmap d) tree (Some initial) (c_tstate x)"
    using assms(3) walk_trie_initial by metis
  from walk_any [OF assms(1,2)] show ?thesis
  proof cases
    case (1 r ts')
    then show ?thesis using assms(5) [of ts' r] walk_trie_eof [OF assms(4)] eq by (force simp: walk_def)
  qed
qed

end


lemma no_eof_tables: "no_eof headers" "no_eof utility"
  by code_simp+


section \<open>Every case keeps the invariant\<close>

definition stays :: "http_ctx \<Rightarrow> http_ctx \<Rightarrow> bool" where
  "stays x x' \<longleftrightarrow> s_m x' = s_m x \<and> s_hmask x' = s_hmask x \<and> (c_b x' = c_b x \<or> c_b x' = s_m x)"

definition break_ok :: "int \<Rightarrow> http_ctx \<Rightarrow> http_ctx \<Rightarrow> bool" where
  "break_ok c x x' \<longleftrightarrow> http_inv x' \<and> stays x x' \<and> (s_st x' = h_nl \<longrightarrow> c = LF)
     \<and> (c = H_EOF \<longrightarrow> 1 < s_nl x') \<and> (s_st x' = h_head_flag \<longrightarrow> ts_poff (c_tstate x') \<noteq> 0)"

definition again_ok :: "int \<Rightarrow> http_ctx \<Rightarrow> int \<Rightarrow> http_ctx \<Rightarrow> bool" where
  "again_ok c x c' x' \<longleftrightarrow> (c' = c \<or> c' = lower c) \<and> http_inv x' \<and> stays x x' \<and> s_st x' \<noteq> h_nl
     \<and> rank (s_st x') < rank (s_st x) \<and> (s_st x' = h_head_flag \<longrightarrow> s_st x \<in> flag_states)"

definition return_ok :: "nat \<Rightarrow> http_ctx \<Rightarrow> http_ctx \<Rightarrow> bool" where
  "return_ok k x x' \<longleftrightarrow> k \<in> error_codes \<and> text_inv x' \<and> stays x x'"

abbreviation case_ok :: "int \<Rightarrow> http_ctx \<Rightarrow> ctrl \<Rightarrow> bool" where
  "case_ok c x \<equiv> ctrl_post (break_ok c x) (again_ok c x) (\<lambda>k. return_ok k x)"

lemma text_inv_cong: "c_text x' = c_text x \<Longrightarrow> text_inv x' = text_inv x"
  by (simp add: text_inv_def)

lemma lower_eof: "lower c = H_EOF \<longleftrightarrow> c = H_EOF" "lower c = 0 \<longleftrightarrow> c = 0"
  by (auto simp: lower_def)

lemma lower_char_int: "lower (char_int ch) = char_int (char_lower ch)"
proof (cases "65 \<le> char_int ch \<and> char_int ch \<le> 90")
  case True
  then show ?thesis by (simp add: lower_def char_lower_def char_int_int_char)
next
  case False
  then show ?thesis by (auto simp: lower_def char_lower_def)
qed

lemmas outcome_defs = break_ok_def again_ok_def return_ok_def stays_def reset_def shift_def mark_def
  fresh_trie_def

lemma simple_cases:
  assumes "http_inv x"
  shows "s_st x = h_initial \<Longrightarrow> case_ok c x (sw_initial c x)"
  "s_st x = h_method_sp \<Longrightarrow> case_ok c x (sw_method_sp c x)"
  "s_st x = h_path_sp \<Longrightarrow> case_ok c x (sw_path_sp c x)"
  "s_st x = h_prot_slash \<Longrightarrow> case_ok c x (sw_prot_slash c x)"
  "s_st x = h_prot_http_x \<Longrightarrow> case_ok c x (sw_prot_http_x c x)"
  "s_st x = h_prot_http_x_dot \<Longrightarrow> case_ok c x (sw_prot_http_x_dot c x)"
  "s_st x = h_prot_http_x_x \<Longrightarrow> case_ok c x (sw_prot_http_x_x c x)"
  "s_st x = h_cr \<Longrightarrow> case_ok c x (sw_cr c x)"
  "s_st x = h_escaped_1 \<Longrightarrow> case_ok c x (sw_escaped_1 c x)"
  "s_st x = h_head_connection \<Longrightarrow> case_ok c x (sw_head_connection c x)"
  "s_st x = h_head_expect \<Longrightarrow> case_ok c x (sw_head_expect c x)"
  "s_st x = h_head_transfer_encoding \<Longrightarrow> case_ok c x (sw_head_transfer_encoding c x)"
  "s_st x = h_head_content_length \<Longrightarrow> case_ok c x (sw_head_content_length c x)"
  "s_st x = h_skipline \<Longrightarrow> case_ok c x (sw_skipline c x)"
  using assms
  by (simp_all add: outcome_defs http_inv_def trie_inv_def rank_def est_states_def flag_states_def
      dead_states_def text_inv_def sw_initial_def sw_method_sp_def sw_path_sp_def sw_prot_slash_def
      sw_prot_http_x_def sw_prot_http_x_dot_def sw_prot_http_x_x_def sw_cr_def sw_escaped_1_def
      sw_head_connection_def sw_head_expect_def sw_head_transfer_encoding_def
      sw_head_content_length_def sw_skipline_def error_codes_def Let_def flag_root_def flag_valid_def
      method_trie.valid_zero protocol_trie.valid_zero connection_trie.valid_zero
      expect_trie.valid_zero transfer_trie.valid_zero uri_hex_def)


lemmas inv_defs = http_inv_def trie_inv_def rank_def est_states_def flag_states_def dead_states_def
  flag_root_def flag_valid_def

lemma nl_case:
  "http_inv x \<Longrightarrow> s_st x = h_nl \<Longrightarrow> \<not> stale_fold c x \<Longrightarrow> case_ok c x (sw_nl c x)"
  by (auto simp: outcome_defs inv_defs text_inv_def sw_nl_def stale_fold_def collecting_def Let_def
      header_trie.valid_zero)

lemma value_lead_case:
  assumes "http_inv x" "s_st x = h_value_lead"
  shows "case_ok c x (sw_value_lead c x)"
proof (cases "c \<noteq> SP \<and> c \<noteq> HT")
  case True
  then show ?thesis
    using assms
    by (cases "s_est x") (simp_all add: outcome_defs inv_defs text_inv_def sw_value_lead_def)
next
  case False
  then show ?thesis
    using assms by (auto simp: sw_value_lead_def break_ok_def stays_def)
qed

lemma cont_case:
  assumes "http_inv x" "s_st x = h_cont"
  shows "case_ok c x (sw_cont c x)"
proof -
  have t: "textint_ok (c_text x)" "0 < unat (ti_text (c_text x))"
    using assms(1) by (auto simp: http_inv_def text_inv_def)
  then have "textint_ok ((c_text x)\<lparr>ti_data := d\<rparr>)" if "length d = length (ti_data (c_text x))" for d
    using that by (simp add: textint_ok_def)
  then show ?thesis
    using assms t
    by (auto simp: sw_cont_def minute_textint_replacec_last outcome_defs inv_defs text_inv_def collecting_def)
qed

lemma uri_eof: "\<not> uri_pchar H_EOF" "\<not> uri_uric H_EOF" "\<not> uri_hex H_EOF"
  by code_simp+

lemma text_cases:
  assumes "http_inv x"
  shows "s_st x = h_path \<Longrightarrow> case_ok c x (sw_path c x)"
  "s_st x = h_query \<Longrightarrow> case_ok c x (sw_query c x)"
  "s_st x = h_escaped_2 \<Longrightarrow> case_ok c x (sw_escaped_2 c x)"
  "s_st x = h_value \<Longrightarrow> case_ok c x (sw_value c x)"
proof -
  have t: "text_inv x" "s_est x \<in> est_states" using assms by (auto simp: http_inv_def)
  note defs = outcome_defs inv_defs error_codes_def text_inv_def Let_def
  have e: "c \<noteq> H_EOF" if "uri_pchar c \<or> uri_uric c \<or> uri_hex c" using that uri_eof by auto
  show "s_st x = h_path \<Longrightarrow> case_ok c x (sw_path c x)"
    using t e unfolding sw_path_def
    by (split if_split, intro conjI impI putc_or_post) (auto simp: defs intro!: putc_or_post)
  show "s_st x = h_query \<Longrightarrow> case_ok c x (sw_query c x)"
    using t e unfolding sw_query_def
    by (split if_split, intro conjI impI putc_or_post) (auto simp: defs intro!: putc_or_post)
  show "s_st x = h_escaped_2 \<Longrightarrow> case_ok c x (sw_escaped_2 c x)"
    using t e assms unfolding sw_escaped_2_def Let_def
    by (split if_split, intro conjI impI putc_or_post) (auto simp: defs)
  show "s_st x = h_value \<Longrightarrow> case_ok c x (sw_value c x)"
    using t unfolding sw_value_def Let_def
    by (split if_split, intro conjI impI putc_or_post) (auto simp: defs intro!: putc_or_post)
qed


lemma method_codes: "r \<in> snd ` set method_dict \<Longrightarrow> \<exists>h. method_of_code r = Some h"
  by (auto simp: method_dict_def method_of_code_def http_methods_def method_code_def)

lemma method_case:
  assumes "http_inv x" "s_st x = h_method" "c = char_int ch"
  shows "case_ok c x (sw_method c x)"
  unfolding sw_method_def
proof (rule method_trie.walk_post)
  have m: "method_of_code (-1) = None" "method_of_code 0 = None" by code_simp+
  fix r ts
  assume v: "method_trie.valid ts" "r = -1 \<or> r = 0 \<and> ts_poff ts \<noteq> 0 \<and> (if c = SP then 0 else c) \<noteq> -1
    \<or> 0 < r \<and> (if c = SP then 0 else c) = 0 \<and> r \<in> snd ` set method_dict"
  show "case_ok c x (case method_of_code r of
           Some h \<Rightarrow> Break (mark (shift h_method_sp (x\<lparr>c_tstate := ts, c_rq := (c_rq (x\<lparr>c_tstate := ts\<rparr>))\<lparr>rq_request_method := h\<rparr>\<rparr>)))
         | None \<Rightarrow>
             if r = -1 then reset h_error_bad_request c (x\<lparr>c_tstate := ts\<rparr>)
             else if r = 0 then Break (mark (x\<lparr>c_tstate := ts\<rparr>))
             else reset h_error_internal_server_error c (x\<lparr>c_tstate := ts\<rparr>))"
  proof -
    from v(2) consider "r = -1" | "r = 0" "c \<noteq> -1"
      | h where "method_of_code r = Some h" "c \<noteq> -1"
      using method_codes [of r] by (cases "c = SP"; cases "r \<le> 0") auto
    then show ?thesis
      by cases (use assms m v(1) in \<open>auto simp: outcome_defs inv_defs text_inv_def\<close>)
  qed
qed (use assms no_eof_tables in \<open>auto simp: inv_defs\<close>)

lemma prot_case:
  assumes "http_inv x" "s_st x = h_prot" "c = char_int ch"
  shows "case_ok c x (sw_prot c x)"
  unfolding sw_prot_def
proof (rule protocol_trie.walk_post)
  fix r ts
  assume v: "protocol_trie.valid ts" "r = -1 \<or> r = 0 \<and> ts_poff ts \<noteq> 0 \<and> (if c = 47 then 0 else c) \<noteq> -1
    \<or> 0 < r \<and> (if c = 47 then 0 else c) = 0 \<and> r \<in> snd ` set protocol_dict"
  then show "case_ok c x (if r = http_proto then Break (mark (shift h_prot_slash (x\<lparr>c_tstate := ts\<rparr>)))
         else if r = -1 then Return 505 (x\<lparr>c_tstate := ts\<rparr>)
         else if r = 0 then Break (mark (x\<lparr>c_tstate := ts\<rparr>))
         else reset h_error_internal_server_error c (x\<lparr>c_tstate := ts\<rparr>))"
    using assms
    by (auto simp: outcome_defs inv_defs text_inv_def protocol_dict_def http_proto_def error_codes_def
        split: if_splits)
qed (use assms no_eof_tables in \<open>auto simp: inv_defs\<close>)


lemma mark_inv: "http_inv (mark x) = http_inv x"
  by (cases "s_st x") (simp_all add: mark_def http_inv_def trie_inv_def text_inv_def collecting_def)

lemma header_found_case:
  assumes "http_inv x0" "s_st x0 = h_header" "text_inv x" "s_est x \<in> est_states"
    "ts_poff (c_tstate x) = 0" "stays x0 x"
    and k: "\<And>x'. http_inv x' \<Longrightarrow> stays x0 x' \<Longrightarrow> s_st x' \<notin> {h_nl, h_head_flag} \<Longrightarrow> case_ok c x0 (k x')"
  shows "case_ok c x0 (sw_header_found r x k)"
proof -
  note defs = inv_defs text_inv_def stays_def shift_def
  have final: "case_ok c x0 (k (shift h_value_lead (x\<lparr>s_est := e\<rparr>)))"
      "case_ok c x0 (k (shift h_value_lead (x\<lparr>s_est := e, s_esc := 0\<rparr>)))" if "e \<in> est_states" for e
    using that assms by (auto intro!: k simp: defs)
  have skip: "case_ok c x0 (k (shift h_skipline (x\<lparr>s_flags := f, s_est := h_skipline\<rparr>)))" for f
    using assms by (intro k) (auto simp: defs)
  have coll: "case_ok c x0 (k (shift h_value_lead (x\<lparr>c_text := t, s_flags := f, s_est := h_value\<rparr>)))"
    if "text_inv (x\<lparr>c_text := t\<rparr>)" for t f
    using that assms by (intro k) (auto simp: defs)
  have err: "return_ok 413 x0 (x\<lparr>c_text := t\<rparr>)" if "text_inv (x\<lparr>c_text := t\<rparr>)" for t
    using that assms(6) by (simp add: return_ok_def error_codes_def stays_def)
  have put: "case_ok c x0 (puti_or 413 r x (\<lambda>x. puti_or 413 (sint (ti_text (c_text x))) x (\<lambda>x.
      k (shift h_value_lead (x\<lparr>s_flags := s_flags x OR hrf_collect_header, s_est := h_value\<rparr>)))))"
  proof (rule puti_or_post [OF assms(3)])
    fix t
    assume t: "text_inv (x\<lparr>c_text := t\<rparr>)"
    show "case_ok c x0 (puti_or 413 (sint (ti_text (c_text (x\<lparr>c_text := t\<rparr>)))) (x\<lparr>c_text := t\<rparr>) (\<lambda>x.
      k (shift h_value_lead (x\<lparr>s_flags := s_flags x OR hrf_collect_header, s_est := h_value\<rparr>))))"
      by (rule puti_or_post [OF t]) (use coll err in simp_all)
  qed (rule err)
  have e: "h_head_connection \<in> est_states" "h_head_content_length \<in> est_states"
    "h_head_expect \<in> est_states" "h_head_transfer_encoding \<in> est_states"
    by (simp_all add: est_states_def flag_states_def)
  show ?thesis
    unfolding sw_header_found_def
    by (intro ctrl_post_if final skip put e)
qed

lemma header_case:
  assumes "http_inv x" "s_st x = h_header" "c = char_int ch"
  shows "case_ok c x (sw_header c x)"
  unfolding sw_header_def Let_def
proof (rule header_trie.walk_post)
  let ?k = "\<lambda>x. Break (if s_hmask x AND 1 = 0 then mark x else x)"
  fix r ts
  assume v: "header_trie.valid ts" "r = -1 \<or> r = 0 \<and> ts_poff ts \<noteq> 0 \<and> (if lower c = 58 then 0 else lower c) \<noteq> -1
    \<or> 0 < r \<and> (if lower c = 58 then 0 else lower c) = 0 \<and> r \<in> snd ` set header_dict"
  have ne: "c \<noteq> H_EOF" if "0 \<le> r" using v(2) that by (auto simp: lower_def split: if_splits)
  have fin: "case_ok c x (?k x')" if "http_inv x'" "stays x x'" "s_st x' \<notin> {h_nl, h_head_flag}" "c \<noteq> H_EOF" for x'
    using that mark_inv [of x'] by (auto simp: break_ok_def stays_def mark_def)
  show "case_ok c x (if r < 0 then reset h_skipline (lower c) (x\<lparr>c_tstate := ts\<rparr>)
      else if 0 < r then sw_header_found r (fresh_trie (x\<lparr>c_tstate := ts\<rparr>)) ?k
      else ?k (x\<lparr>c_tstate := ts\<rparr>))"
  proof (intro ctrl_post_if)
    show "case_ok c x (reset h_skipline (lower c) (x\<lparr>c_tstate := ts\<rparr>))"
      using assms by (auto simp: outcome_defs inv_defs text_inv_def)
    show "case_ok c x (sw_header_found r (fresh_trie (x\<lparr>c_tstate := ts\<rparr>)) ?k)" if "0 < r"
      using assms that ne
      by (intro header_found_case fin) (auto simp: http_inv_def fresh_trie_def text_inv_def stays_def)
    show "case_ok c x (?k (x\<lparr>c_tstate := ts\<rparr>))" if "\<not> r < 0"
      using assms that v(1) ne by (intro fin) (auto simp: inv_defs text_inv_def stays_def)
  qed
qed (use assms no_eof_tables lower_char_int in \<open>auto simp: inv_defs\<close>)


lemma flag_walk:
  assumes "s_st x = h_head_flag" "http_inv x"
    and "c = 0 \<or> c = d \<and> (\<exists>ch. d = char_int ch)"
    and k: "\<And>r ts. flag_valid (s_est x) ts \<Longrightarrow> r = -1 \<or> r = 0 \<and> ts_poff ts \<noteq> 0 \<and> c \<noteq> -1 \<or> 0 < r \<and> c = 0
      \<Longrightarrow> ctrl_post P Q R (k r (x\<lparr>c_tstate := ts\<rparr>))"
  shows "ctrl_post P Q R (walk c (utility_trie_map d) utility (c_flag x) x k)"
proof -
  have x: "s_est x \<in> flag_states" "flag_valid (s_est x) (c_tstate x)"
    "c_flag x = Some (flag_root (s_est x)) \<or> ts_poff (c_tstate x) \<noteq> 0"
    using assms(1,2) by (auto simp: http_inv_def trie_inv_def)
  from x(1) consider "s_est x = h_head_connection" | "s_est x = h_head_expect"
    | "s_est x = h_head_transfer_encoding" by (auto simp: flag_states_def)
  then show ?thesis
  proof cases
    case 1
    then show ?thesis
      using x k no_eof_tables assms(3)
      by (intro connection_trie.walk_post) (auto simp: flag_valid_def flag_root_def)
  next
    case 2
    then show ?thesis
      using x k no_eof_tables assms(3)
      by (intro expect_trie.walk_post) (auto simp: flag_valid_def flag_root_def)
  next
    case 3
    then show ?thesis
      using x k no_eof_tables assms(3)
      by (intro transfer_trie.walk_post) (auto simp: flag_valid_def flag_root_def)
  qed
qed

lemma flag_case:
  assumes "http_inv x" "s_st x = h_head_flag" "c = char_int ch"
  shows "case_ok c x (sw_head_flag c x)"
  unfolding sw_head_flag_def Let_def
proof (rule flag_walk [OF assms(2,1)])
  fix r :: int and ts
  assume v: "flag_valid (s_est x) ts" "r = -1 \<or> r = 0 \<and> ts_poff ts \<noteq> 0
      \<and> (if lower c = CR \<or> lower c = LF then 0 else lower c) \<noteq> -1
    \<or> 0 < r \<and> (if lower c = CR \<or> lower c = LF then 0 else lower c) = 0"
  have inv: "http_inv (x\<lparr>c_tstate := ts\<rparr>)" if "ts_poff ts \<noteq> 0"
    using assms v(1) that by (auto simp: http_inv_def trie_inv_def text_inv_def)
  show "case_ok c x (if r < 0 then reset h_skipline (lower c) (x\<lparr>c_tstate := ts\<rparr>)
     else if 0 < r then reset h_skipline (lower c)
         (mark (x\<lparr>c_tstate := ts, c_rq := (c_rq (x\<lparr>c_tstate := ts\<rparr>))\<lparr>rq_flags :=
            rq_flags (c_rq (x\<lparr>c_tstate := ts\<rparr>)) OR word_of_int r\<rparr>\<rparr>))
     else Break (x\<lparr>c_tstate := ts\<rparr>))"
  proof (intro ctrl_post_if)
    assume "\<not> r < 0" "\<not> 0 < r"
    then show "case_ok c x (Break (x\<lparr>c_tstate := ts\<rparr>))"
      using inv v(2) assms(2) by (auto simp: break_ok_def stays_def lower_def)
  qed (use assms in \<open>auto simp: outcome_defs inv_defs text_inv_def\<close>)
qed (use assms lower_char_int in auto)

text \<open>The whole switch.\<close>

lemma http_switch_ok:
  assumes "http_inv x" "c = char_int ch" "\<not> stale_fold c x"
  shows "case_ok c x (http_switch c x)"
proof -
  note cases_ok = simple_cases nl_case value_lead_case cont_case text_cases method_case prot_case
    header_case flag_case
  show ?thesis
  proof (cases "s_st x")
    case h_nl
    then show ?thesis using nl_case [OF assms(1) _ assms(3)] by (simp add: http_switch_def)
  next
    case h_error_bad_request
    then show ?thesis
      using assms(1) by (simp add: http_switch_def return_ok_def error_codes_def http_inv_def stays_def)
  qed (use assms(1) in \<open>simp_all add: http_switch_def cases_ok [OF assms(1)] assms(2,3) http_inv_def
      dead_states_def\<close>)
qed

end
