(* ===== verification/Http_Scan.thy ===== *)
theory Http_Scan
  imports Http_Safe
begin

text \<open>
  The loop of the request parser as a fold over the bytes it reads: \<open>http_char\<close> is one
  character with all its jumps to \<open>top\<close>, \<open>http_scan\<close> a list of characters.  The loop \<open>http_go\<close>
  on a ring buffer is the scan of the unread bytes of the buffer (\<open>http_go_scan\<close>), so it comes to
  an end, and what the parser returns does not depend on how the bytes are divided over calls
  (\<open>http_read_resume\<close>).
\<close>

section \<open>One character\<close>

fun dispatch :: "nat \<Rightarrow> int \<Rightarrow> http_ctx \<Rightarrow> ctrl" where
  "dispatch 0 c x = Fault"
| "dispatch (Suc n) c x = (case http_switch c x of Again c' x' \<Rightarrow> dispatch n c' x' | z \<Rightarrow> z)"

text \<open>Five looks are enough: ranks are at most 4.\<close>

definition http_char :: "int \<Rightarrow> http_ctx \<Rightarrow> ctrl" where
  "http_char c x = dispatch 5 c x"

lemma rank_bound: "rank st < 5"
  by (cases st) (simp_all add: rank_def)

abbreviation char_ok :: "int \<Rightarrow> http_ctx \<Rightarrow> ctrl \<Rightarrow> bool" where
  "char_ok c x \<equiv> ctrl_post (break_ok c x) (\<lambda>_ _. False) (\<lambda>k. return_ok k x)"

lemma lower_LF: "lower c = LF \<longleftrightarrow> c = LF"
  by (auto simp: lower_def)

lemma lower_idem: "lower (lower c) = lower c"
  by (auto simp: lower_def)

lemma stays_trans: "stays x y \<Longrightarrow> stays y z \<Longrightarrow> stays x z"
  by (auto simp: stays_def)

lemma dispatch_ok:
  "http_inv x \<Longrightarrow> c = char_int ch \<Longrightarrow> \<not> stale_fold c x \<Longrightarrow> rank (s_st x) < n
   \<Longrightarrow> char_ok c x (dispatch n c x)"
proof (induction n arbitrary: c ch x)
  case (Suc n)
  have ok: "case_ok c x (http_switch c x)" by (rule http_switch_ok) (use Suc.prems in auto)
  show ?case
  proof (cases "http_switch c x")
    case (Again c' y)
    then have y: "again_ok c x c' y" using ok by simp
    then have "char_ok c' y (dispatch n c' y)"
      using Suc.IH [of y c' ch] Suc.IH [of y c' "char_lower ch"] Suc.prems
      by (auto simp: again_ok_def stale_fold_def lower_char_int)
    then show ?thesis
      using Again y stays_trans lower_LF [of c] lower_eof(1) [of c]
      by (cases "dispatch n c' y") (auto simp: again_ok_def break_ok_def return_ok_def)
  qed (use ok in simp_all)
qed simp

lemma http_char_ok:
  assumes "http_inv x" "\<not> stale_fold (char_int ch) x"
  shows "char_ok (char_int ch) x (http_char (char_int ch) x)"
  using dispatch_ok [OF assms(1) _ assms(2)] rank_bound unfolding http_char_def by blast

lemma http_eof_ok:
  assumes "http_inv x"
  shows "char_ok H_EOF x (http_char H_EOF x)"
proof -
  have e: "char_int (CHR 0xFF) = H_EOF" using char_int_eof by blast
  have "\<not> stale_fold H_EOF x" by (simp add: stale_fold_def)
  then show ?thesis using http_char_ok [of x "CHR 0xFF"] assms unfolding e by blast
qed

text \<open>The loop from \<open>top\<close> on: the jumps are those of \<open>http_char\<close>.\<close>

definition after_char :: "iobuf \<Rightarrow> ctrl \<Rightarrow> (nat \<times> http_ctx) c_loop" where
  "after_char io z = (case z of
       Break x \<Rightarrow> (let x' = x\<lparr>s_m := s_m x + 1\<rparr> in
         if 1 < s_nl x' then Some (Some (0, x')) else http_go io None x')
     | Return k x \<Rightarrow> Some (Some (k, x))
     | _ \<Rightarrow> Some None)"

lemma go_dispatch:
  "http_inv x \<Longrightarrow> c = char_int ch \<Longrightarrow> \<not> stale_fold c x \<Longrightarrow> rank (s_st x) < n
   \<Longrightarrow> http_go io (Some c) x = after_char io (dispatch n c x)"
proof (induction n arbitrary: c ch x)
  case (Suc n)
  have ok: "case_ok c x (http_switch c x)" by (rule http_switch_ok) (use Suc.prems in auto)
  show ?case
  proof (cases "http_switch c x")
    case (Again c' y)
    then have y: "again_ok c x c' y" using ok by simp
    then have "http_go io (Some c') y = after_char io (dispatch n c' y)"
      using Suc.IH [of y c' ch] Suc.IH [of y c' "char_lower ch"] Suc.prems
      by (auto simp: again_ok_def stale_fold_def lower_char_int)
    then show ?thesis using Again by (subst http_go.simps) simp
  qed (subst http_go.simps, simp add: after_char_def)+
qed simp

lemma go_char:
  "http_inv x \<Longrightarrow> \<not> stale_fold (char_int ch) x
   \<Longrightarrow> http_go io (Some (char_int ch)) x = after_char io (http_char (char_int ch) x)"
  using go_dispatch rank_bound unfolding http_char_def by blast


section \<open>A list of characters\<close>

text \<open>The scan wants more input, is done with a code, or has no result.\<close>

datatype verdict = Wants http_ctx | Done nat http_ctx | Crash

definition next_char :: "http_ctx \<Rightarrow> http_ctx" where
  "next_char x = x\<lparr>s_m := s_m x + 1\<rparr>"

fun http_scan :: "bool \<Rightarrow> bytes \<Rightarrow> http_ctx \<Rightarrow> verdict" where
  "http_scan eof [] x =
     (if \<not> eof then Wants x
      else (case http_char H_EOF x of
          Break y \<Rightarrow> if 1 < s_nl y then Done 0 (next_char y) else Crash
        | Return k y \<Rightarrow> Done k y
        | _ \<Rightarrow> Crash))"
| "http_scan eof (ch # cs) x =
     (case http_char (char_int ch) x of
        Break y \<Rightarrow> if 1 < s_nl y then Done 0 (next_char y) else http_scan eof cs (next_char y)
      | Return k y \<Rightarrow> Done k y
      | _ \<Rightarrow> Crash)"

text \<open>No line is folded behind a flag header while a header is collected.\<close>

fun fold_safe :: "bytes \<Rightarrow> http_ctx \<Rightarrow> bool" where
  "fold_safe [] x = True"
| "fold_safe (ch # cs) x = (\<not> stale_fold (char_int ch) x \<and>
     (case http_char (char_int ch) x of
        Break y \<Rightarrow> if 1 < s_nl y then True else fold_safe cs (next_char y)
      | _ \<Rightarrow> True))"

lemma next_char_sel [simp]:
  "s_m (next_char x) = s_m x + 1" "s_st (next_char x) = s_st x" "s_nl (next_char x) = s_nl x"
  "s_est (next_char x) = s_est x" "c_b (next_char x) = c_b x" "c_text (next_char x) = c_text x"
  "s_hmask (next_char x) = s_hmask x" "c_rq (next_char x) = c_rq x" "s_flags (next_char x) = s_flags x"
  by (simp_all add: next_char_def)

lemma next_char_inv [simp]: "http_inv (next_char x) = http_inv x"
  by (cases "s_st x") (simp_all add: next_char_def http_inv_def trie_inv_def text_inv_def collecting_def)

text \<open>Line folding as such: a space or tab at the start of a line.\<close>

fun unfolded :: "bool \<Rightarrow> bytes \<Rightarrow> bool" where
  "unfolded line_start [] = True"
| "unfolded line_start (ch # cs) =
     (\<not> (line_start \<and> (ch = CHR '' '' \<or> ch = CHR 0x09)) \<and> unfolded (ch = CHR 0x0A) cs)"

lemma char_int_blank: "char_int ch = SP \<longleftrightarrow> ch = CHR '' ''" "char_int ch = HT \<longleftrightarrow> ch = CHR 0x09"
  "char_int ch = LF \<longleftrightarrow> ch = CHR 0x0A" "char_int ch = CR \<longleftrightarrow> ch = CHR 0x0D"
proof -
  have "char_int (CHR '' '') = SP" "char_int (CHR 0x09) = HT" "char_int (CHR 0x0A) = LF"
    "char_int (CHR 0x0D) = CR" by code_simp+
  then show "char_int ch = SP \<longleftrightarrow> ch = CHR '' ''" "char_int ch = HT \<longleftrightarrow> ch = CHR 0x09"
    "char_int ch = LF \<longleftrightarrow> ch = CHR 0x0A" "char_int ch = CR \<longleftrightarrow> ch = CHR 0x0D"
    by (metis char_int_inject)+
qed

lemma unfolded_mono: "unfolded True cs \<Longrightarrow> unfolded b cs"
  by (cases cs) auto

lemma unfolded_fold_safe:
  "http_inv x \<Longrightarrow> unfolded (s_st x = h_nl) cs \<Longrightarrow> fold_safe cs x"
proof (induction cs arbitrary: x)
  case (Cons ch cs)
  then have st: "\<not> stale_fold (char_int ch) x"
    by (auto simp: stale_fold_def char_int_blank)
  have ok: "char_ok (char_int ch) x (http_char (char_int ch) x)"
    by (rule http_char_ok [OF Cons.prems(1) st])
  show ?case
  proof (cases "http_char (char_int ch) x")
    case (Break y)
    then have y: "http_inv y" "s_st y = h_nl \<longrightarrow> ch = CHR 0x0A"
      using ok char_int_blank by (auto simp: break_ok_def)
    then have "unfolded (s_st (next_char y) = h_nl) cs"
      using Cons.prems(2) unfolded_mono by (cases "ch = CHR 0x0A") auto
    then show ?thesis using Break st Cons.IH [of "next_char y"] y(1) by simp
  qed (use st in auto)
qed simp

lemma scan_append:
  "http_scan eof (xs @ ys) x = (case http_scan False xs x of Wants y \<Rightarrow> http_scan eof ys y | z \<Rightarrow> z)"
  by (induction xs arbitrary: x) (auto split: ctrl.split)

text \<open>What a scan ends in.\<close>

definition resumable :: "http_ctx \<Rightarrow> bool" where
  "resumable x \<longleftrightarrow> (s_st x = h_head_flag \<longrightarrow> ts_poff (c_tstate x) \<noteq> 0)"

definition verdict_ok :: "bool \<Rightarrow> http_ctx \<Rightarrow> nat \<Rightarrow> verdict \<Rightarrow> bool" where
  "verdict_ok eof x n v = (case v of
       Wants y \<Rightarrow> \<not> eof \<and> http_inv y \<and> (resumable x \<longrightarrow> resumable y) \<and> s_hmask y = s_hmask x \<and> s_m y = s_m x + of_nat n
         \<and> (c_b y = c_b x \<or> (\<exists>i < n. c_b y = s_m x + of_nat i))
     | Done k y \<Rightarrow> k \<in> insert 0 error_codes \<and> text_inv y \<and> (k = 0 \<longrightarrow> http_inv y \<and> 1 < s_nl y)
         \<and> (k = 0 \<longrightarrow> (\<exists>i \<le> (if eof then n + 1 else n). s_m y = s_m x + of_nat i))
     | Crash \<Rightarrow> False)"


lemma verdict_ok_step:
  assumes "stays x y" "resumable y" "verdict_ok eof (next_char y) n v"
  shows "verdict_ok eof x (Suc n) v"
proof (cases v)
  case (Wants z)
  have "resumable (next_char y)" using assms(2) by (simp add: resumable_def next_char_def)
  then have z: "\<not> eof" "http_inv z" "resumable z" "s_hmask z = s_hmask x" "s_m z = s_m x + of_nat (Suc n)"
    "c_b z = c_b y \<or> (\<exists>i < n. c_b z = s_m x + 1 + of_nat i)"
    using Wants assms by (auto simp: verdict_ok_def stays_def)
  have "\<exists>j < Suc n. c_b z = s_m x + of_nat j" if "i < n" "c_b z = s_m x + 1 + of_nat i" for i
    using that by (intro exI [of _ "Suc i"]) simp
  moreover have "\<exists>j < Suc n. c_b z = s_m x + of_nat j" if "c_b z = s_m x"
    using that by (intro exI [of _ 0]) simp
  ultimately show ?thesis
    using Wants z assms(1) by (auto simp: verdict_ok_def stays_def)
next
  case (Done k z)
  then have z: "k \<in> insert 0 error_codes" "text_inv z" "k = 0 \<longrightarrow> http_inv z \<and> 1 < s_nl z"
    "k = 0 \<longrightarrow> (\<exists>i \<le> (if eof then n + 1 else n). s_m z = s_m x + 1 + of_nat i)"
    using assms by (auto simp: verdict_ok_def stays_def)
  have "\<exists>j \<le> (if eof then Suc n + 1 else Suc n). s_m z = s_m x + of_nat j"
    if "i \<le> (if eof then n + 1 else n)" "s_m z = s_m x + 1 + of_nat i" for i
    using that by (intro exI [of _ "Suc i"]) auto
  then show ?thesis using Done z unfolding verdict_ok_def by auto
qed (use assms(3) in \<open>simp add: verdict_ok_def\<close>)

lemma break_done:
  assumes "break_ok c x y" "1 < s_nl y"
  shows "verdict_ok eof x (Suc n) (Done 0 (next_char y))" "eof \<Longrightarrow> verdict_ok eof x n (Done 0 (next_char y))"
proof -
  have y: "http_inv (next_char y)" "s_m (next_char y) = s_m x + of_nat 1"
    using assms(1) by (simp_all add: break_ok_def stays_def)
  then have t: "text_inv (next_char y)" by (simp only: http_inv_def)
  show "verdict_ok eof x (Suc n) (Done 0 (next_char y))" "eof \<Longrightarrow> verdict_ok eof x n (Done 0 (next_char y))"
    using y t assms(2) unfolding verdict_ok_def
    by (auto intro!: exI [of _ "1 :: nat"])
qed

lemma return_done: "return_ok k x y \<Longrightarrow> verdict_ok eof x n (Done k y)"
  by (auto simp: return_ok_def verdict_ok_def error_codes_def)

lemma scan_ok:
  "http_inv x \<Longrightarrow> fold_safe cs x \<Longrightarrow> verdict_ok eof x (length cs) (http_scan eof cs x)"
proof (induction cs arbitrary: x)
  case Nil
  then have ok: "char_ok H_EOF x (http_char H_EOF x)" by (intro http_eof_ok)
  show ?case
  proof (cases eof)
    case True
    then show ?thesis
      using ok break_done [of H_EOF x] return_done [of _ x]
      by (cases "http_char H_EOF x") (auto simp: break_ok_def)
  next
    case False
    then show ?thesis using Nil by (simp add: verdict_ok_def)
  qed
next
  case (Cons ch cs)
  then have ok: "char_ok (char_int ch) x (http_char (char_int ch) x)" by (intro http_char_ok) auto
  show ?case
  proof (cases "http_char (char_int ch) x")
    case (Break y)
    then have y: "break_ok (char_int ch) x y" using ok by simp
    then have "stays x y" "resumable y" "http_inv (next_char y)"
      by (auto simp: break_ok_def resumable_def)
    moreover have "1 < s_nl y \<or> fold_safe cs (next_char y)"
      using Cons.prems(2) Break by (simp split: if_splits)
    ultimately show ?thesis
      using y Break Cons.IH [of "next_char y"] verdict_ok_step [of x y]
        break_done(1) [of "char_int ch" x y eof "length cs"] by auto
  next
    case (Return k y)
    then show ?thesis using ok return_done [of k x y eof "Suc (length cs)"] by simp
  qed (use ok in simp_all)
qed

section \<open>The loop over the ring buffer\<close>

definition scan_result :: "verdict \<Rightarrow> (nat \<times> http_ctx) c_loop" where
  "scan_result v = (case v of Wants x \<Rightarrow> Some (Some (EAGAIN, x)) | Done k x \<Rightarrow> Some (Some (k, x))
     | Crash \<Rightarrow> Some None)"

definition at_eof :: "iobuf \<Rightarrow> bool" where
  "at_eof io \<longleftrightarrow> io_flags io AND IOBUF_EOF \<noteq> 0"

lemma iobuf_head:
  assumes "iobuf_ok io" "drop n (iobuf_bytes io) = ch # cs" "m = io_read io + of_nat n"
  shows "mem_read (io_data io) (unat (m AND io_mask io)) = Some ch" "m \<noteq> io_write io"
    "drop (Suc n) (iobuf_bytes io) = cs"
proof -
  have n: "n < unat (minute_iobuf_used io)"
    using assms(2) by (metis length_iobuf_bytes drop_all list.distinct(1) not_le)
  then have un: "unat (of_nat n :: unsigned) = n"
    using unat_of_nat_le [of n "minute_iobuf_used io"] by simp
  have "unat (m AND io_mask io) = (unat (io_read io) + n) mod iobuf_size io"
    unfolding assms(3) ring_index [OF assms(1)] counter_add [OF assms(1)] un ..
  moreover have "ch = io_data io ! ((unat (io_read io) + n) mod length (io_data io))"
    using assms(2) n nth_via_drop [OF assms(2)] by (simp add: iobuf_bytes_def ring_slice_def)
  moreover have "(unat (io_read io) + n) mod iobuf_size io < iobuf_size io"
    using iobuf_ok_size [OF assms(1)] by simp
  ultimately show "mem_read (io_data io) (unat (m AND io_mask io)) = Some ch"
    using iobuf_ok_length [OF assms(1)] by (simp add: mem_read_def)
  show "m \<noteq> io_write io"
  proof
    assume "m = io_write io"
    then have "minute_iobuf_used io = io_read io + of_nat n - io_read io"
      unfolding minute_iobuf_used_def assms(3) by simp
    then show False using n un by simp
  qed
  show "drop (Suc n) (iobuf_bytes io) = cs"
    using assms(2) by (metis drop_Suc drop_tl list.sel(3))
qed

lemma iobuf_end:
  assumes "drop n (iobuf_bytes io) = []" "n \<le> unat (minute_iobuf_used io)"
  shows "io_read io + of_nat n = io_write io"
proof -
  have "n = unat (minute_iobuf_used io)" using assms length_iobuf_bytes [of io] by simp
  then show ?thesis by (simp add: minute_iobuf_used_def)
qed

text \<open>The bytes that the loop meets on its way from the position \<open>m\<close> to the write counter.\<close>

fun meets :: "iobuf \<Rightarrow> unsigned \<Rightarrow> bytes \<Rightarrow> bool" where
  "meets io m [] \<longleftrightarrow> m = io_write io"
| "meets io m (ch # cs) \<longleftrightarrow> m \<noteq> io_write io \<and> mem_read (io_data io) (unat (m AND io_mask io)) = Some ch
     \<and> meets io (m + 1) cs"

lemma ring_meets:
  assumes "iobuf_ok io"
  shows "n \<le> unat (minute_iobuf_used io) \<Longrightarrow> drop n (iobuf_bytes io) = cs \<Longrightarrow> meets io (io_read io + of_nat n) cs"
proof (induction cs arbitrary: n)
  case Nil
  then show ?case using iobuf_end [of n io] by simp
next
  case (Cons ch cs)
  note h = iobuf_head [OF assms Cons.prems(2) refl]
  have "Suc n \<le> unat (minute_iobuf_used io)"
    using Cons.prems(2) length_iobuf_bytes [of io] by (metis drop_all list.distinct(1) not_less_eq_eq)
  then have "meets io (io_read io + of_nat (Suc n)) cs" using Cons.IH h(3) by blast
  then show ?case using h(1,2) by (simp add: add.assoc add.commute [of 1])
qed

lemma http_go_meets:
  "http_inv x \<Longrightarrow> fold_safe cs x \<Longrightarrow> meets io (s_m x) cs \<Longrightarrow> http_go io None x = scan_result (http_scan (at_eof io) cs x)"
proof (induction cs arbitrary: x)
  case Nil
  then have w: "s_m x = io_write io" by simp
  show ?case
  proof (cases "at_eof io")
    case False
    then show ?thesis using w by (subst http_go.simps) (simp add: at_eof_def scan_result_def)
  next
    case True
    have e: "char_int (CHR 0xFF) = H_EOF" using char_int_eof by blast
    have ok: "char_ok H_EOF x (http_char H_EOF x)" by (rule http_eof_ok [OF Nil.prems(1)])
    have "http_go io None x = http_go io (Some H_EOF) x"
      using w True by (subst http_go.simps) (simp add: at_eof_def)
    also have "\<dots> = after_char io (http_char H_EOF x)"
      using go_char [of x "CHR 0xFF" io] Nil.prems(1) unfolding e by (simp add: stale_fold_def)
    also have "\<dots> = scan_result (http_scan True [] x)"
      using ok by (cases "http_char H_EOF x") (auto simp: after_char_def scan_result_def break_ok_def
          next_char_def Let_def)
    finally show ?thesis using True by simp
  qed
next
  case (Cons ch cs)
  have h: "s_m x \<noteq> io_write io" "mem_read (io_data io) (unat (s_m x AND io_mask io)) = Some ch" "meets io (s_m x + 1) cs"
    using Cons.prems(3) by simp_all
  have ok: "char_ok (char_int ch) x (http_char (char_int ch) x)"
    using Cons.prems by (intro http_char_ok) auto
  have "http_go io None x = http_go io (Some (char_int ch)) x"
    using h(1,2) by (subst http_go.simps) simp
  also have "\<dots> = after_char io (http_char (char_int ch) x)"
    using Cons.prems(1,2) by (intro go_char) auto
  also have "\<dots> = scan_result (http_scan (at_eof io) (ch # cs) x)"
  proof (cases "http_char (char_int ch) x")
    case (Break y)
    then have y: "http_inv y" "s_m y = s_m x" using ok by (auto simp: break_ok_def stays_def)
    show ?thesis
    proof (cases "1 < s_nl y")
      case True
      then show ?thesis using Break by (simp add: after_char_def scan_result_def next_char_def)
    next
      case False
      then have "http_go io None (next_char y) = scan_result (http_scan (at_eof io) cs (next_char y))"
        using Cons.IH [of "next_char y"] y h(3) Cons.prems(2) Break by simp
      then show ?thesis
        using Break False by (simp add: after_char_def next_char_def)
    qed
  qed (use ok in \<open>simp_all add: after_char_def scan_result_def\<close>)
  finally show ?case .
qed

lemma http_go_scan:
  assumes "iobuf_ok io" "http_inv x" "fold_safe cs x" "n \<le> unat (minute_iobuf_used io)"
    and "s_m x = io_read io + of_nat n" "drop n (iobuf_bytes io) = cs"
  shows "http_go io None x = scan_result (http_scan (at_eof io) cs x)"
  by (rule http_go_meets [OF assms(2,3)]) (use ring_meets [OF assms(1,4,6)] assms(5) in simp)

end
