(* ===== verification/Http_Resume.thy ===== *)
theory Http_Resume
  imports Http_Scan
begin

text \<open>
  Reading a request in pieces.  Between two calls the parser forgets which trie a flag header
  walks (\<open>patinitial_flag\<close> is a local) and saves the state of the walk; neither is looked at
  again before it is set, so the second call goes on as if there had been only one.
\<close>

section \<open>What a later call does not depend on\<close>

definition upd :: "patricia option \<Rightarrow> triestate \<Rightarrow> http_ctx \<Rightarrow> http_ctx" where
  "upd f t x = x\<lparr>c_flag := f, s_tries := t\<rparr>"

definition ctrl_map :: "(http_ctx \<Rightarrow> http_ctx) \<Rightarrow> ctrl \<Rightarrow> ctrl" where
  "ctrl_map u z = (case z of Break x \<Rightarrow> Break (u x) | Again c x \<Rightarrow> Again c (u x)
     | Return k x \<Rightarrow> Return k (u x) | Fault \<Rightarrow> Fault)"

lemma ctrl_map_simps [simp]:
  "ctrl_map u (Break x) = Break (u x)" "ctrl_map u (Again c x) = Again c (u x)"
  "ctrl_map u (Return k x) = Return k (u x)" "ctrl_map u Fault = Fault"
  by (simp_all add: ctrl_map_def)

lemma upd_sel [simp]:
  "s_flags (upd f t x) = s_flags x" "s_httpv0 (upd f t x) = s_httpv0 x" "s_httpv1 (upd f t x) = s_httpv1 x"
  "s_m (upd f t x) = s_m x" "s_esc (upd f t x) = s_esc x" "s_st (upd f t x) = s_st x"
  "s_est (upd f t x) = s_est x" "s_nl (upd f t x) = s_nl x" "s_hmask (upd f t x) = s_hmask x"
  "c_b (upd f t x) = c_b x" "c_tstate (upd f t x) = c_tstate x" "c_rq (upd f t x) = c_rq x"
  "c_text (upd f t x) = c_text x" "c_flag (upd f t x) = f" "s_tries (upd f t x) = t"
  by (simp_all add: upd_def)

lemma upd_upd:
  "(upd f t x)\<lparr>s_flags := a1\<rparr> = upd f t (x\<lparr>s_flags := a1\<rparr>)"
  "(upd f t x)\<lparr>s_httpv0 := a2\<rparr> = upd f t (x\<lparr>s_httpv0 := a2\<rparr>)"
  "(upd f t x)\<lparr>s_httpv1 := a2\<rparr> = upd f t (x\<lparr>s_httpv1 := a2\<rparr>)"
  "(upd f t x)\<lparr>s_m := a2\<rparr> = upd f t (x\<lparr>s_m := a2\<rparr>)"
  "(upd f t x)\<lparr>s_esc := a2\<rparr> = upd f t (x\<lparr>s_esc := a2\<rparr>)"
  "(upd f t x)\<lparr>s_st := a3\<rparr> = upd f t (x\<lparr>s_st := a3\<rparr>)"
  "(upd f t x)\<lparr>s_est := a3\<rparr> = upd f t (x\<lparr>s_est := a3\<rparr>)"
  "(upd f t x)\<lparr>s_nl := a4\<rparr> = upd f t (x\<lparr>s_nl := a4\<rparr>)"
  "(upd f t x)\<lparr>c_b := a2\<rparr> = upd f t (x\<lparr>c_b := a2\<rparr>)"
  "(upd f t x)\<lparr>c_tstate := a5\<rparr> = upd f t (x\<lparr>c_tstate := a5\<rparr>)"
  "(upd f t x)\<lparr>c_rq := a6\<rparr> = upd f t (x\<lparr>c_rq := a6\<rparr>)"
  "(upd f t x)\<lparr>c_text := a7\<rparr> = upd f t (x\<lparr>c_text := a7\<rparr>)"
  "(upd f t x)\<lparr>c_flag := a8\<rparr> = upd a8 t x"
  by (simp_all add: upd_def)

lemma putc_or_upd:
  "(\<And>x. k (upd f t x) = ctrl_map (upd f t) (k x))
   \<Longrightarrow> putc_or code c (upd f t x) k = ctrl_map (upd f t) (putc_or code c x k)"
  by (auto simp: putc_or_def upd_upd split: option.split)

lemma puti_or_upd:
  "(\<And>x. k (upd f t x) = ctrl_map (upd f t) (k x))
   \<Longrightarrow> puti_or code i (upd f t x) k = ctrl_map (upd f t) (puti_or code i x k)"
  by (auto simp: puti_or_def upd_upd split: option.split)

lemma walk_upd:
  "(\<And>r x. k r (upd f t x) = ctrl_map (upd f t) (k r x))
   \<Longrightarrow> walk c d tree ini (upd f t x) k = ctrl_map (upd f t) (walk c d tree ini x k)"
  by (auto simp: walk_def upd_upd split: option.split)

lemma walk_upd_inside:
  "(\<And>r x. k r (upd f t x) = ctrl_map (upd f t) (k r x)) \<Longrightarrow> ts_poff (c_tstate x) \<noteq> 0
   \<Longrightarrow> walk c d tree f (upd f t x) k = ctrl_map (upd f t) (walk c d tree (c_flag x) x k)"
  using walk_trie_initial [of "c_tstate x" c d tree f "c_flag x"]
  by (auto simp: walk_def upd_upd split: option.split)

lemmas upd_simps = upd_upd shift_def reset_def mark_def fresh_trie_def

lemma header_found_upd:
  "(\<And>x. k (upd f t x) = ctrl_map (upd f t) (k x))
   \<Longrightarrow> sw_header_found r (upd f t x) k = ctrl_map (upd f t) (sw_header_found r x k)"
  by (simp add: sw_header_found_def upd_simps puti_or_upd)

lemma switch_upd:
  assumes "s_st x \<notin> flag_states" "s_st x = h_head_flag \<Longrightarrow> ts_poff (c_tstate x) \<noteq> 0 \<or> f = c_flag x"
  shows "http_switch c (upd f t x) = ctrl_map (upd f t) (http_switch c x)"
proof (cases "s_st x")
  case h_header
  have "sw_header c (upd f t x) = ctrl_map (upd f t) (sw_header c x)"
    unfolding sw_header_def Let_def
    by (rule walk_upd) (simp add: upd_simps header_found_upd)
  then show ?thesis using h_header by (simp add: http_switch_def)
next
  case h_head_flag
  have "sw_head_flag c (upd f t x) = ctrl_map (upd f t) (sw_head_flag c x)"
  proof (cases "ts_poff (c_tstate x) = 0")
    case True
    then have f: "c_flag x = f" using assms(2) h_head_flag by simp
    show ?thesis
      unfolding sw_head_flag_def Let_def upd_sel f by (rule walk_upd) (simp add: upd_simps)
  next
    case False
    then show ?thesis
      unfolding sw_head_flag_def Let_def upd_sel
      by (intro walk_upd_inside) (simp_all add: upd_simps)
  qed
  then show ?thesis using h_head_flag by (simp add: http_switch_def)
next
  case h_method
  have "sw_method c (upd f t x) = ctrl_map (upd f t) (sw_method c x)"
    unfolding sw_method_def by (rule walk_upd) (simp add: upd_simps split: option.split)
  then show ?thesis using h_method by (simp add: http_switch_def)
next
  case h_prot
  have "sw_prot c (upd f t x) = ctrl_map (upd f t) (sw_prot c x)"
    unfolding sw_prot_def by (rule walk_upd) (simp add: upd_simps)
  then show ?thesis using h_prot by (simp add: http_switch_def)
next
  case h_cont
  then show ?thesis
    by (simp add: http_switch_def sw_cont_def upd_simps split: option.split)
qed (use assms(1) in \<open>simp_all add: http_switch_def upd_simps putc_or_upd Let_def flag_states_def
      sw_initial_def sw_method_sp_def sw_path_def sw_escaped_1_def sw_escaped_2_def sw_query_def
      sw_path_sp_def sw_prot_slash_def sw_prot_http_x_def sw_prot_http_x_dot_def sw_prot_http_x_x_def
      sw_cr_def sw_nl_def sw_head_content_length_def sw_value_lead_def sw_value_def sw_skipline_def\<close>)

lemma switch_upd_flag:
  "s_st x \<in> flag_states
   \<Longrightarrow> \<exists>g. http_switch c (upd f t x) = ctrl_map (upd g t) (http_switch c x)
     \<and> (\<forall>c' x'. http_switch c x = Again c' x' \<longrightarrow> c_flag x' = g)"
  by (auto simp: flag_states_def http_switch_def sw_head_connection_def sw_head_expect_def
      sw_head_transfer_encoding_def upd_simps)


lemma dispatch_upd:
  "http_inv x \<Longrightarrow> c = char_int ch \<Longrightarrow> \<not> stale_fold c x \<Longrightarrow> rank (s_st x) < n
   \<Longrightarrow> (s_st x = h_head_flag \<Longrightarrow> ts_poff (c_tstate x) \<noteq> 0 \<or> f = c_flag x)
   \<Longrightarrow> \<exists>g. dispatch n c (upd f t x) = ctrl_map (upd g t) (dispatch n c x)"
proof (induction n arbitrary: c ch x f)
  case (Suc n)
  have ok: "case_ok c x (http_switch c x)" by (rule http_switch_ok) (use Suc.prems in auto)
  obtain g where g: "http_switch c (upd f t x) = ctrl_map (upd g t) (http_switch c x)"
    "s_st x \<in> flag_states \<Longrightarrow> \<forall>c' x'. http_switch c x = Again c' x' \<longrightarrow> c_flag x' = g"
    using switch_upd [of x f c t] switch_upd_flag [of x c f t] Suc.prems(5) by blast
  show ?case
  proof (cases "http_switch c x")
    case (Again c' y)
    then have y: "again_ok c x c' y" using ok by simp
    then have "s_st y = h_head_flag \<Longrightarrow> g = c_flag y"
      using g(2) Again by (auto simp: again_ok_def)
    then have "\<exists>h. dispatch n c' (upd g t y) = ctrl_map (upd h t) (dispatch n c' y)"
      using Suc.IH [of y c' ch g] Suc.IH [of y c' "char_lower ch" g] Suc.prems y
      by (auto simp: again_ok_def stale_fold_def lower_char_int)
    then show ?thesis using Again g(1) by simp
  qed (use g(1) in auto)
qed simp

lemma http_char_upd:
  assumes "http_inv x" "\<not> stale_fold (char_int ch) x"
    "s_st x = h_head_flag \<Longrightarrow> ts_poff (c_tstate x) \<noteq> 0"
  shows "\<exists>g. http_char (char_int ch) (upd f t x) = ctrl_map (upd g t) (http_char (char_int ch) x)"
  using dispatch_upd [of x "char_int ch" ch 5 f t] assms rank_bound unfolding http_char_def by blast

fun same_verdict :: "triestate \<Rightarrow> verdict \<Rightarrow> verdict \<Rightarrow> bool" where
  "same_verdict t (Wants x) v = (\<exists>g. v = Wants (upd g t x))"
| "same_verdict t (Done k x) v = (\<exists>g. v = Done k (upd g t x))"
| "same_verdict t Crash v = (v = Crash)"

lemma next_char_upd: "next_char (upd g t x) = upd g t (next_char x)"
  by (simp add: next_char_def upd_upd)

lemma scan_upd:
  "http_inv x \<Longrightarrow> fold_safe cs x \<Longrightarrow> (s_st x = h_head_flag \<Longrightarrow> ts_poff (c_tstate x) \<noteq> 0)
   \<Longrightarrow> same_verdict t (http_scan eof cs x) (http_scan eof cs (upd f t x))"
proof (induction cs arbitrary: x f)
  case Nil
  have e: "char_int (CHR 0xFF) = H_EOF" using char_int_eof by blast
  have "\<exists>g. http_char H_EOF (upd f t x) = ctrl_map (upd g t) (http_char H_EOF x)"
    using http_char_upd [of x "CHR 0xFF" f t] Nil unfolding e by (simp add: stale_fold_def)
  then obtain g where g: "http_char H_EOF (upd f t x) = ctrl_map (upd g t) (http_char H_EOF x)" ..
  then show ?case
    by (cases "http_char H_EOF x") (auto simp: next_char_upd)
next
  case (Cons ch cs)
  then have st: "\<not> stale_fold (char_int ch) x" by simp
  obtain g where g: "http_char (char_int ch) (upd f t x) = ctrl_map (upd g t) (http_char (char_int ch) x)"
    using http_char_upd [OF Cons.prems(1) st Cons.prems(3)] by blast
  have ok: "char_ok (char_int ch) x (http_char (char_int ch) x)"
    by (rule http_char_ok [OF Cons.prems(1) st])
  show ?case
  proof (cases "http_char (char_int ch) x")
    case (Break y)
    show ?thesis
    proof (cases "1 < s_nl y")
      case False
      have y: "http_inv (next_char y)" "s_st (next_char y) = h_head_flag \<Longrightarrow> ts_poff (c_tstate (next_char y)) \<noteq> 0"
        using ok Break by (auto simp: break_ok_def next_char_def [of y] simp flip: next_char_inv [of y])
      have "fold_safe cs (next_char y)" using Cons.prems(2) Break False by simp
      then show ?thesis
        using Cons.IH [OF y(1) _ y(2), of g] Break False g by (simp add: next_char_upd)
    qed (use g Break in \<open>auto simp: next_char_upd\<close>)
  qed (use g in auto)
qed


section \<open>Calls of the parser\<close>

text \<open>The bytes a call still has to look at, and when a call may be made.\<close>

definition unread :: "minute_http_rqs \<Rightarrow> iobuf \<Rightarrow> bytes" where
  "unread s io = drop (unat (s_m s - io_read io)) (iobuf_bytes io)"

definition reader_ok :: "minute_http_rqs \<Rightarrow> iobuf \<Rightarrow> textint \<Rightarrow> bool" where
  "reader_ok s io t \<longleftrightarrow> iobuf_ok io \<and> unat (s_m s - io_read io) \<le> unat (minute_iobuf_used io)
     \<and> http_inv (http_enter zero_rq s io t)"

lemma http_enter_sel [simp]:
  "s_flags (http_enter rq s io t) = s_flags s" "s_httpv0 (http_enter rq s io t) = s_httpv0 s"
  "s_httpv1 (http_enter rq s io t) = s_httpv1 s" "s_tries (http_enter rq s io t) = s_tries s"
  "s_m (http_enter rq s io t) = s_m s" "s_esc (http_enter rq s io t) = s_esc s"
  "s_st (http_enter rq s io t) = s_st s" "s_est (http_enter rq s io t) = s_est s"
  "s_nl (http_enter rq s io t) = s_nl s" "s_hmask (http_enter rq s io t) = s_hmask s"
  "c_b (http_enter rq s io t) = io_read io" "c_tstate (http_enter rq s io t) = s_tries s"
  "c_flag (http_enter rq s io t) = None" "c_rq (http_enter rq s io t) = rq"
  "c_text (http_enter rq s io t) = t"
  by (simp_all add: http_enter_def minute_http_rqs.defs)

lemma http_inv_cong:
  assumes "s_st x = s_st y" "s_est x = s_est y" "s_flags x = s_flags y" "c_tstate x = c_tstate y"
    "c_text x = c_text y" "c_flag x = c_flag y \<or> resumable x"
  shows "http_inv y \<Longrightarrow> http_inv x"
  using assms
  by (cases "s_st y") (auto simp: http_inv_def trie_inv_def text_inv_def collecting_def resumable_def)

lemma http_inv_enter:
  assumes "http_inv (http_enter rq s io t)"
  shows "http_inv (http_enter rq' s io' t)" "resumable (http_enter rq' s io' t)"
proof -
  show r: "resumable (http_enter rq' s io' t)"
    using assms by (auto simp: resumable_def http_inv_def trie_inv_def)
  show "http_inv (http_enter rq' s io' t)"
    by (rule http_inv_cong [OF _ _ _ _ _ _ assms]) simp_all
qed

lemma reader_window:
  assumes "reader_ok s io t"
  shows "s_m s = io_read io + of_nat (unat (s_m s - io_read io))"
  by simp

text \<open>A call is a scan of the unread bytes.\<close>

lemma minute_http_read_scan:
  assumes "reader_ok s io t" "unfolded (s_st s = h_nl) (unread s io)"
  shows "minute_http_read rq s io t =
    (case http_scan (at_eof io) (unread s io) (http_enter rq s io t) of
       Wants x \<Rightarrow> Some (Some (http_leave s io EAGAIN x))
     | Done k x \<Rightarrow> Some (Some (http_leave s io k x))
     | Crash \<Rightarrow> Some None)"
    and "verdict_ok (at_eof io) (http_enter rq s io t) (length (unread s io))
      (http_scan (at_eof io) (unread s io) (http_enter rq s io t))"
proof -
  let ?x = "http_enter rq s io t"
  have ok: "iobuf_ok io" "unat (s_m s - io_read io) \<le> unat (minute_iobuf_used io)" "http_inv ?x"
    using assms(1) http_inv_enter by (auto simp: reader_ok_def)
  have safe: "fold_safe (unread s io) ?x"
    by (rule unfolded_fold_safe [OF ok(3)]) (use assms(2) in simp)
  have "http_go io None ?x = scan_result (http_scan (at_eof io) (unread s io) ?x)"
    by (rule http_go_scan [OF ok(1) ok(3) safe ok(2)]) (simp_all add: unread_def)
  then show "minute_http_read rq s io t =
    (case http_scan (at_eof io) (unread s io) ?x of
       Wants x \<Rightarrow> Some (Some (http_leave s io EAGAIN x))
     | Done k x \<Rightarrow> Some (Some (http_leave s io k x))
     | Crash \<Rightarrow> Some None)"
    by (simp add: minute_http_read_def scan_result_def split: verdict.split)
  show "verdict_ok (at_eof io) ?x (length (unread s io)) (http_scan (at_eof io) (unread s io) ?x)"
    by (rule scan_ok [OF ok(3) safe])
qed

lemma length_unread:
  "reader_ok s io t
   \<Longrightarrow> length (unread s io) = unat (minute_iobuf_used io) - unat (s_m s - io_read io)"
  by (simp add: unread_def length_iobuf_bytes)

lemma unread_end:
  assumes "reader_ok s io t"
  shows "s_m s + of_nat (length (unread s io)) = io_write io"
proof -
  let ?n = "unat (s_m s - io_read io)"
  have "?n \<le> unat (minute_iobuf_used io)" using assms by (simp add: reader_ok_def)
  then have "(of_nat (length (unread s io)) :: unsigned) = minute_iobuf_used io - (s_m s - io_read io)"
    by (simp add: length_unread [OF assms] of_nat_diff)
  then show ?thesis by (simp add: minute_iobuf_used_def)
qed


definition left_off :: "http_ctx \<Rightarrow> minute_http_rqs" where
  "left_off y = minute_http_rqs.truncate (y\<lparr>s_tries := c_tstate y\<rparr>)"

lemma left_off_sel [simp]:
  "s_flags (left_off y) = s_flags y" "s_st (left_off y) = s_st y" "s_est (left_off y) = s_est y"
  "s_m (left_off y) = s_m y" "s_nl (left_off y) = s_nl y" "s_tries (left_off y) = c_tstate y"
  "s_hmask (left_off y) = s_hmask y"
  by (simp_all add: left_off_def minute_http_rqs.truncate_def)

lemma enter_left_off:
  "io_read io = c_b y \<Longrightarrow> http_enter (c_rq y) (left_off y) io (c_text y) = upd None (c_tstate y) y"
  by (rule http_ctx.equality)
    (simp_all add: http_enter_def left_off_def upd_def minute_http_rqs.defs)

lemma upd_inv: "http_inv y \<Longrightarrow> resumable y \<Longrightarrow> http_inv (upd None ts y)"
  by (rule http_inv_cong [of _ y]) (simp_all add: resumable_def)

text \<open>How far the read counter has moved.\<close>

lemma marked_skip:
  assumes "reader_ok s io t" "verdict_ok eof (http_enter rq s io t) (length (unread s io)) (Wants y)"
  obtains j where "j \<le> unat (minute_iobuf_used io)" "io\<lparr>io_read := c_b y\<rparr> = iobuf_skip j io"
proof -
  let ?n = "unat (s_m s - io_read io)"
  from assms(2) consider "c_b y = io_read io"
    | i where "i < length (unread s io)" "c_b y = s_m s + of_nat i"
    by (auto simp: verdict_ok_def)
  then show ?thesis
  proof cases
    case 1
    then show ?thesis using that [of 0] by (simp add: iobuf_skip_def)
  next
    case (2 i)
    have "io\<lparr>io_read := c_b y\<rparr> = iobuf_skip (?n + i) io"
      by (simp add: iobuf_skip_def 2(2))
    moreover have "?n + i \<le> unat (minute_iobuf_used io)"
      using 2(1) length_unread [OF assms(1)] by linarith
    ultimately show ?thesis using that by blast
  qed
qed

lemma reader_after_wait:
  assumes "reader_ok s io t" "verdict_ok eof (http_enter rq s io t) (length (unread s io)) (Wants y)"
  shows "reader_ok (left_off y) (io\<lparr>io_read := c_b y\<rparr>) (c_text y)" "s_m y = io_write io"
    "unread (left_off y) (io\<lparr>io_read := c_b y\<rparr>) = []"
proof -
  let ?io = "io\<lparr>io_read := c_b y\<rparr>"
  have y: "http_inv y" "resumable (http_enter rq s io t) \<longrightarrow> resumable y" and m: "s_m y = io_write io"
    using assms(2) unread_end [OF assms(1)] by (auto simp: verdict_ok_def)
  have r: "resumable y"
    using y(2) http_inv_enter(2) [of zero_rq s io t] assms(1) by (simp add: reader_ok_def)
  show "s_m y = io_write io" by (rule m)
  have ok: "iobuf_ok ?io"
    using marked_skip [OF assms] assms(1) iobuf_skip_ok [of io] by (metis reader_ok_def)
  have "http_inv (http_enter (c_rq y) (left_off y) ?io (c_text y))"
    using upd_inv [OF y(1) r] by (simp add: enter_left_off)
  then show "reader_ok (left_off y) ?io (c_text y)"
    using ok m http_inv_enter by (simp add: reader_ok_def minute_iobuf_used_def)
  show "unread (left_off y) ?io = []"
    using m by (simp add: unread_def length_iobuf_bytes minute_iobuf_used_def)
qed

section \<open>A call and the next one\<close>

definition same_answer ::
  "(nat \<times> minute_http_rq \<times> minute_http_rqs \<times> iobuf \<times> textint) c_loop
   \<Rightarrow> (nat \<times> minute_http_rq \<times> minute_http_rqs \<times> iobuf \<times> textint) c_loop \<Rightarrow> bool" where
  "same_answer a b \<longleftrightarrow> (\<exists>code rq t s io s' io'. a = Some (Some (code, rq, s, io, t))
     \<and> b = Some (Some (code, rq, s', io', t))
     \<and> (code = EAGAIN \<or> code = 0 \<longrightarrow> io = io' \<and> s\<lparr>s_tries := s_tries s'\<rparr> = s'))"

definition more_input :: "bytes \<Rightarrow> unsigned \<Rightarrow> iobuf \<Rightarrow> iobuf" where
  "more_input bs fl io = (iobuf_fill bs io)\<lparr>io_flags := fl\<rparr>"

lemma more_input_ring:
  assumes "iobuf_ok io" "unat (minute_iobuf_used io) + length bs \<le> iobuf_size io"
  shows "iobuf_ok (more_input bs fl io)" "iobuf_bytes (more_input bs fl io) = iobuf_bytes io @ bs"
    "unat (minute_iobuf_used (more_input bs fl io)) = unat (minute_iobuf_used io) + length bs"
    "io_read (more_input bs fl io) = io_read io"
  using iobuf_fill_ok [OF assms] iobuf_fill_bytes [OF assms] iobuf_fill_used [OF assms]
  by (simp_all add: more_input_def iobuf_ok_def iobuf_bytes_def minute_iobuf_used_def iobuf_size_def)

lemma more_input_reader:
  assumes "reader_ok s io t" "unat (minute_iobuf_used io) + length bs \<le> iobuf_size io"
  shows "reader_ok s (more_input bs fl io) t"
    "unread s (more_input bs fl io) = unread s io @ bs"
proof -
  have ok: "iobuf_ok io" using assms(1) by (simp add: reader_ok_def)
  note ring = more_input_ring [OF ok assms(2), of fl]
  show "reader_ok s (more_input bs fl io) t"
    using assms(1) ring http_inv_enter(1) [of zero_rq s io t zero_rq "more_input bs fl io"]
    by (simp add: reader_ok_def)
  show "unread s (more_input bs fl io) = unread s io @ bs"
    using assms(1) ring by (simp add: unread_def reader_ok_def length_iobuf_bytes)
qed

lemma unfolded_append: "unfolded b (xs @ ys) \<Longrightarrow> unfolded b xs"
  by (induction xs arbitrary: b) auto

lemma scan_line_start:
  "http_inv x \<Longrightarrow> unfolded (s_st x = h_nl) (cs @ ds) \<Longrightarrow> http_scan False cs x = Wants y
   \<Longrightarrow> unfolded (s_st y = h_nl) ds"
proof (induction cs arbitrary: x)
  case (Cons ch cs)
  have "fold_safe (ch # cs) x"
    using unfolded_fold_safe [OF Cons.prems(1) unfolded_append [OF Cons.prems(2)]] .
  then have ok: "char_ok (char_int ch) x (http_char (char_int ch) x)"
    by (intro http_char_ok [OF Cons.prems(1)]) simp
  with Cons.prems(3) obtain z where z: "http_char (char_int ch) x = Break z" "\<not> 1 < s_nl z"
    by (cases "http_char (char_int ch) x") (auto split: if_splits)
  then have "http_inv (next_char z)" "s_st z = h_nl \<longrightarrow> ch = CHR 0x0A"
    using ok by (auto simp: break_ok_def char_int_blank)
  moreover have "unfolded (s_st z = h_nl) (cs @ ds)"
    using Cons.prems(2) calculation(2) unfolded_mono by (cases "ch = CHR 0x0A") auto
  ultimately show ?case using Cons.IH [of "next_char z"] Cons.prems(3) z by simp
qed simp

lemma same_verdict_leave:
  assumes "same_verdict ts v w" "verdict_ok eof x n v" "io1 = io\<lparr>io_read := r\<rparr>"
  shows "same_answer
    (case w of Wants x \<Rightarrow> Some (Some (http_leave s1 io1 EAGAIN x))
       | Done k x \<Rightarrow> Some (Some (http_leave s1 io1 k x)) | Crash \<Rightarrow> Some None)
    (case v of Wants x \<Rightarrow> Some (Some (http_leave s io EAGAIN x))
       | Done k x \<Rightarrow> Some (Some (http_leave s io k x)) | Crash \<Rightarrow> Some None)"
proof (cases v)
  case (Wants y)
  then obtain g where w: "w = Wants (upd g ts y)" using assms(1) by auto
  have "(minute_http_rqs.truncate ((upd g ts y)\<lparr>s_tries := c_tstate y\<rparr>))\<lparr>s_tries := c_tstate y\<rparr>
      = minute_http_rqs.truncate (y\<lparr>s_tries := c_tstate y\<rparr>)"
    "s_tries (minute_http_rqs.truncate (y\<lparr>s_tries := c_tstate y\<rparr>)) = c_tstate y"
    by (simp_all add: upd_def minute_http_rqs.truncate_def)
  then show ?thesis
    using assms(3) by (auto simp: same_answer_def Wants w http_leave_def)
next
  case (Done k y)
  then obtain g where w: "w = Done k (upd g ts y)" using assms(1) by auto
  have "(minute_http_rqs.truncate (upd g ts y))\<lparr>s_tries := s_tries y\<rparr> = minute_http_rqs.truncate y"
    by (simp add: upd_def minute_http_rqs.truncate_def)
  moreover have "s_tries (minute_http_rqs.truncate y) = s_tries y"
    by (simp add: minute_http_rqs.truncate_def)
  moreover have "k \<noteq> EAGAIN"
    using assms(2) Done by (auto simp: verdict_ok_def error_codes_def EAGAIN_def)
  ultimately show ?thesis using assms(3) by (auto simp: same_answer_def Done w http_leave_def)
qed (use assms(2) in \<open>simp add: verdict_ok_def\<close>)

section \<open>Properties\<close>

lemma http_init_ready:
  assumes "iobuf_ok io" "textint_ok t"
  shows "\<exists>s t'. minute_http_init hmask io t = Some (s, t') \<and> s = minute_http_rqs_init hmask io
    \<and> reader_ok s io t' \<and> unread s io = iobuf_bytes io \<and> textint_text t' = [NUL] \<and> textint_ints t' = []
    \<and> ti_size t' = ti_size t"
proof -
  have n: "0 < unat (ti_size t)" "length (ti_data t) = unat (ti_size t)" "4 \<le> unat (ti_size t)"
    using assms(2) textint_ok_nat [OF assms(2)] by (auto simp: textint_ok_def)
  let ?t = "t\<lparr>ti_data := (ti_data t)[0 := NUL], ti_text := 1, ti_ints := ti_size t\<rparr>"
  have t: "textint_ok ?t" using assms(2) n by (simp add: textint_ok_def word_le_nat_alt)
  have "textint_text ?t = [NUL]"
    using n by (cases "ti_data t") (auto simp: textint_text_def)
  moreover have "textint_ints ?t = []" by (simp add: textint_ints_def textint_count_def)
  moreover have "minute_http_init hmask io t = Some (minute_http_rqs_init hmask io, ?t)"
    using n by (simp add: minute_http_init_def mem_write_def)
  moreover have "reader_ok (minute_http_rqs_init hmask io) io ?t"
    using assms(1) t by (simp add: reader_ok_def http_inv_def text_inv_def trie_inv_def est_states_def
        dead_states_def minute_http_rqs_init_def)
  moreover have "unread (minute_http_rqs_init hmask io) io = iobuf_bytes io"
    by (simp add: unread_def minute_http_rqs_init_def)
  ultimately show ?thesis by auto
qed

text \<open>A ring of 16 bytes that holds a request of two lines, and a text block.\<close>

definition demo_request :: bytes where
  "demo_request = ''GET / HTTP/1.0'' @ [CHR 0x0A, CHR 0x0A]"

definition demo_in :: iobuf where
  "demo_in = \<lparr>io_read = 0, io_write = 16, io_mask = 15, io_flags = 0, io_data = demo_request\<rparr>"

definition demo_text :: textint where
  "demo_text = \<lparr>ti_text = 1, ti_ints = 16, ti_size = 16, ti_data = replicate 16 NUL\<rparr>"

definition demo_state :: minute_http_rqs where
  "demo_state = minute_http_rqs_init 0 demo_in"

lemma demo_ring: "iobuf_ok demo_in" "iobuf_size demo_in = 16" "iobuf_bytes demo_in = demo_request"
proof -
  have "(16::nat) = 2 ^ 4" by simp
  moreover have "iobuf_size demo_in = 16" by code_simp
  moreover have "length (io_data demo_in) = 16" by code_simp
  moreover have "unat (minute_iobuf_used demo_in) = 16" by code_simp
  ultimately show "iobuf_ok demo_in" "iobuf_size demo_in = 16"
    by (auto simp: iobuf_ok_def intro: exI [of _ 4])
  show "iobuf_bytes demo_in = demo_request" by code_simp
qed

lemma demo_reader:
  "reader_ok demo_state demo_in demo_text" "unread demo_state demo_in = demo_request"
  "unfolded (s_st demo_state = h_nl) demo_request" "\<not> at_eof demo_in"
proof -
  have t: "textint_ok demo_text" "minute_http_init 0 demo_in demo_text = Some (demo_state, demo_text)"
    by code_simp+
  from http_init_ready [OF demo_ring(1) t(1), of 0] t(2) demo_ring(3)
  show "reader_ok demo_state demo_in demo_text" "unread demo_state demo_in = demo_request"
    by auto
  show "unfolded (s_st demo_state = h_nl) demo_request" "\<not> at_eof demo_in" by code_simp+
qed






text \<open>The request cut after its first byte, the rest coming later.\<close>

definition demo_part :: iobuf where
  "demo_part = demo_in\<lparr>io_write := 1\<rparr>"

lemma demo_part_facts:
  "iobuf_bytes demo_part = ''G''" "reader_ok demo_state demo_part demo_text" "\<not> at_eof demo_part"
  "unread demo_state demo_part = ''G''" "iobuf_size demo_part = 16"
proof -
  show b: "iobuf_bytes demo_part = ''G''" "\<not> at_eof demo_part" "unread demo_state demo_part = ''G''"
    and s: "iobuf_size demo_part = 16" by code_simp+
  have "minute_iobuf_used demo_part = 1" "length (io_data demo_part) = 16" by code_simp+
  then have "iobuf_ok demo_part"
    using s unfolding iobuf_ok_def by (auto intro: exI [of _ 4])
  moreover have "s_m demo_state = io_read demo_part" by code_simp
  moreover have "http_inv (http_enter zero_rq demo_state demo_part demo_text)"
    using demo_reader(1) http_inv_enter(1) [of zero_rq demo_state demo_in demo_text]
    by (simp add: reader_ok_def)
  ultimately show "reader_ok demo_state demo_part demo_text" by (simp add: reader_ok_def)
qed


end
