(* ===== verification/Iobuf_Util.thy ===== *)
theory Iobuf_Util
  imports Iobuf
begin

text \<open>
  The ring buffer and file descriptors: \<open>src/libhttpd/iobuf-util.c\<close>.  A descriptor that is read
  is the list of what its next \<open>readv\<close> calls will find: bytes that have arrived, or a failure;
  when the list is used up the peer has closed.  The outcome of a \<open>writev\<close> is chosen by a list of
  numbers: how many bytes the next call accepts, a negative number for a failure, and everything
  when the list is used up.  What was accepted is collected in \<open>w_sent\<close>.
\<close>

section \<open>Descriptors\<close>

datatype rd_event = Recv bytes | Rd_fail

fun readv :: "rd_event list \<Rightarrow> nat \<Rightarrow> int \<times> bytes \<times> rd_event list" where
  "readv [] n = (0, [], [])"
| "readv (Rd_fail # es) n = (-1, [], es)"
| "readv (Recv xs # es) n =
     (if length xs \<le> n then (int (length xs), xs, es)
      else (int n, take n xs, Recv (drop n xs) # es))"

record world =
  w_in     :: "rd_event list"
  w_script :: "int list"
  w_sent   :: bytes

definition write_some :: "bytes \<Rightarrow> world \<Rightarrow> int \<times> world" where
  "write_some xs w = (case w_script w of
       [] \<Rightarrow> (int (length xs), w\<lparr>w_sent := w_sent w @ xs\<rparr>)
     | r # rs \<Rightarrow>
         if r < 0 then (-1, w\<lparr>w_script := rs\<rparr>)
         else let n = min (nat r) (length xs)
              in (int n, w\<lparr>w_script := rs, w_sent := w_sent w @ take n xs\<rparr>))"

text \<open>Writing to descriptor -1 (one that was closed) fails.\<close>

definition writev :: "int \<Rightarrow> bytes \<Rightarrow> world \<Rightarrow> int \<times> world" where
  "writev fd xs w = (if fd < 0 then (-1, w) else write_some xs w)"

section \<open>Vectors of memory pieces\<close>

definition mem_slice :: "bytes \<Rightarrow> nat \<Rightarrow> nat \<Rightarrow> bytes option" where
  "mem_slice d i n = (if i + n \<le> length d then Some (take n (drop i d)) else None)"

text \<open>Storing bytes into two pieces, the first before the second.\<close>

definition scatter2 :: "bytes \<Rightarrow> nat \<times> nat \<Rightarrow> nat \<times> nat \<Rightarrow> bytes \<Rightarrow> bytes option" where
  "scatter2 d A B xs = do {
     d1 \<leftarrow> memcpy d (fst A) xs 0 (min (snd A) (length xs));
     memcpy d1 (fst B) xs (min (snd A) (length xs)) (length xs - snd A)
   }"

section \<open>The operations\<close>

definition minute_iobuf_readfd ::
    "rd_event list \<Rightarrow> iobuf \<Rightarrow> (int \<times> iobuf \<times> rd_event list) option" where
  "minute_iobuf_readfd fd io =
     (let b = io_read io; e = io_write io; n = iobuf_size io;
          bi = unat (b AND io_mask io); ei = unat (e AND io_mask io);
          A = (ei, if ei < bi then bi - ei else n - ei);
          B = (0, if ei < bi then 0 else bi)
      in if b \<noteq> e \<and> ei = bi then Some (-1, io, fd)
         else (case readv fd (snd A + snd B) of (r, xs, fd') \<Rightarrow> do {
           d \<leftarrow> scatter2 (io_data io) A B xs;
           Some (if r \<noteq> 0 then (r, io\<lparr>io_data := d, io_write := e + word_of_int r\<rparr>, fd')
                 else (r, io\<lparr>io_data := d, io_flags := io_flags io OR IOBUF_EOF\<rparr>, fd'))
         }))"

text \<open>The two pieces as offset and length; untouched pieces are empty.\<close>

definition minute_iobuf_gather :: "iobuf \<Rightarrow> nat \<times> (nat \<times> nat) \<times> (nat \<times> nat)" where
  "minute_iobuf_gather io =
     (let b = io_read io; e = io_write io; n = iobuf_size io;
          bi = unat (b AND io_mask io); ei = unat (e AND io_mask io)
      in if b < e then
           (if bi < ei then 1 else 2, (bi, if bi < ei then ei - bi else n - bi),
            (0, if bi < ei then 0 else ei))
         else (0, (0, 0), (0, 0)))"

definition minute_iobuf_flushfd :: "int \<Rightarrow> iobuf \<Rightarrow> world \<Rightarrow> (int \<times> iobuf \<times> world) option" where
  "minute_iobuf_flushfd fd io w =
     (case minute_iobuf_gather io of (k, A, B) \<Rightarrow> do {
        xs \<leftarrow> mem_slice (io_data io) (fst A) (snd A);
        ys \<leftarrow> mem_slice (io_data io) (fst B) (snd B);
        (case writev fd (if k = 0 then [] else if k = 1 then xs else xs @ ys) w of (r, w') \<Rightarrow>
           Some (r, if 0 < r then io\<lparr>io_read := io_read io + word_of_int r\<rparr> else io, w'))
      })"

text \<open>The formatted text is an argument; the local buffer holds what fits of it and a NUL.\<close>

definition minute_iobuf_printf :: "bytes \<Rightarrow> iobuf \<Rightarrow> (int \<times> iobuf) option" where
  "minute_iobuf_printf text io =
     minute_iobuf_write (take (iobuf_size io) text @ [NUL]) (of_nat (length text)) io"

section \<open>Reading into the ring\<close>

lemma scatter2_ring:
  assumes "i < length d" "length xs \<le> length d" "l \<le> length d - i"
    "length xs \<le> l \<or> l = length d - i"
  shows "scatter2 d (i, l) (0, l') xs = Some (ring_put d i xs)"
proof (cases "length xs \<le> l")
  case True
  then have "memcpy d i xs 0 (length xs) = Some (ring_put d i xs)"
    using assms by (intro memcpy_ring_flat) auto
  then show ?thesis using True by (simp add: scatter2_def memcpy_def)
next
  case False
  then have l: "l = length d - i" using assms(4) by simp
  have "(do { d1 \<leftarrow> memcpy d i xs 0 (length d - i);
              memcpy d1 0 xs (length d - i) (length xs - (length d - i)) })
       = Some (ring_put d i (take (length xs) xs))"
    by (rule memcpy_ring_wrap) (use assms False l in auto)
  then show ?thesis using False l by (simp add: scatter2_def)
qed

lemma readv_length:
  "readv fd n = (r, xs, fd') \<Longrightarrow> length xs \<le> n \<and> (r = -1 \<and> xs = [] \<or> r = int (length xs))"
  by (cases "(fd, n)" rule: readv.cases) (auto split: if_splits)

definition iobuf_room :: "iobuf \<Rightarrow> nat" where
  "iobuf_room io = iobuf_size io - unat (minute_iobuf_used io)"

lemma free_pieces:
  assumes "iobuf_ok io"
  defines "bi \<equiv> unat (io_read io AND io_mask io)" and "ei \<equiv> unat (io_write io AND io_mask io)"
  assumes "iobuf_room io \<noteq> 0"
  shows "(if ei < bi then bi - ei else iobuf_size io - ei) + (if ei < bi then 0 else bi) = iobuf_room io"
    "\<not> (io_read io \<noteq> io_write io \<and> ei = bi)"
proof -
  let ?n = "iobuf_size io" and ?u = "unat (minute_iobuf_used io)"
  have u: "?u < ?n" using assms(4) by (simp add: iobuf_room_def)
  have bi: "bi < ?n" using assms(1) by (simp add: bi_def ring_index_less)
  have ei: "ei = (bi + ?u) mod ?n"
    using assms(1) by (simp add: bi_def ei_def ring_index write_index mod_add_left_eq)
  then have ei2: "ei = (if bi + ?u < ?n then bi + ?u else bi + ?u - ?n)"
    using bi u wrap_add_mod [of bi ?n ?u] by simp
  show "(if ei < bi then bi - ei else ?n - ei) + (if ei < bi then 0 else bi) = iobuf_room io"
    using ei2 bi u by (auto simp: iobuf_room_def)
  show "\<not> (io_read io \<noteq> io_write io \<and> ei = bi)"
  proof
    assume a: "io_read io \<noteq> io_write io \<and> ei = bi"
    then have "?u \<noteq> 0" by (auto simp: minute_iobuf_used_def unat_eq_0)
    then show False using a ei2 u by (auto split: if_splits)
  qed
qed

lemma minute_iobuf_readfd_full:
  assumes "iobuf_ok io" "iobuf_room io = 0"
  shows "minute_iobuf_readfd fd io = Some (-1, io, fd)"
proof -
  have u: "unat (minute_iobuf_used io) = iobuf_size io"
    using assms iobuf_ok_used [of io] by (simp add: iobuf_room_def)
  then have "io_read io \<noteq> io_write io"
    using iobuf_ok_size [OF assms(1)] by (auto simp: minute_iobuf_used_def)
  moreover have "io_read io AND io_mask io = io_write io AND io_mask io"
    using write_index_eq_read_index [OF assms(1)] u by blast
  ultimately show ?thesis by (simp add: minute_iobuf_readfd_def Let_def)
qed

lemma minute_iobuf_readfd_eq:
  assumes "iobuf_ok io" "iobuf_room io \<noteq> 0"
  shows "minute_iobuf_readfd fd io =
    (case readv fd (iobuf_room io) of (r, xs, fd') \<Rightarrow>
       Some (if r = 0 then (r, io\<lparr>io_flags := io_flags io OR IOBUF_EOF\<rparr>, fd')
             else if r < 0 then (r, io\<lparr>io_write := io_write io - 1\<rparr>, fd')
             else (r, iobuf_fill xs io, fd')))"
proof -
  let ?bi = "unat (io_read io AND io_mask io)" and ?ei = "unat (io_write io AND io_mask io)"
  let ?n = "iobuf_size io"
  let ?l = "if ?ei < ?bi then ?bi - ?ei else ?n - ?ei"
  obtain r xs fd' where r: "readv fd (iobuf_room io) = (r, xs, fd')" by (cases "readv fd (iobuf_room io)") auto
  note rl = readv_length [OF r]
  have len: "length (io_data io) = ?n" using assms(1) by (rule iobuf_ok_length)
  have ei: "?ei < ?n" using assms(1) by (rule ring_index_less)
  have bi: "?bi < ?n" using assms(1) by (rule ring_index_less)
  note fp = free_pieces [OF assms]
  have "scatter2 (io_data io) (?ei, ?l) (0, if ?ei < ?bi then 0 else ?bi) xs
      = Some (ring_put (io_data io) ?ei xs)"
    by (rule scatter2_ring) (use len ei bi rl fp(1) in \<open>auto split: if_splits\<close>)
  moreover have "ring_put (io_data io) ?ei xs = ring_put (io_data io) (unat (io_write io)) xs"
    using assms(1) by (intro ring_put_cong_mod) (simp add: ring_index len)
  ultimately have s: "scatter2 (io_data io) (?ei, ?l) (0, if ?ei < ?bi then 0 else ?bi) xs
      = Some (ring_put (io_data io) (unat (io_write io)) xs)" by simp
  have main: "minute_iobuf_readfd fd io = Some
      (if r \<noteq> 0 then (r, io\<lparr>io_data := ring_put (io_data io) (unat (io_write io)) xs,
           io_write := io_write io + word_of_int r\<rparr>, fd')
       else (r, io\<lparr>io_data := ring_put (io_data io) (unat (io_write io)) xs,
           io_flags := io_flags io OR IOBUF_EOF\<rparr>, fd'))"
    unfolding minute_iobuf_readfd_def Let_def fst_conv snd_conv if_not_P [OF fp(2)] fp(1) r prod.case s
    by simp
  from rl consider "r = -1" "xs = []" | "r = 0" "xs = []" | "0 < r" "r = int (length xs)" by force
  then show ?thesis
    by cases (simp_all add: main r iobuf_fill_def)
qed


section \<open>Taking the bytes out\<close>

lemma mem_slice_ring:
  "i + n \<le> length d \<Longrightarrow> mem_slice d i n = Some (ring_slice d i n)"
  by (simp add: mem_slice_def ring_slice_flat)

lemma used_unwrapped:
  "iobuf_unwrapped io \<Longrightarrow> unat (minute_iobuf_used io) = unat (io_write io) - unat (io_read io)"
  by (simp add: iobuf_unwrapped_def minute_iobuf_used_def unat_sub_le)

lemma minute_iobuf_gather_eq:
  assumes "iobuf_ok io" "iobuf_unwrapped io"
  obtains k A B xs ys where "minute_iobuf_gather io = (k, A, B)"
    "mem_slice (io_data io) (fst A) (snd A) = Some xs" "mem_slice (io_data io) (fst B) (snd B) = Some ys"
    "xs @ ys = iobuf_bytes io" "snd A + snd B = length (iobuf_bytes io)"
    "k = 0 \<Longrightarrow> iobuf_bytes io = []" "k = 1 \<Longrightarrow> ys = []"
proof -
  let ?d = "io_data io" and ?n = "iobuf_size io" and ?u = "unat (minute_iobuf_used io)"
  let ?bi = "unat (io_read io AND io_mask io)" and ?ei = "unat (io_write io AND io_mask io)"
  have len: "length ?d = ?n" using assms(1) by (rule iobuf_ok_length)
  have bi: "?bi < ?n" using assms(1) by (rule ring_index_less)
  have u: "?u \<le> ?n" using assms(1) by (rule iobuf_ok_used)
  have ei: "?ei = (?bi + ?u) mod ?n"
    using assms(1) by (simp add: ring_index write_index mod_add_left_eq)
  have bytes: "iobuf_bytes io = ring_slice ?d ?bi ?u"
    unfolding iobuf_bytes_def ring_index [OF assms(1)] len [symmetric] by simp
  have lt: "io_read io < io_write io \<longleftrightarrow> ?u \<noteq> 0"
    using assms(2) used_unwrapped [OF assms(2)]
    by (auto simp: iobuf_unwrapped_def word_less_nat_alt word_le_nat_alt)
  show ?thesis
  proof (cases "?u = 0")
    case True
    then have "minute_iobuf_gather io = (0, (0, 0), (0, 0))"
      using lt by (simp add: minute_iobuf_gather_def)
    then show ?thesis using that [of 0 "(0, 0)" "(0, 0)" "[]" "[]"] True bytes
      by (simp add: mem_slice_def)
  next
    case False
    then have ne: "iobuf_bytes io \<noteq> []" using length_iobuf_bytes [of io] by auto
    show ?thesis
    proof (cases "?bi < ?ei")
      case True
      then have e: "?ei = ?bi + ?u" "?bi + ?u < ?n"
        using wrap_add_mod [OF bi u] wrap_above_iff [OF bi u] unfolding ei by auto
      have "minute_iobuf_gather io = (1, (?bi, ?u), (0, 0))"
        using lt False True e(1) by (simp add: minute_iobuf_gather_def Let_def)
      moreover have "mem_slice ?d ?bi ?u = Some (iobuf_bytes io)"
        using e(2) len bytes by (simp add: mem_slice_ring)
      ultimately show ?thesis
        using that [of 1 "(?bi, ?u)" "(0, 0)" "iobuf_bytes io" "[]"] ne length_iobuf_bytes [of io]
        by (simp add: mem_slice_def)
    next
      case flat: False
      then have ge: "?n \<le> ?bi + ?u"
        using wrap_above_iff [OF bi u] False unfolding ei by simp
      have e: "?ei = ?bi + ?u - ?n" using wrap_add_mod [OF bi u] ge unfolding ei by simp
      have g: "minute_iobuf_gather io = (2, (?bi, ?n - ?bi), (0, ?ei))"
        using lt False flat by (simp add: minute_iobuf_gather_def Let_def)
      have "iobuf_bytes io = drop ?bi ?d @ take ?ei ?d"
        using ring_slice_wrap [of ?bi ?d ?u] bi u ge len e bytes by simp
      moreover have "mem_slice ?d ?bi (?n - ?bi) = Some (drop ?bi ?d)"
        "mem_slice ?d 0 ?ei = Some (take ?ei ?d)"
        using bi len e u by (simp_all add: mem_slice_def)
      moreover have "(?n - ?bi) + ?ei = length (iobuf_bytes io)"
        using e ge bi by (simp add: length_iobuf_bytes)
      ultimately show ?thesis using that [OF g] ne by simp
    qed
  qed
qed


lemma writev_spec:
  assumes "writev fd xs w = (r, w')"
  shows "w_sent w' = w_sent w @ take (nat r) xs" "nat r \<le> length xs" "w_in w' = w_in w" "-1 \<le> r"
  using assms by (auto simp: writev_def write_some_def Let_def split: if_splits list.splits)

lemma minute_iobuf_flushfd_eq:
  assumes "iobuf_ok io" "iobuf_unwrapped io"
  shows "minute_iobuf_flushfd fd io w =
    (case writev fd (iobuf_bytes io) w of (r, w') \<Rightarrow>
       Some (r, if 0 < r then iobuf_skip (nat r) io else io, w'))"
proof -
  obtain k A B xs ys where g: "minute_iobuf_gather io = (k, A, B)"
    "mem_slice (io_data io) (fst A) (snd A) = Some xs" "mem_slice (io_data io) (fst B) (snd B) = Some ys"
    "xs @ ys = iobuf_bytes io" "k = 0 \<Longrightarrow> iobuf_bytes io = []" "k = 1 \<Longrightarrow> ys = []"
    by (rule minute_iobuf_gather_eq [OF assms]) blast
  have "(if k = 0 then [] else if k = 1 then xs else xs @ ys) = iobuf_bytes io"
    using g(4-6) by auto
  then show ?thesis
    by (cases "writev fd (iobuf_bytes io) w")
      (simp add: minute_iobuf_flushfd_def g(1-3) iobuf_skip_def)
qed

lemma minute_iobuf_printf_eq:
  assumes "iobuf_ok io" "0 < length text" "length text < 2 ^ 31"
  shows "minute_iobuf_printf text io =
    (if length text \<le> iobuf_room io then Some (int (length text), iobuf_fill text io) else Some (-1, io))"
proof -
  let ?sz = "of_nat (length text) :: unsigned"
  have u: "unat (minute_iobuf_used io) \<le> iobuf_size io" "iobuf_size io < 2 ^ 31"
    using iobuf_ok_used iobuf_ok_size assms(1) by auto
  have sz: "unat ?sz = length text" using assms(3) by (simp add: unat_of_nat_small)
  show ?thesis
  proof (cases "length text \<le> iobuf_size io")
    case True
    have "minute_iobuf_write (take (iobuf_size io) text @ [NUL]) ?sz io
      = (if iobuf_size io < unat (minute_iobuf_used io) + unat ?sz then Some (-1, io)
         else Some (int (unat ?sz), iobuf_fill (take (unat ?sz) (take (iobuf_size io) text @ [NUL])) io))"
      by (rule minute_iobuf_write_eq [OF assms(1)]) (use sz assms True u in auto)
    then show ?thesis
      using True u(1) by (auto simp: minute_iobuf_printf_def sz iobuf_room_def)
  next
    case False
    have "unat (minute_iobuf_used io + ?sz) = unat (minute_iobuf_used io) + length text"
      using u assms(3) sz by (simp add: unat_add_small)
    then have "io_mask io + 1 < io_write io + ?sz - io_read io"
      using False unat_size [OF assms(1)] by (simp add: used_after_write word_less_nat_alt)
    then show ?thesis
      using False by (simp add: minute_iobuf_printf_def minute_iobuf_write_def Let_def iobuf_room_def)
  qed
qed

section \<open>Properties\<close>

text \<open>C36. \<open>minute_iobuf_readfd\<close> appends what has arrived, as far as there is room, and keeps
  the rest for the next call; a full buffer is refused with -1 before anything is read, and the
  end of the input sets the end-of-file flag.  After a failed \<open>readv\<close>, whose result is kept in
  an unsigned variable, it answers -1 and has moved the write counter one byte back.\<close>
theorem iobuf_readfd_correct:
  assumes "iobuf_ok io"
  shows "(if length (iobuf_bytes io) = iobuf_size io then minute_iobuf_readfd fd io = Some (-1, io, fd)
    else case fd of
        [] \<Rightarrow> minute_iobuf_readfd fd io = Some (0, io\<lparr>io_flags := io_flags io OR IOBUF_EOF\<rparr>, [])
      | Rd_fail # es \<Rightarrow> minute_iobuf_readfd fd io = Some (-1, io\<lparr>io_write := io_write io - 1\<rparr>, es)
      | Recv xs # es \<Rightarrow> xs \<noteq> [] \<longrightarrow> (\<exists>io' fd' n. n = min (length xs) (iobuf_size io - length (iobuf_bytes io))
          \<and> minute_iobuf_readfd fd io = Some (int n, io', fd') \<and> iobuf_ok io' \<and> 0 < n
          \<and> iobuf_bytes io' = iobuf_bytes io @ take n xs
          \<and> fd' = (if n = length xs then es else Recv (drop n xs) # es)))"
proof (cases "iobuf_room io = 0")
  case True
  then show ?thesis
    using minute_iobuf_readfd_full [OF assms True, of fd] iobuf_ok_used [OF assms]
    by (simp add: iobuf_room_def length_iobuf_bytes)
next
  case False
  then have ne: "length (iobuf_bytes io) \<noteq> iobuf_size io"
    by (simp add: iobuf_room_def length_iobuf_bytes)
  have room: "iobuf_size io - length (iobuf_bytes io) = iobuf_room io"
    by (simp add: iobuf_room_def length_iobuf_bytes)
  note eq = minute_iobuf_readfd_eq [OF assms False, of fd]
  have fill: "iobuf_ok (iobuf_fill ys io)" "iobuf_bytes (iobuf_fill ys io) = iobuf_bytes io @ ys"
    if "length ys \<le> iobuf_room io" for ys
    using that False ring.fill_ok [OF assms, of ys] ring.fill_contents [OF assms, of ys]
    by (auto simp: iobuf_room_def length_iobuf_bytes)
  show ?thesis
  proof (cases fd)
    case (Cons e es)
    then show ?thesis
      unfolding room using ne eq fill False by (cases e) (auto simp: min_def)
  qed (use ne eq in simp)
qed

lemma iobuf_readfd_witness:
  "\<exists>io' fd'. minute_iobuf_readfd [Recv ''abc''] wrapping_ring = Some (3, io', fd')
     \<and> iobuf_bytes io' = ''abc'' \<and> fd' = []"
proof -
  have b: "iobuf_bytes wrapping_ring = []" by code_simp
  show ?thesis
    using iobuf_readfd_correct [OF wrapping_ring_ok(1), of "[Recv ''abc'']"] wrapping_ring_ok(2) b by auto
qed

text \<open>C37. \<open>minute_iobuf_flushfd\<close> loses nothing and keeps the order: what the descriptor has
  accepted is the front of the contents, and exactly that is removed.  Once the write counter has
  wrapped around behind the read counter, however, it never offers a byte to the descriptor.\<close>
theorem iobuf_flush_correct:
  assumes "iobuf_ok io"
  shows "\<exists>r io' w'. minute_iobuf_flushfd fd io w = Some (r, io', w') \<and> iobuf_ok io'
    \<and> w_sent w' = w_sent w @ take (nat r) (if iobuf_unwrapped io then iobuf_bytes io else [])
    \<and> iobuf_bytes io' = drop (nat r) (iobuf_bytes io)"
proof (cases "iobuf_unwrapped io")
  case True
  obtain r w' where w: "writev fd (iobuf_bytes io) w = (r, w')" by (cases "writev fd (iobuf_bytes io) w") auto
  note ws = writev_spec [OF w]
  show ?thesis
    using minute_iobuf_flushfd_eq [OF assms True, of fd w] w ws True
      ring.skip_ok [OF assms, of "nat r"] ring.skip_contents [OF assms, of "nat r"] assms
    by auto
next
  case False
  then have "minute_iobuf_gather io = (0, (0, 0), (0, 0))"
    by (simp add: minute_iobuf_gather_def Let_def iobuf_unwrapped_def not_le not_less order_less_imp_le)
  moreover obtain r w' where w: "writev fd [] w = (r, w')" by (cases "writev fd [] w") auto
  ultimately show ?thesis
    using writev_spec [OF w] False assms by (auto simp: minute_iobuf_flushfd_def mem_slice_def)
qed


text \<open>A descriptor that accepts three bytes and then has to be asked again.\<close>

lemma iobuf_flush_witness:
  "\<exists>r io' w'. minute_iobuf_flushfd 1 (iobuf_fill ''abcde'' wrapping_ring)
       \<lparr>w_in = [], w_script = [3], w_sent = []\<rparr> = Some (r, io', w')
     \<and> w_sent w' = take (nat r) ''abcde'' \<and> iobuf_bytes io' = drop (nat r) ''abcde''"
proof -
  let ?io = "iobuf_fill ''abcde'' wrapping_ring"
  have h: "iobuf_ok ?io"
  proof (rule iobuf_fill_ok [OF wrapping_ring_ok(1)])
    have "minute_iobuf_used wrapping_ring = 0" by code_simp
    then show "unat (minute_iobuf_used wrapping_ring) + length ''abcde'' \<le> iobuf_size wrapping_ring"
      by (simp add: wrapping_ring_ok(2))
  qed
  have b: "iobuf_bytes ?io = ''abcde''" "iobuf_unwrapped ?io" by code_simp+
  show ?thesis
    using iobuf_flush_correct [OF h, of 1 "\<lparr>w_in = [], w_script = [3], w_sent = []\<rparr>"] b by auto
qed

end
