(* ===== verification/Httpd_In.thy ===== *)
theory Httpd_In
  imports Http_Resume Iobuf_Util
begin

text \<open>
  The input side of \<open>src/libhttpd/httpd.c\<close>: reading a request from the connection, handing its
  payload to the application (by content length or in chunks), and discarding what the
  application left.
\<close>

section \<open>State of a connection and of a response\<close>

record minute_httpd_state =
  st_in    :: iobuf
  st_out   :: iobuf
  st_text  :: textint
  st_infd  :: int
  st_outfd :: int

text \<open>\<open>httpd_response\<close>, with the descriptors' world, which the C code reaches through the
  kernel.\<close>

record httpd_response =
  r_state   :: minute_httpd_state
  r_rq      :: minute_http_rq
  r_flags   :: unsigned
  r_pending :: int
  r_world   :: world

definition PENDING_INIT :: int where "PENDING_INIT = -1"
definition PENDING_EOF :: int where "PENDING_EOF = -2"
definition PENDING_ERROR :: int where "PENDING_ERROR = -3"

abbreviation r_in :: "httpd_response \<Rightarrow> iobuf" where "r_in r \<equiv> st_in (r_state r)"
abbreviation r_out :: "httpd_response \<Rightarrow> iobuf" where "r_out r \<equiv> st_out (r_state r)"
abbreviation r_text :: "httpd_response \<Rightarrow> textint" where "r_text r \<equiv> st_text (r_state r)"

definition put_in :: "iobuf \<Rightarrow> httpd_response \<Rightarrow> httpd_response" where
  "put_in io r = r\<lparr>r_state := (r_state r)\<lparr>st_in := io\<rparr>\<rparr>"

text \<open>A call of \<open>minute_iobuf_readfd\<close> on the connection.\<close>

definition fill_in :: "httpd_response \<Rightarrow> (int \<times> httpd_response) option" where
  "fill_in r = do {
     (k, io, es) \<leftarrow> minute_iobuf_readfd (w_in (r_world r)) (r_in r);
     Some (k, (put_in io r)\<lparr>r_world := (r_world r)\<lparr>w_in := es\<rparr>\<rparr>)
   }"

text \<open>A call of \<open>minute_http_read\<close> on the request of the response.\<close>

definition parse_in ::
    "httpd_response \<Rightarrow> minute_http_rqs \<Rightarrow> (nat \<times> httpd_response \<times> minute_http_rqs) c_loop" where
  "parse_in r s = c_bind (minute_http_read (r_rq r) s (r_in r) (r_text r))
     (\<lambda>(code, rq, s', io, t). Some (Some (code,
        r\<lparr>r_rq := rq, r_state := (r_state r)\<lparr>st_in := io, st_text := t\<rparr>\<rparr>, s')))"

section \<open>Reading a request\<close>

text \<open>The \<open>do\<close> loop of \<open>minute_httpd_read_request\<close>, entered at \<open>prefilled\<close> or at its head.\<close>

partial_function (option) read_request_loop ::
    "bool \<Rightarrow> httpd_response \<Rightarrow> minute_http_rqs \<Rightarrow> (int \<times> httpd_response \<times> minute_http_rqs) c_loop" where
  "read_request_loop prefilled r s =
     c_bind (if prefilled then Some (Some (1, r)) else c_step (fill_in r)) (\<lambda>(k, r).
       if k < 0 then Some (Some (414, r, s))
       else if k = 0 \<and> at_eof (r_in r) then Some (Some (-1, r, s))
       else c_bind (parse_in r s) (\<lambda>(code, r, s).
         if code = EAGAIN then read_request_loop False r s
         else Some (Some (int code, r, s))))"

declare read_request_loop.simps [code]

definition minute_httpd_read_request ::
    "httpd_response \<Rightarrow> minute_http_rqs \<Rightarrow> (int \<times> httpd_response \<times> minute_http_rqs) c_loop" where
  "minute_httpd_read_request r s = read_request_loop (0 < minute_iobuf_used (r_in r)) r s"

section \<open>Chunked transfer coding\<close>

datatype chunk_state =
    chunk_previous
  | chunk_previous_cr
  | chunk_size
  | chunk_extension
  | chunk_cr
  | chunk_error

text \<open>What a character does: go on in a state with a value, complete the chunk header, or be
  refused (\<open>chunk_error\<close>).  A \<open>reset\<close> looks at the same character again in the other state.\<close>

datatype chunk_move = Chunk_next chunk_state unsigned | Chunk_complete | Chunk_refused

definition at_chunk_cr :: "int \<Rightarrow> chunk_move" where
  "at_chunk_cr c = (if c = 10 then Chunk_complete else Chunk_refused)"

definition at_previous_cr :: "int \<Rightarrow> unsigned \<Rightarrow> chunk_move" where
  "at_previous_cr c val = (if c = 10 then Chunk_next chunk_size val else Chunk_refused)"

definition at_previous :: "int \<Rightarrow> unsigned \<Rightarrow> chunk_move" where
  "at_previous c val =
     (if c = 13 then Chunk_next chunk_previous_cr val
      else if c = 10 then at_previous_cr c val
      else Chunk_refused)"

definition at_size :: "int \<Rightarrow> unsigned \<Rightarrow> chunk_move" where
  "at_size c val =
     (if 48 \<le> c \<and> c \<le> 57 then Chunk_next chunk_size (push_bit 4 val + word_of_int (c - 48))
      else if 97 \<le> c \<and> c \<le> 102 then Chunk_next chunk_size (push_bit 4 val + word_of_int (c - 97) + 0xA)
      else if 65 \<le> c \<and> c \<le> 70 then Chunk_next chunk_size (push_bit 4 val + word_of_int (c - 65) + 0xA)
      else if c = 59 then Chunk_next chunk_extension val
      else if c = 13 then Chunk_next chunk_cr val
      else if c = 10 then at_chunk_cr c
      else Chunk_refused)"

definition at_extension :: "int \<Rightarrow> unsigned \<Rightarrow> chunk_move" where
  "at_extension c val =
     (if c = 13 then Chunk_next chunk_cr val
      else if c = 10 then at_chunk_cr c
      else Chunk_next chunk_extension val)"

definition chunk_switch :: "chunk_state \<Rightarrow> int \<Rightarrow> unsigned \<Rightarrow> chunk_move" where
  "chunk_switch cs c val = (case cs of
       chunk_previous \<Rightarrow> at_previous c val
     | chunk_previous_cr \<Rightarrow> at_previous_cr c val
     | chunk_size \<Rightarrow> at_size c val
     | chunk_extension \<Rightarrow> at_extension c val
     | chunk_cr \<Rightarrow> at_chunk_cr c
     | chunk_error \<Rightarrow> Chunk_refused)"

text \<open>The \<open>for\<close> loop over the local copy of the buffer: it ends with the header complete (its
  value and the buffer behind it), with an error, or at the end of the bytes.\<close>

datatype chunk_result = Chunk_header unsigned iobuf | Chunk_bad | Chunk_more

function chunk_loop :: "chunk_state \<Rightarrow> unsigned \<Rightarrow> iobuf \<Rightarrow> chunk_result option" where
  "chunk_loop cs val i =
     (if \<not> io_read i < io_write i then Some Chunk_more
      else (case mem_read (io_data i) (unat (io_read i AND io_mask i)) of
          None \<Rightarrow> None
        | Some ch \<Rightarrow>
            (case chunk_switch cs (char_int ch) val of
               Chunk_refused \<Rightarrow> Some Chunk_bad
             | Chunk_complete \<Rightarrow> Some (Chunk_header val (i\<lparr>io_read := io_read i + 1\<rparr>))
             | Chunk_next cs' val' \<Rightarrow>
                 if io_read i = io_write i then Some Chunk_bad
                 else chunk_loop cs' val' (i\<lparr>io_read := io_read i + 1\<rparr>))))"
  by pat_completeness auto

lemma counter_Suc:
  assumes "a < (b :: unsigned)"
  shows "unat (a + 1) = Suc (unat a)"
  using assms unat_less_32 [of b] by (simp add: word_less_nat_alt unat_add_small)

termination chunk_loop
  by (relation "measure (\<lambda>(cs, val, i). unat (io_write i) - unat (io_read i))")
    (simp_all add: counter_Suc word_less_nat_alt)

declare chunk_loop.simps [simp del]

section \<open>Payload\<close>

definition MINUTE_ALL_HEADERS :: unsigned where
  "MINUTE_ALL_HEADERS = NOT 0"

text \<open>Bytes taken from the buffer: into the application's block, or thrown away when there is
  none.\<close>

definition take_in ::
    "bytes option \<Rightarrow> unsigned \<Rightarrow> iobuf \<Rightarrow> (int \<times> bytes option \<times> iobuf) option" where
  "take_in buf toread io = (case buf of
       Some d \<Rightarrow> do { (n, d', io') \<leftarrow> minute_iobuf_read d toread io; Some (n, Some d', io') }
     | None \<Rightarrow>
         let n = (if io_write io < io_read io + toread then io_write io - io_read io else toread)
         in Some (sint n, None, io\<lparr>io_read := io_read io + n\<rparr>))"

text \<open>One pass through the loop of \<open>minute_httpd_in_read\<close>: it returns, calls itself (the tail
  recursion after a chunk header), or falls through to reading more input.\<close>

datatype in_move = In_return int "bytes option" httpd_response | In_again httpd_response | In_fill

definition in_read_pass :: "bytes option \<Rightarrow> unsigned \<Rightarrow> httpd_response \<Rightarrow> in_move c_loop" where
  "in_read_pass buf cnt r =
     (if 0 < r_pending r then
        if io_read (r_in r) < io_write (r_in r) then
          c_bind (c_step (take_in buf
              (if cnt < word_of_int (r_pending r) then cnt else word_of_int (r_pending r)) (r_in r)))
            (\<lambda>(n, buf, io). Some (Some (In_return n buf ((put_in io r)\<lparr>r_pending := r_pending r - n\<rparr>))))
        else Some (Some In_fill)
      else if flag_set (rq_flags (r_rq r)) http_transfer_chunked then
        c_bind (c_step (chunk_loop (if r_pending r = 0 then chunk_previous else chunk_size) 0 (r_in r)))
          (\<lambda>z. case z of
             Chunk_bad \<Rightarrow> Some (Some (In_return (-1) buf (r\<lparr>r_pending := PENDING_ERROR\<rparr>)))
           | Chunk_more \<Rightarrow> Some (Some In_fill)
           | Chunk_header val i \<Rightarrow>
               if val = 0 then
                 c_bind (minute_httpd_read_request ((put_in i r)\<lparr>r_pending := PENDING_EOF\<rparr>)
                     (minute_http_init_trailers MINUTE_ALL_HEADERS i))
                   (\<lambda>(status, r, s). Some (Some (In_return (if status \<noteq> 0 then -1 else 0) buf r)))
               else Some (Some (In_again ((put_in i r)\<lparr>r_pending := sint val\<rparr>))))
      else Some (Some (In_return 0 buf (r\<lparr>r_pending := PENDING_EOF\<rparr>))))"

text \<open>The loop, from the entry of the function or from its head.\<close>

partial_function (option) in_read_loop ::
    "bool \<Rightarrow> bytes option \<Rightarrow> unsigned \<Rightarrow> httpd_response \<Rightarrow> (int \<times> bytes option \<times> httpd_response) c_loop" where
  "in_read_loop entry buf cnt r =
     (if entry \<and> r_pending r \<le> PENDING_EOF then Some (Some (0, buf, r))
      else c_bind (in_read_pass buf cnt r) (\<lambda>z. case z of
          In_return n buf' r' \<Rightarrow> Some (Some (n, buf', r'))
        | In_again r' \<Rightarrow> in_read_loop True buf cnt r'
        | In_fill \<Rightarrow> c_bind (c_step (fill_in r)) (\<lambda>(k, r).
            if k = 0 \<and> at_eof (r_in r) then Some (Some (0, buf, r\<lparr>r_pending := PENDING_EOF\<rparr>))
            else in_read_loop False buf cnt r)))"

declare in_read_loop.simps [code]

definition minute_httpd_in_read ::
    "bytes option \<Rightarrow> unsigned \<Rightarrow> httpd_response \<Rightarrow> (int \<times> bytes option \<times> httpd_response) c_loop" where
  "minute_httpd_in_read buf cnt r = in_read_loop True buf cnt r"

partial_function (option) minute_httpd_in_discard :: "httpd_response \<Rightarrow> httpd_response c_loop" where
  "minute_httpd_in_discard r =
     c_bind (minute_httpd_in_read None (io_mask (r_in r) + 1) r) (\<lambda>(n, buf, r).
       if 0 < n then minute_httpd_in_discard r else Some (Some r))"

declare minute_httpd_in_discard.simps [code]

end
