(* ===== verification/Httpd_Out.thy ===== *)
theory Httpd_Out
  imports Httpd_In Http_Headers
begin

text \<open>
  The output side of \<open>src/libhttpd/httpd.c\<close>: the buffered output with its chunks, the header
  lines and the standard body.  Formatting (\<open>printf\<close>) is written out for the conversions the
  source uses; the calendar (\<open>gmtime_r\<close>) is an argument.
\<close>

section \<open>Formatting\<close>

definition digit_char :: "nat \<Rightarrow> char" where
  "digit_char n = char_of (if n < 10 then 48 + n else 87 + n)"

fun to_base :: "nat \<Rightarrow> nat \<Rightarrow> string" where
  "to_base b n = (if n < b \<or> b < 2 then [digit_char n] else to_base b (n div b) @ [digit_char (n mod b)])"

declare to_base.simps [simp del]

text \<open>The conversions \<open>%x\<close>, \<open>%d\<close> and \<open>%02d\<close>.\<close>

definition fmt_x :: "nat \<Rightarrow> string" where
  "fmt_x n = to_base 16 n"

definition fmt_d :: "int \<Rightarrow> string" where
  "fmt_d i = (if i < 0 then ''-'' @ to_base 10 (nat (- i)) else to_base 10 (nat i))"

definition fmt_02d :: "int \<Rightarrow> string" where
  "fmt_02d i = (if 0 \<le> i \<and> i < 10 then ''0'' @ fmt_d i else fmt_d i)"

text \<open>The block \<open>snprintf\<close> leaves behind: what fits of the text, and a NUL.\<close>

definition snprintf_block :: "nat \<Rightarrow> string \<Rightarrow> bytes" where
  "snprintf_block n s = take (n - 1) s @ [NUL]"

definition NL :: string where "NL = [CHR 0x0D, CHR 0x0A]"

section \<open>Head flags\<close>

definition httpd_te_chunked :: unsigned where "httpd_te_chunked = 1"
definition httpd_connection_keep :: unsigned where "httpd_connection_keep = 2 OR httpd_te_chunked"

section \<open>Output\<close>

definition put_out :: "iobuf \<Rightarrow> httpd_response \<Rightarrow> httpd_response" where
  "put_out io r = r\<lparr>r_state := (r_state r)\<lparr>st_out := io\<rparr>\<rparr>"

definition hang_up :: "httpd_response \<Rightarrow> httpd_response" where
  "hang_up r = r\<lparr>r_state := (r_state r)\<lparr>st_outfd := -1\<rparr>\<rparr>"

text \<open>A write to the output descriptor.\<close>

definition send_out :: "bytes \<Rightarrow> httpd_response \<Rightarrow> int \<times> httpd_response" where
  "send_out xs r = (case writev (st_outfd (r_state r)) xs (r_world r) of (n, w) \<Rightarrow> (n, r\<lparr>r_world := w\<rparr>))"

definition minute_httpd_chunk_end :: "httpd_response \<Rightarrow> httpd_response" where
  "minute_httpd_chunk_end r =
     (if flag_set (r_flags r) httpd_te_chunked then
        (case send_out (''0'' @ NL @ NL) r of (n, r') \<Rightarrow> if n < 0 then hang_up r' else r')
      else r)"

text \<open>The vector of a chunk: the size line, the two pieces of the buffer, the new bytes and the
  line end.  The size line sits in a block of 8 bytes.\<close>

definition chunk_prefix :: "bool \<Rightarrow> unsigned \<Rightarrow> string" where
  "chunk_prefix chunked n = (if chunked then fmt_x (unat n) @ NL else [])"

definition chunk_vector :: "bytes \<Rightarrow> unsigned \<Rightarrow> bool \<Rightarrow> iobuf \<Rightarrow> bytes option" where
  "chunk_vector buf cnt chunked io =
     (let size_line = chunk_prefix chunked (minute_iobuf_used io + cnt)
      in case minute_iobuf_gather io of (k, A, B) \<Rightarrow> do {
        p \<leftarrow> mem_slice (snprintf_block 8 size_line) 0 (length size_line);
        xs \<leftarrow> mem_slice (io_data io) (fst A) (snd A);
        ys \<leftarrow> mem_slice (io_data io) (fst B) (snd B);
        zs \<leftarrow> mem_slice buf 0 (unat cnt);
        Some (p @ xs @ ys @ zs @ (if chunked then NL else []))
      })"

partial_function (option) minute_httpd_chunk ::
    "bytes \<Rightarrow> unsigned \<Rightarrow> bool \<Rightarrow> httpd_response \<Rightarrow> (int \<times> httpd_response) c_loop" where
  "minute_httpd_chunk buf cnt chunked r =
     (let used = minute_iobuf_used (r_out r); tot = used + cnt;
          prefix = of_nat (length (chunk_prefix chunked tot))
      in if tot = 0 then Some (Some (0, r))
         else c_bind (c_step (chunk_vector buf cnt chunked (r_out r))) (\<lambda>v.
           case send_out v r of (n, r1) \<Rightarrow>
             if 0 < n then
               if word_of_int n < prefix then Some (Some (-1, r1))
               else
                 let taken = (if word_of_int n < prefix + used then word_of_int n - prefix else used);
                     cwritten = (if word_of_int n < prefix + used then 0 else word_of_int n - prefix - used);
                     r2 = put_out ((r_out r1)\<lparr>io_read := io_read (r_out r1) + taken\<rparr>) r1
                 in if word_of_int n < tot then
                      c_bind (minute_httpd_chunk (drop (unat cwritten) buf) (cnt - cwritten) False r2)
                        (\<lambda>(rr, r3). if rr < 1 then Some (Some (rr, r3)) else Some (Some (n + rr, r3)))
                    else Some (Some (n, r2))
             else Some (Some (n, hang_up r1))))"

declare minute_httpd_chunk.simps [code]

definition minute_httpd_flush :: "httpd_response \<Rightarrow> httpd_response c_loop" where
  "minute_httpd_flush r =
     c_bind (minute_httpd_chunk [] 0 (flag_set (r_flags r) httpd_te_chunked) r) (\<lambda>(n, r). Some (Some r))"

definition minute_httpd_output ::
    "bytes \<Rightarrow> unsigned \<Rightarrow> bool \<Rightarrow> httpd_response \<Rightarrow> (int \<times> httpd_response) c_loop" where
  "minute_httpd_output buf cnt chunked r =
     (if minute_iobuf_free (r_out r) < cnt then
        c_bind (minute_httpd_chunk buf cnt chunked r) (\<lambda>(n, r). Some (Some (sint cnt, r)))
      else c_bind (c_step (minute_iobuf_write buf cnt (r_out r)))
        (\<lambda>(n, io). Some (Some (sint cnt, put_out io r))))"

definition minute_httpd_print :: "string \<Rightarrow> bool \<Rightarrow> httpd_response \<Rightarrow> (int \<times> httpd_response) c_loop" where
  "minute_httpd_print text chunked r = minute_httpd_output text (of_nat (length text)) chunked r"

definition minute_httpd_write :: "bytes \<Rightarrow> unsigned \<Rightarrow> httpd_response \<Rightarrow> (int \<times> httpd_response) c_loop" where
  "minute_httpd_write buf cnt r =
     minute_httpd_output buf cnt (flag_set (r_flags r) httpd_te_chunked) r"

section \<open>Header lines\<close>

definition minute_httpd_header ::
    "http_response_header \<Rightarrow> string \<Rightarrow> httpd_response \<Rightarrow> httpd_response c_loop" where
  "minute_httpd_header header value r =
     c_bind (minute_httpd_print (response_header_name header) False r) (\<lambda>(n, r).
     c_bind (minute_httpd_output '': '' 2 False r) (\<lambda>(n, r).
     c_bind (minute_httpd_print value False r) (\<lambda>(n, r).
     c_bind (minute_httpd_output NL 2 False r) (\<lambda>(n, r). Some (Some r)))))"

text \<open>\<open>struct tm\<close>, as \<open>gmtime_r\<close> fills it in.\<close>

record tm =
  tm_sec  :: int
  tm_min  :: int
  tm_hour :: int
  tm_mday :: int
  tm_mon  :: int
  tm_year :: int
  tm_wday :: int

definition day_names :: "string list" where
  "day_names = [''Sun'', ''Mon'', ''Tue'', ''Wed'', ''Thu'', ''Fri'', ''Sat'']"

definition month_names :: "string list" where
  "month_names = [''Jan'', ''Feb'', ''Mar'', ''Apr'', ''May'', ''Jun'', ''Jul'', ''Aug'', ''Sep'', ''Oct'',
     ''Nov'', ''Dec'']"

definition minute_rfc_date :: "(int \<Rightarrow> tm) \<Rightarrow> int \<Rightarrow> string" where
  "minute_rfc_date gmtime t =
     (let tm = gmtime t in take 31
        (day_names ! nat (tm_wday tm) @ '', '' @ fmt_02d (tm_mday tm) @ '' '' @ month_names ! nat (tm_mon tm)
         @ '' '' @ fmt_d (1900 + tm_year tm) @ '' '' @ fmt_02d (tm_hour tm) @ '':'' @ fmt_02d (tm_min tm)
         @ '':'' @ fmt_02d (tm_sec tm) @ '' GMT''))"

definition minute_httpd_header_timestamp ::
    "(int \<Rightarrow> tm) \<Rightarrow> http_response_header \<Rightarrow> unsigned \<Rightarrow> httpd_response \<Rightarrow> httpd_response c_loop" where
  "minute_httpd_header_timestamp gmtime type epochtime r =
     minute_httpd_header type (minute_rfc_date gmtime (uint epochtime)) r"

definition standard_body_text :: "int \<Rightarrow> string" where
  "standard_body_text status =
     (let msg = minute_http_response_text status
      in ''<html><head><title>'' @ fmt_d status @ '' '' @ msg @ ''</title></head><body><h1>''
         @ fmt_d status @ '' '' @ msg @ ''</h1></body></html>'' @ [CHR 0x0A])"

definition minute_httpd_standard_body :: "int \<Rightarrow> httpd_response \<Rightarrow> httpd_response c_loop" where
  "minute_httpd_standard_body status r =
     c_bind (c_step (minute_iobuf_printf (standard_body_text status) (r_out r)))
       (\<lambda>(n, io). Some (Some (put_out io r)))"

end
