(* ===== verification/Httpd.thy ===== *)
theory Httpd
  imports Httpd_Out
begin

text \<open>
  One request of \<open>src/libhttpd/httpd.c\<close>, \<open>minute_httpd_handle\<close>: read and parse it, let the
  application choose the status and the headers, send the response, discard what is left of the
  payload and say whether the connection stays open.  The application's callbacks are a record
  of functions on the response and the application's own state.
\<close>

section \<open>The application\<close>

record 'u minute_httpd_app =
  app_header   :: "httpd_response \<Rightarrow> 'u \<Rightarrow> (int \<times> httpd_response \<times> 'u) c_loop"
  app_payload  :: "httpd_response \<Rightarrow> 'u \<Rightarrow> (int \<times> httpd_response \<times> 'u) c_loop"
  app_response :: "int \<Rightarrow> httpd_response \<Rightarrow> 'u \<Rightarrow> (int \<times> httpd_response \<times> 'u) c_loop"
  app_error    :: "minute_http_rq \<Rightarrow> int \<Rightarrow> 'u \<Rightarrow> 'u"

section \<open>The request\<close>

definition SERVER :: string where "SERVER = ''minuted/0.1''"

definition has_flags :: "unsigned \<Rightarrow> unsigned \<Rightarrow> bool" where
  "has_flags x f \<longleftrightarrow> x AND f = f"

definition minute_httpd_start :: "httpd_response \<Rightarrow> httpd_response" where
  "minute_httpd_start r =
     (let rq = r_rq r;
          flags = (if http_1_1 \<le> rq_server_protocol rq then
                     if \<not> flag_set (rq_flags rq) http_connection_close then httpd_connection_keep else 0
                   else if flag_set (rq_flags rq) http_connection_keep then httpd_connection_keep else 0);
          pending = (if flag_set (rq_flags rq) http_transfer_chunked then PENDING_INIT
                     else if flag_set (rq_flags rq) http_content_length then sint (rq_content_length rq)
                     else r_pending r)
      in r\<lparr>r_flags := flags, r_pending := pending\<rparr>)"

definition minute_httpd_init ::
    "int \<Rightarrow> int \<Rightarrow> iobuf \<Rightarrow> iobuf \<Rightarrow> textint \<Rightarrow> minute_httpd_state" where
  "minute_httpd_init readfd writefd io_in io_out text =
     \<lparr>st_in = io_in, st_out = io_out, st_text = text, st_infd = readfd, st_outfd = writefd\<rparr>"

text \<open>The status line, written directly to the descriptor, from a buffer of 64 bytes.\<close>

definition status_line :: "http_version \<Rightarrow> int \<Rightarrow> string" where
  "status_line v status =
     minute_http_version_text v @ '' '' @ fmt_d status @ '' '' @ minute_http_response_text status @ NL"

definition send_status :: "http_version \<Rightarrow> int \<Rightarrow> httpd_response \<Rightarrow> httpd_response c_loop" where
  "send_status v status r =
     (let line = status_line v status in
      c_bind (c_step (mem_slice (snprintf_block 64 line) 0 (length line))) (\<lambda>xs.
        case send_out xs r of (n, r') \<Rightarrow> Some (Some (if 0 \<ge> n then hang_up r' else r'))))"

text \<open>The two headers every response has.\<close>

definition standard_headers :: "(int \<Rightarrow> tm) \<Rightarrow> unsigned \<Rightarrow> httpd_response \<Rightarrow> httpd_response c_loop" where
  "standard_headers gmtime now r =
     c_bind (minute_httpd_header http_rsp_server SERVER r) (\<lambda>r.
       minute_httpd_header_timestamp gmtime http_rsp_date now r)"

text \<open>The answer to a request that could not be parsed.\<close>

definition handle_error ::
    "(int \<Rightarrow> tm) \<Rightarrow> unsigned \<Rightarrow> int \<Rightarrow> httpd_response \<Rightarrow> httpd_response c_loop" where
  "handle_error gmtime now status r =
     c_bind (send_status (rq_server_protocol (r_rq r)) status r) (\<lambda>r.
     c_bind (standard_headers gmtime now (r\<lparr>r_flags := 0\<rparr>)) (\<lambda>r.
     c_bind (if rq_server_protocol (r_rq r) = http_1_1
             then minute_httpd_header http_rsp_connection ''close'' r else Some (Some r)) (\<lambda>r.
     c_bind (minute_httpd_chunk NL 2 False r) (\<lambda>(n, r).
     c_bind (minute_httpd_standard_body status r) (\<lambda>r.
     c_bind (minute_httpd_flush r) (\<lambda>r.
       Some (Some (minute_httpd_chunk_end r))))))))"

text \<open>The application's choice of a status: the header callback, and the payload callback when
  that answered 100.\<close>

definition handle_status ::
    "'u minute_httpd_app \<Rightarrow> httpd_response \<Rightarrow> 'u \<Rightarrow> (int \<times> httpd_response \<times> 'u) c_loop" where
  "handle_status app r u =
     c_bind (app_header app r u) (\<lambda>(status, r, u).
       if status = 100 then
         c_bind (if flag_set (rq_flags (r_rq r)) http_expect_continue
                 then send_status (rq_server_protocol (r_rq r)) status r else Some (Some r)) (\<lambda>r.
           app_payload app r u)
       else Some (Some (status, r, u)))"

text \<open>The Connection and Transfer-Encoding headers.\<close>

definition handle_connection :: "httpd_response \<Rightarrow> httpd_response c_loop" where
  "handle_connection r =
     c_bind (if has_flags (r_flags r) httpd_connection_keep then
               if rq_server_protocol (r_rq r) < http_1_1
               then minute_httpd_header http_rsp_connection ''keep-alive'' r else Some (Some r)
             else if rq_server_protocol (r_rq r) = http_1_1
               then minute_httpd_header http_rsp_connection ''close'' r else Some (Some r)) (\<lambda>r.
       if flag_set (r_flags r) httpd_te_chunked
       then minute_httpd_header http_rsp_transfer_encoding ''chunked'' r else Some (Some r))"

text \<open>The body of the response.  \<open>headermark\<close> is taken after the callback has written.\<close>

definition handle_body ::
    "'u minute_httpd_app \<Rightarrow> int \<Rightarrow> httpd_response \<Rightarrow> 'u \<Rightarrow> (httpd_response \<times> 'u) c_loop" where
  "handle_body app status r u =
     (if rq_request_method (r_rq r) = http_head \<or> status \<in> {204, 205, 304} then Some (Some (r, u))
      else c_bind (app_response app status r u) (\<lambda>(response, r, u).
        let headermark = io_write (r_out r) in
        if response \<noteq> 0 \<and> io_write (r_out r) = headermark then
          c_bind (minute_httpd_standard_body status r) (\<lambda>r. Some (Some (r, u)))
        else Some (Some (r, u))))"

definition httpd_client_ok_open :: int where "httpd_client_ok_open = 0"
definition httpd_client_ok_close :: int where "httpd_client_ok_close = 1"
definition httpd_client_no_request :: int where "httpd_client_no_request = 2"

text \<open>A request that was parsed.\<close>

definition handle_request ::
    "'u minute_httpd_app \<Rightarrow> (int \<Rightarrow> tm) \<Rightarrow> unsigned \<Rightarrow> httpd_response \<Rightarrow> 'u
     \<Rightarrow> (int \<times> httpd_response \<times> 'u) c_loop" where
  "handle_request app gmtime now r u =
     (let version = rq_server_protocol (r_rq r) in
      c_bind (standard_headers gmtime now (minute_httpd_start r)) (\<lambda>r.
      c_bind (handle_status app r u) (\<lambda>(status, r, u).
      c_bind (send_status version status r) (\<lambda>r.
      c_bind (handle_connection r) (\<lambda>r.
      c_bind (minute_httpd_chunk NL 2 False r) (\<lambda>(n, r).
      c_bind (handle_body app status r u) (\<lambda>(r, u).
      c_bind (minute_httpd_flush r) (\<lambda>r.
      c_bind (minute_httpd_in_discard (minute_httpd_chunk_end r)) (\<lambda>r.
        Some (Some (if has_flags (r_flags r) httpd_connection_keep
                    then httpd_client_ok_open else httpd_client_ok_close, r, u)))))))))))"

definition minute_httpd_handle ::
    "'u minute_httpd_app \<Rightarrow> (int \<Rightarrow> tm) \<Rightarrow> unsigned \<Rightarrow> minute_httpd_state \<Rightarrow> world \<Rightarrow> 'u
     \<Rightarrow> (int \<times> minute_httpd_state \<times> world \<times> 'u) c_loop" where
  "minute_httpd_handle app gmtime now state w u =
     (let state = state\<lparr>st_out := minute_iobuf_clear (st_out state),
                        st_text := minute_textint_clear (st_text state)\<rparr>
      in c_bind (c_step (minute_http_init MINUTE_ALL_HEADERS (st_in state) (st_text state))) (\<lambda>(s, text).
         c_bind (minute_httpd_read_request
             \<lparr>r_state = state\<lparr>st_text := text\<rparr>, r_rq = zero_rq, r_flags = 0, r_pending = 0, r_world = w\<rparr> s)
           (\<lambda>(status, r, s).
             if status < 0 then Some (Some (httpd_client_no_request, r_state r, r_world r, u))
             else if status \<noteq> 0 then
               c_bind (handle_error gmtime now status r) (\<lambda>r.
                 Some (Some (- status, r_state r, r_world r, app_error app (r_rq r) status u)))
             else
               c_bind (handle_request app gmtime now r u) (\<lambda>(code, r, u).
                 Some (Some (code, r_state r, r_world r, u))))))"

end
