(* ===== verification/Httpd_Request.thy ===== *)
theory Httpd_Request
  imports Httpd_In
begin

text \<open>
  What \<open>minute_httpd_read_request\<close> makes of the bytes of a connection: it comes to an end, and
  its answer is that of scanning the whole stream, however \<open>readv\<close> delivers it, unless the
  buffer runs full or the connection fails (414), or ends first (-1).
\<close>

section \<open>The stream behind a descriptor\<close>

fun stream :: "rd_event list \<Rightarrow> bytes" where
  "stream [] = []"
| "stream (Recv xs # es) = xs @ stream es"
| "stream (Rd_fail # es) = []"

fun fails :: "rd_event list \<Rightarrow> bool" where
  "fails [] = False"
| "fails (Recv xs # es) = fails es"
| "fails (Rd_fail # es) = True"

text \<open>A \<open>readv\<close> that delivers nothing is the end of the input, so events carry bytes.\<close>

definition events_ok :: "rd_event list \<Rightarrow> bool" where
  "events_ok es \<longleftrightarrow> Recv [] \<notin> set es"

fun event_bytes :: "rd_event list \<Rightarrow> nat" where
  "event_bytes [] = 0"
| "event_bytes (Recv xs # es) = length xs + event_bytes es"
| "event_bytes (Rd_fail # es) = 1 + event_bytes es"

lemma fill_in_cases:
  assumes "iobuf_ok (r_in r)" "events_ok (w_in (r_world r))"
  obtains (full) "iobuf_room (r_in r) = 0" "fill_in r = Some (-1, r)"
  | (closed) "w_in (r_world r) = []"
      "fill_in r = Some (0, put_in ((r_in r)\<lparr>io_flags := io_flags (r_in r) OR IOBUF_EOF\<rparr>) r)"
  | (failed) es r' where "w_in (r_world r) = Rd_fail # es" "fill_in r = Some (-1, r')"
  | (filled) n xs es where "0 < n" "n = length xs" "n \<le> iobuf_room (r_in r)" "events_ok es"
      "stream (w_in (r_world r)) = xs @ stream es" "fails (w_in (r_world r)) = fails es"
      "event_bytes (w_in (r_world r)) = n + event_bytes es"
      "fill_in r = Some (int n, (put_in (iobuf_fill xs (r_in r)) r)\<lparr>r_world := (r_world r)\<lparr>w_in := es\<rparr>\<rparr>)"
proof (cases "iobuf_room (r_in r) = 0")
  case True
  then show ?thesis
    using minute_iobuf_readfd_full [OF assms(1) True, of "w_in (r_world r)"] full
    by (simp add: fill_in_def put_in_def)
next
  case False
  note eq = minute_iobuf_readfd_eq [OF assms(1) False, of "w_in (r_world r)"]
  show ?thesis
  proof (cases "w_in (r_world r)")
    case Nil
    then show ?thesis using closed eq by (simp add: fill_in_def put_in_def)
  next
    case (Cons e es)
    show ?thesis
    proof (cases e)
      case Rd_fail
      then show ?thesis using failed eq Cons by (simp add: fill_in_def)
    next
      case (Recv xs)
      then have xs: "xs \<noteq> []" "events_ok es" using assms(2) Cons by (auto simp: events_ok_def)
      show ?thesis
      proof (cases "length xs \<le> iobuf_room (r_in r)")
        case True
        then show ?thesis
          using filled [of "length xs" xs es] eq Cons Recv xs by (simp add: fill_in_def)
      next
        case part: False
        let ?m = "iobuf_room (r_in r)"
        have "events_ok (Recv (drop ?m xs) # es)" using part xs(2) by (auto simp: events_ok_def)
        then show ?thesis
          using filled [of ?m "take ?m xs" "Recv (drop ?m xs) # es"] eq Cons Recv part False
          by (simp add: fill_in_def)
      qed
    qed
  qed
qed

section \<open>Counters that do not wrap around\<close>

lemma unwrapped_less:
  assumes "iobuf_unwrapped io"
  shows "io_read io < io_write io \<longleftrightarrow> iobuf_bytes io \<noteq> []"
proof -
  have "unat (io_read io) \<le> unat (io_write io)"
    using assms by (simp add: iobuf_unwrapped_def word_le_nat_alt)
  then show ?thesis
    using used_unwrapped [OF assms] length_iobuf_bytes [of io]
    by (cases "iobuf_bytes io") (auto simp: word_less_nat_alt)
qed

lemma skip_unwrapped:
  assumes "iobuf_unwrapped io" "k \<le> length (iobuf_bytes io)"
  shows "iobuf_unwrapped (iobuf_skip k io)"
proof -
  have k: "k \<le> unat (io_write io) - unat (io_read io)"
    using assms(2) used_unwrapped [OF assms(1)] by (simp add: length_iobuf_bytes)
  have le: "unat (io_read io) \<le> unat (io_write io)"
    using assms(1) by (simp add: iobuf_unwrapped_def word_le_nat_alt)
  have u: "unat (of_nat k :: unsigned) = k"
    using k unat_of_nat_le [of k "io_write io"] by simp
  have "unat (io_read io + of_nat k) = unat (io_read io) + k"
    using unat_add_small [of "io_read io" "of_nat k"] u k le unat_less_32 [of "io_write io"] by simp
  then show ?thesis using k le by (simp add: iobuf_unwrapped_def iobuf_skip_def word_le_nat_alt)
qed

lemma fill_unwrapped:
  assumes "iobuf_unwrapped io" "unat (io_write io) + length xs < 2 ^ 31"
  shows "iobuf_unwrapped (iobuf_fill xs io)" "unat (io_write (iobuf_fill xs io)) = unat (io_write io) + length xs"
proof -
  have u: "unat (of_nat (length xs) :: unsigned) = length xs"
    using assms(2) by (intro unat_of_nat_small) simp
  then show w: "unat (io_write (iobuf_fill xs io)) = unat (io_write io) + length xs"
    using assms(2) by (simp add: unat_add_small)
  then show "iobuf_unwrapped (iobuf_fill xs io)"
    using assms(1) by (simp add: iobuf_unwrapped_def word_le_nat_alt)
qed

text \<open>The connection delivers what it has, and the counter of the input buffer has room for it.\<close>

definition carries :: "httpd_response \<Rightarrow> bool" where
  "carries r \<longleftrightarrow> iobuf_unwrapped (r_in r) \<and> events_ok (w_in (r_world r)) \<and> \<not> fails (w_in (r_world r))
     \<and> unat (io_write (r_in r)) + event_bytes (w_in (r_world r)) < 2 ^ 31"

section \<open>One call of the parser\<close>

fun scan_rest :: "bytes \<Rightarrow> http_ctx \<Rightarrow> bytes" where
  "scan_rest [] x = []"
| "scan_rest (ch # cs) x =
     (case http_char (char_int ch) x of
        Break y \<Rightarrow> if 1 < s_nl y then cs else scan_rest cs (next_char y)
      | _ \<Rightarrow> cs)"

lemma scan_rest_append:
  "http_scan False xs x = Done k y \<Longrightarrow> scan_rest (xs @ ys) x = scan_rest xs x @ ys"
  "http_scan False xs x = Wants z \<Longrightarrow> scan_rest (xs @ ys) x = scan_rest ys z"
  by (induction xs arbitrary: x) (auto split: ctrl.splits if_splits)

lemma scan_rest_position:
  "http_inv x \<Longrightarrow> fold_safe cs x \<Longrightarrow> http_scan False cs x = Done 0 y
   \<Longrightarrow> \<exists>i \<le> length cs. s_m y = s_m x + of_nat i \<and> scan_rest cs x = drop i cs"
proof (induction cs arbitrary: x)
  case (Cons ch cs)
  then have ok: "char_ok (char_int ch) x (http_char (char_int ch) x)" by (intro http_char_ok) auto
  show ?case
  proof (cases "http_char (char_int ch) x")
    case (Break z)
    then have z: "s_m z = s_m x" "http_inv (next_char z)" using ok by (auto simp: break_ok_def stays_def)
    show ?thesis
    proof (cases "1 < s_nl z")
      case True
      then show ?thesis using Break z Cons.prems(3) by (intro exI [of _ 1]) auto
    next
      case False
      then obtain i where "i \<le> length cs" "s_m y = s_m (next_char z) + of_nat i"
          "scan_rest cs (next_char z) = drop i cs"
        using Cons.IH [of "next_char z"] Cons.prems Break z by auto
      then show ?thesis using Break False z by (intro exI [of _ "Suc i"]) auto
    qed
  next
    case (Return k z)
    then show ?thesis using ok Cons.prems(3) by (auto simp: return_ok_def error_codes_def)
  qed (use ok in simp_all)
qed simp

lemma scan_rest_upd:
  "http_inv x \<Longrightarrow> fold_safe cs x \<Longrightarrow> resumable x \<Longrightarrow> scan_rest cs (upd f t x) = scan_rest cs x"
proof (induction cs arbitrary: x f)
  case (Cons ch cs)
  then have st: "\<not> stale_fold (char_int ch) x" by simp
  obtain g where g: "http_char (char_int ch) (upd f t x) = ctrl_map (upd g t) (http_char (char_int ch) x)"
    using http_char_upd [OF Cons.prems(1) st, of f t] Cons.prems(3) by (auto simp: resumable_def)
  have ok: "char_ok (char_int ch) x (http_char (char_int ch) x)"
    by (rule http_char_ok [OF Cons.prems(1) st])
  show ?case
  proof (cases "http_char (char_int ch) x")
    case (Break y)
    then have y: "http_inv (next_char y)" "resumable (next_char y)"
      using ok by (auto simp: break_ok_def resumable_def next_char_def [of y] simp flip: next_char_inv [of y])
    show ?thesis
    proof (cases "1 < s_nl y")
      case False
      then have "fold_safe cs (next_char y)" using Cons.prems(2) Break by simp
      then show ?thesis using Cons.IH [OF y(1) _ y(2), of g] Break False g by (simp add: next_char_upd)
    qed (use g Break in simp)
  qed (use g in auto)
qed simp

text \<open>Where the parser stands: the response and the parser state give the context of a scan.\<close>

definition parse_ctx :: "httpd_response \<Rightarrow> minute_http_rqs \<Rightarrow> http_ctx" where
  "parse_ctx r s = http_enter (r_rq r) s (r_in r) (r_text r)"

definition parse_ok :: "httpd_response \<Rightarrow> minute_http_rqs \<Rightarrow> bool" where
  "parse_ok r s \<longleftrightarrow> reader_ok s (r_in r) (r_text r) \<and> \<not> at_eof (r_in r)"

lemma parse_in_cases:
  assumes "parse_ok r s" "unfolded (s_st s = h_nl) (unread s (r_in r))"
  obtains (wait) y r' where "http_scan False (unread s (r_in r)) (parse_ctx r s) = Wants y"
      "parse_in r s = Some (Some (EAGAIN, r', left_off y))" "parse_ok r' (left_off y)"
      "unread (left_off y) (r_in r') = []" "r_world r' = r_world r"
      "parse_ctx r' (left_off y) = upd None (c_tstate y) y" "http_inv y" "resumable y"
      "iobuf_ok (r_in r')" "iobuf_size (r_in r') = iobuf_size (r_in r)"
      "length (iobuf_bytes (r_in r')) \<le> length (iobuf_bytes (r_in r))" "carries r \<Longrightarrow> carries r'"
  | (answer) k y r' s' where "http_scan False (unread s (r_in r)) (parse_ctx r s) = Done k y"
      "parse_in r s = Some (Some (k, r', s'))" "k \<in> insert 0 error_codes" "r_rq r' = c_rq y"
      "r_text r' = c_text y" "r_world r' = r_world r" "textint_ok (r_text r')"
      "k = 0 \<Longrightarrow> iobuf_ok (r_in r') \<and> iobuf_bytes (r_in r') = scan_rest (unread s (r_in r)) (parse_ctx r s)"
      "k = 0 \<Longrightarrow> carries r \<Longrightarrow> carries r'"
proof -
  have ro: "reader_ok s (r_in r) (r_text r)" and ne: "\<not> at_eof (r_in r)"
    using assms(1) by (auto simp: parse_ok_def)
  have inv: "http_inv (parse_ctx r s)"
    using ro http_inv_enter(1) [of zero_rq s "r_in r" "r_text r"]
    unfolding reader_ok_def parse_ctx_def by blast
  note read = minute_http_read_scan [OF ro assms(2), of "r_rq r"]
  show ?thesis
  proof (cases "http_scan False (unread s (r_in r)) (parse_ctx r s)")
    case (Wants y)
    note v = read(2) [folded parse_ctx_def, simplified ne Wants, unfolded parse_ctx_def]
    let ?io = "(r_in r)\<lparr>io_read := c_b y\<rparr>"
    let ?r = "r\<lparr>r_rq := c_rq y, r_state := (r_state r)\<lparr>st_in := ?io, st_text := c_text y\<rparr>\<rparr>"
    note after = reader_after_wait [OF ro v]
    have "parse_in r s = Some (Some (EAGAIN, ?r, left_off y))"
      using read(1) ne Wants by (simp add: parse_in_def parse_ctx_def http_leave_def left_off_def)
    moreover have "http_inv y" "resumable y"
      using v http_inv_enter(2) [of zero_rq s "r_in r" "r_text r"] ro
      by (auto simp: verdict_ok_def reader_ok_def)
    moreover have "parse_ctx ?r (left_off y) = upd None (c_tstate y) y"
      using enter_left_off [of ?io y] by (simp add: parse_ctx_def)
    moreover have "parse_ok ?r (left_off y)" "iobuf_ok ?io"
      using after(1) ne by (simp_all add: parse_ok_def at_eof_def reader_ok_def)
    moreover obtain j where j: "j \<le> unat (minute_iobuf_used (r_in r))" "?io = iobuf_skip j (r_in r)"
      using marked_skip [OF ro v] by metis
    then have "iobuf_size ?io = iobuf_size (r_in r)" "length (iobuf_bytes ?io) \<le> length (iobuf_bytes (r_in r))"
      "carries r \<Longrightarrow> carries ?r"
      using ring.skip_contents [of "r_in r" j] skip_unwrapped [of "r_in r" j] ro
      by (simp_all add: reader_ok_def length_iobuf_bytes carries_def)
    ultimately show ?thesis using wait [OF Wants, of ?r] after(3) by simp
  next
    case (Done k y)
    note v = read(2) [folded parse_ctx_def, simplified ne Done]
    obtain s' io' where leave: "http_leave s (r_in r) k y = (k, c_rq y, s', io', c_text y)"
        "k = 0 \<Longrightarrow> io' = (r_in r)\<lparr>io_read := s_m y\<rparr>"
      using v by (cases "k = 0") (auto simp: http_leave_def verdict_ok_def EAGAIN_def error_codes_def)
    let ?r = "r\<lparr>r_rq := c_rq y, r_state := (r_state r)\<lparr>st_in := io', st_text := c_text y\<rparr>\<rparr>"
    have p: "parse_in r s = Some (Some (k, ?r, s'))"
      using read(1) ne Done leave(1) by (simp add: parse_in_def parse_ctx_def)
    have k: "k \<in> insert 0 error_codes" "textint_ok (c_text y)"
      using v by (auto simp: verdict_ok_def text_inv_def)
    have "iobuf_ok io' \<and> iobuf_bytes io' = scan_rest (unread s (r_in r)) (parse_ctx r s) \<and> (carries r \<longrightarrow> carries ?r)"
      if "k = 0"
    proof -
      let ?n = "unat (s_m s - io_read (r_in r))"
      have safe: "fold_safe (unread s (r_in r)) (parse_ctx r s)"
        by (rule unfolded_fold_safe [OF inv]) (use assms(2) in \<open>simp add: parse_ctx_def\<close>)
      from scan_rest_position [OF inv safe Done [unfolded that]] obtain i where
        i: "i \<le> length (unread s (r_in r))" "s_m y = s_m s + of_nat i"
          "scan_rest (unread s (r_in r)) (parse_ctx r s) = drop i (unread s (r_in r))"
        by (auto simp: parse_ctx_def)
      have "io' = iobuf_skip (?n + i) (r_in r)"
        using leave(2) [OF that] i(2) by (simp add: iobuf_skip_def)
      moreover have "?n + i \<le> unat (minute_iobuf_used (r_in r))"
        using i(1) length_unread [OF ro] ro unfolding reader_ok_def by linarith
      ultimately show ?thesis
        using ro i(3) ring.skip_ok [of "r_in r" "?n + i"] ring.skip_contents [of "r_in r" "?n + i"]
          skip_unwrapped [of "r_in r" "?n + i"]
        by (simp add: reader_ok_def length_iobuf_bytes unread_def add.commute carries_def)
    qed
    then show ?thesis using answer [OF Done p] k by simp
  qed (use read(2) ne in \<open>simp add: verdict_ok_def parse_ctx_def\<close>)
qed


section \<open>The loop over the connection\<close>

text \<open>The answer of a loop that starts with a context and a stream: whether a read is going to fail,
  and whether the stream is larger than the buffer, decide if it may give up.\<close>

abbreviation overlong :: "httpd_response \<Rightarrow> bool" where
  "overlong r \<equiv> iobuf_size (r_in r) \<le> length (iobuf_bytes (r_in r)) + length (stream (w_in (r_world r)))"

definition request_answer ::
    "http_ctx \<Rightarrow> bytes \<Rightarrow> bool \<Rightarrow> bool \<Rightarrow> int \<Rightarrow> httpd_response \<Rightarrow> bool" where
  "request_answer x bs failing big status r' \<longleftrightarrow>
     status = 414 \<and> (failing \<or> big \<and> iobuf_room (r_in r') = 0)
     \<or> status = -1 \<and> \<not> failing \<and> w_in (r_world r') = [] \<and> (\<exists>y. http_scan False bs x = Wants y)
     \<or> (\<exists>y. http_scan False bs x = Done (nat status) y \<and> status \<in> insert 0 (int ` error_codes)
         \<and> r_rq r' = c_rq y \<and> r_text r' = c_text y
         \<and> (status = 0 \<longrightarrow> iobuf_ok (r_in r')
             \<and> iobuf_bytes (r_in r') @ stream (w_in (r_world r')) = scan_rest bs x))"

lemma request_answer_upd:
  assumes "http_inv x" "fold_safe bs x" "resumable x" "request_answer (upd None ts x) bs fl big st r'"
  shows "request_answer x bs fl big st r'"
proof -
  have v: "same_verdict ts (http_scan False bs x) (http_scan False bs (upd None ts x))"
    by (rule scan_upd [OF assms(1,2)]) (use assms(3) in \<open>simp add: resumable_def\<close>)
  show ?thesis
    using assms(4) v scan_rest_upd [OF assms(1-3), of None ts]
    by (cases "http_scan False bs x") (auto simp: request_answer_def)
qed

lemma request_answer_mono:
  "request_answer x bs fl big st r' \<Longrightarrow> (big \<Longrightarrow> big') \<Longrightarrow> request_answer x bs fl big' st r'"
  by (auto simp: request_answer_def)

lemma request_answer_more:
  "http_scan False xs x = Wants y \<Longrightarrow> request_answer y ys fl big st r' \<Longrightarrow> request_answer x (xs @ ys) fl big st r'"
  using scan_append [of False xs ys x] scan_rest_append(2) [of xs x y ys]
  by (auto simp: request_answer_def)

lemma request_answer_done:
  assumes "http_scan False xs x = Done k y" "k \<in> insert 0 error_codes" "r_rq r' = c_rq y"
    "r_text r' = c_text y" "stream (w_in (r_world r')) = ys"
    "k = 0 \<Longrightarrow> iobuf_ok (r_in r') \<and> iobuf_bytes (r_in r') = scan_rest xs x"
  shows "request_answer x (xs @ ys) fl big (int k) r'"
  using assms scan_append [of False xs ys x] scan_rest_append(1) [of xs x k y ys]
  by (auto simp: request_answer_def)

text \<open>What holds of the connection afterwards.\<close>

definition left_ok :: "int \<Rightarrow> httpd_response \<Rightarrow> httpd_response \<Rightarrow> bool" where
  "left_ok status r r' \<longleftrightarrow> textint_ok (r_text r') \<and> (status = 0 \<longrightarrow> carries r \<longrightarrow> carries r')"

text \<open>From the parser on: the buffer has been filled.\<close>

lemma loop_from_parser:
  assumes IH: "\<And>r1 s1. event_bytes (w_in (r_world r1)) = event_bytes (w_in (r_world r))
      \<Longrightarrow> events_ok (w_in (r_world r1)) \<Longrightarrow> parse_ok r1 s1 \<Longrightarrow> unread s1 (r_in r1) = []
      \<Longrightarrow> unfolded (s_st s1 = h_nl) (stream (w_in (r_world r1)))
      \<Longrightarrow> \<exists>st r' s'. read_request_loop False r1 s1 = Some (Some (st, r', s')) \<and> left_ok st r1 r'
            \<and> request_answer (parse_ctx r1 s1) (stream (w_in (r_world r1))) (fails (w_in (r_world r1))) (overlong r1) st r'"
    and ok: "parse_ok r s" "events_ok (w_in (r_world r))"
    and unf: "unfolded (s_st s = h_nl) (unread s (r_in r) @ stream (w_in (r_world r)))"
  shows "\<exists>st r' s'. c_bind (parse_in r s) (\<lambda>(code, r, s).
         if code = EAGAIN then read_request_loop False r s else Some (Some (int code, r, s)))
       = Some (Some (st, r', s')) \<and> left_ok st r r'
     \<and> request_answer (parse_ctx r s) (unread s (r_in r) @ stream (w_in (r_world r)))
         (fails (w_in (r_world r))) (overlong r) st r'"
proof -
  from ok(1) unfolded_append [OF unf] show ?thesis
  proof (cases rule: parse_in_cases)
    case (wait y r1)
    have inv: "http_inv (parse_ctx r s)"
      using ok(1) http_inv_enter(1) [of zero_rq s "r_in r" "r_text r"]
      unfolding parse_ok_def reader_ok_def parse_ctx_def by blast
    have u: "unfolded (s_st y = h_nl) (stream (w_in (r_world r)))"
      by (rule scan_line_start [OF inv _ wait(1)]) (use unf in \<open>simp add: parse_ctx_def\<close>)
    obtain st r' s' where r': "read_request_loop False r1 (left_off y) = Some (Some (st, r', s'))"
        "left_ok st r1 r'"
        "request_answer (upd None (c_tstate y) y) (stream (w_in (r_world r))) (fails (w_in (r_world r))) (overlong r) st r'"
      using IH [of r1 "left_off y"] wait(3-6,9-11) u ok(2) request_answer_mono [where big = "overlong r1"] by auto
    then have "request_answer y (stream (w_in (r_world r))) (fails (w_in (r_world r))) (overlong r) st r'"
      using request_answer_upd [OF wait(7) unfolded_fold_safe [OF wait(7) u] wait(8)] by blast
    then show ?thesis
      using r'(1,2) wait(1,2,12) request_answer_more by (auto simp: EAGAIN_def left_ok_def)
  next
    case (answer k y r' s')
    have "k \<noteq> EAGAIN" using answer(3) by (auto simp: error_codes_def EAGAIN_def)
    moreover have "request_answer (parse_ctx r s) (unread s (r_in r) @ stream (w_in (r_world r)))
         (fails (w_in (r_world r))) (overlong r) (int k) r'"
      by (rule request_answer_done [OF answer(1,3-5)]) (use answer(6,8) in auto)
    ultimately show ?thesis using answer(2,7,9) by (simp add: left_ok_def)
  qed
qed

lemma read_request_loop_answers:
  "parse_ok r s \<Longrightarrow> events_ok (w_in (r_world r)) \<Longrightarrow> (\<not> p \<Longrightarrow> unread s (r_in r) = [])
   \<Longrightarrow> unfolded (s_st s = h_nl) (unread s (r_in r) @ stream (w_in (r_world r)))
   \<Longrightarrow> \<exists>st r' s'. read_request_loop p r s = Some (Some (st, r', s')) \<and> left_ok st r r'
     \<and> request_answer (parse_ctx r s) (unread s (r_in r) @ stream (w_in (r_world r)))
         (fails (w_in (r_world r))) (overlong r) st r'"
proof (induction "2 * event_bytes (w_in (r_world r)) + (if p then 1 else 0)" arbitrary: r s p
    rule: less_induct)
  case less
  have pok: "reader_ok s (r_in r) (r_text r)" "iobuf_ok (r_in r)" "\<not> at_eof (r_in r)" "textint_ok (r_text r)"
    using less.prems(1) by (auto simp: parse_ok_def reader_ok_def http_inv_def text_inv_def)
  have IH: "\<exists>st r' s'. read_request_loop False r1 s1 = Some (Some (st, r', s')) \<and> left_ok st r1 r'
      \<and> request_answer (parse_ctx r1 s1) (stream (w_in (r_world r1))) (fails (w_in (r_world r1))) (overlong r1) st r'"
    if "event_bytes (w_in (r_world r1)) < event_bytes (w_in (r_world r))
        \<or> event_bytes (w_in (r_world r1)) = event_bytes (w_in (r_world r)) \<and> p"
      "events_ok (w_in (r_world r1))" "parse_ok r1 s1" "unread s1 (r_in r1) = []"
      "unfolded (s_st s1 = h_nl) (stream (w_in (r_world r1)))" for r1 s1
    using less.hyps [of r1 False s1] that by auto
  show ?case
  proof (cases p)
    case True
    have "read_request_loop p r s = c_bind (parse_in r s) (\<lambda>(code, r, s).
         if code = EAGAIN then read_request_loop False r s else Some (Some (int code, r, s)))"
      using True by (subst read_request_loop.simps) simp
    moreover have "\<exists>st r' s'. c_bind (parse_in r s) (\<lambda>(code, r, s).
         if code = EAGAIN then read_request_loop False r s else Some (Some (int code, r, s)))
       = Some (Some (st, r', s')) \<and> left_ok st r r'
     \<and> request_answer (parse_ctx r s) (unread s (r_in r) @ stream (w_in (r_world r)))
         (fails (w_in (r_world r))) (overlong r) st r'"
      by (rule loop_from_parser [OF IH less.prems(1,2,4)]) (use True in simp_all)
    ultimately show ?thesis by simp
  next
    case False
    then have un: "unread s (r_in r) = []" by (rule less.prems(3))
    from pok(2) less.prems(2) show ?thesis
    proof (cases rule: fill_in_cases)
      case full
      then show ?thesis
        using False pok(4) by (subst read_request_loop.simps) (auto simp: request_answer_def left_ok_def iobuf_room_def length_iobuf_bytes)
    next
      case closed
      then show ?thesis
        using False un pok(4)
        by (subst read_request_loop.simps)
          (auto simp: request_answer_def left_ok_def put_in_def at_eof_def IOBUF_EOF_def)
    next
      case (failed es r')
      then have "textint_ok (r_text r')"
        using pok(4) by (auto simp: fill_in_def put_in_def bind_eq_Some_conv)
      then show ?thesis
        using False failed by (subst read_request_loop.simps) (auto simp: request_answer_def left_ok_def)
    next
      case (filled n xs es)
      let ?r = "(put_in (iobuf_fill xs (r_in r)) r)\<lparr>r_world := (r_world r)\<lparr>w_in := es\<rparr>\<rparr>"
      have room: "unat (minute_iobuf_used (r_in r)) + length xs \<le> iobuf_size (r_in r)"
        using filled(1-3) unfolding iobuf_room_def by linarith
      have in': "r_in ?r = more_input xs (io_flags (r_in r)) (r_in r)"
        by (simp add: put_in_def more_input_def iobuf_fill_def)
      note more = more_input_reader [OF pok(1) room, of "io_flags (r_in r)", folded in']
      have ok': "parse_ok ?r s"
        using more(1) pok(3) by (simp add: parse_ok_def put_in_def at_eof_def)
      have ctx: "parse_ctx ?r s = parse_ctx r s"
        by (simp add: parse_ctx_def put_in_def http_enter_def)
      have step: "read_request_loop p r s = c_bind (parse_in ?r s) (\<lambda>(code, r, s).
         if code = EAGAIN then read_request_loop False r s else Some (Some (int code, r, s)))"
        using False filled(1,8) by (subst read_request_loop.simps) simp
      have un': "unread s (r_in ?r) = xs" using more(2) un by simp
      then have un2: "unread s (r_in (put_in (iobuf_fill xs (r_in r)) r)) = xs" by simp
      have w: "w_in (r_world ?r) = es" by simp
      have "\<exists>st r' s'. c_bind (parse_in ?r s) (\<lambda>(code, r, s).
         if code = EAGAIN then read_request_loop False r s else Some (Some (int code, r, s)))
       = Some (Some (st, r', s')) \<and> left_ok st ?r r'
     \<and> request_answer (parse_ctx ?r s) (unread s (r_in ?r) @ stream (w_in (r_world ?r)))
         (fails (w_in (r_world ?r))) (overlong ?r) st r'"
        by (rule loop_from_parser [OF IH ok'])
          (use filled less.prems(4) un in \<open>simp_all add: un2\<close>)
      moreover have "overlong r" if "overlong ?r"
      proof -
        have in2: "r_in ?r = iobuf_fill xs (r_in r)" by (simp add: put_in_def)
        show ?thesis
          using that ring.fill_contents [OF pok(2), of xs] room
          unfolding in2 w filled(5) by (simp add: length_iobuf_bytes)
      qed
      moreover have "carries ?r" if "carries r"
        using that filled(2,4,6,7) fill_unwrapped [of "r_in r" xs] by (simp add: carries_def put_in_def)
      ultimately show ?thesis
        unfolding step ctx un' w un filled(5,6)
        by (simp add: left_ok_def) (blast intro: request_answer_mono)
    qed
  qed
qed

text \<open>The output, the head flags, the pending count and the size of the input buffer are not touched.\<close>

definition same_but_in :: "httpd_response \<Rightarrow> httpd_response \<Rightarrow> bool" where
  "same_but_in r r' \<longleftrightarrow> r_out r' = r_out r \<and> st_outfd (r_state r') = st_outfd (r_state r)
     \<and> r_flags r' = r_flags r \<and> r_pending r' = r_pending r
     \<and> w_script (r_world r') = w_script (r_world r) \<and> w_sent (r_world r') = w_sent (r_world r)
     \<and> io_mask (r_in r') = io_mask (r_in r)"

lemma same_in_trans: "same_but_in r r' \<Longrightarrow> same_but_in r' r'' \<Longrightarrow> same_but_in r r''"
  by (simp add: same_but_in_def)

lemma same_in_refl [simp]: "same_but_in r r"
  by (simp add: same_but_in_def)

lemma fill_in_same: "fill_in r = Some (k, r') \<Longrightarrow> same_but_in r r'"
  by (auto simp: fill_in_def put_in_def same_but_in_def bind_eq_Some_conv minute_iobuf_readfd_def Let_def
      split: if_splits prod.splits)

lemma parse_in_same: "parse_in r s = Some (Some (k, r', s')) \<Longrightarrow> same_but_in r r'"
  by (auto simp: parse_in_def same_but_in_def c_bind_Some minute_http_read_def http_leave_def split: if_splits)

lemma read_request_same:
  assumes "minute_httpd_read_request r s = Some (Some (st, r', s'))"
  shows "same_but_in r r'"
proof -
  have "case z of Some (st, r', s') \<Rightarrow> same_but_in r r' | None \<Rightarrow> True"
    if "read_request_loop p r s = Some z" for p r s z
  proof (rule read_request_loop.raw_induct [OF _ that])
    fix f p r s z
    assume f: "\<And>p r s z. f p r s = Some z \<Longrightarrow> case z of Some (st, r', s') \<Rightarrow> same_but_in r r' | None \<Rightarrow> True"
      and z: "c_bind (if p then Some (Some (1, r)) else c_step (fill_in r)) (\<lambda>(k, r).
         if k < 0 then Some (Some (414, r, s))
         else if k = 0 \<and> at_eof (r_in r) then Some (Some (-1, r, s))
         else c_bind (parse_in r s) (\<lambda>(code, r, s).
           if code = EAGAIN then f False r s else Some (Some (int code, r, s)))) = Some z"
    show "case z of Some (st, r', s') \<Rightarrow> same_but_in r r' | None \<Rightarrow> True"
    proof (cases z)
      case (Some a)
      obtain st q t where a: "z = Some (st, q, t)" using Some by (cases a) auto
      have g: "f p' r1 s1 = Some (Some (st, q, t)) \<Longrightarrow> same_but_in r1 q" for p' r1 s1 using f by fastforce
      show ?thesis
        using z unfolding a
        by (auto simp: c_bind_Some c_step_Some split: if_splits
            dest!: fill_in_same parse_in_same g intro: same_in_trans)
    qed simp
  qed
  then show ?thesis using assms by (fastforce simp: minute_httpd_read_request_def)
qed

lemma read_request_ends:
  assumes "parse_ok r s" "s_m s = io_read (r_in r)" "events_ok (w_in (r_world r))"
    and "unfolded (s_st s = h_nl) (iobuf_bytes (r_in r) @ stream (w_in (r_world r)))"
  shows "\<exists>st r' s'. minute_httpd_read_request r s = Some (Some (st, r', s')) \<and> left_ok st r r'
    \<and> request_answer (parse_ctx r s) (iobuf_bytes (r_in r) @ stream (w_in (r_world r)))
        (fails (w_in (r_world r))) (overlong r) st r'"
proof -
  have un: "unread s (r_in r) = iobuf_bytes (r_in r)" using assms(2) by (simp add: unread_def)
  have "\<not> 0 < minute_iobuf_used (r_in r) \<Longrightarrow> iobuf_bytes (r_in r) = []"
    by (metis length_0_conv length_iobuf_bytes unat_0 word_neq_0_conv)
  then show ?thesis
    using read_request_loop_answers [of r s "0 < minute_iobuf_used (r_in r)"] assms(1,3,4) un
    by (simp add: minute_httpd_read_request_def)
qed



text \<open>The request of which the first byte is in the buffer and the rest comes in two pieces.\<close>

definition demo_conn :: httpd_response where
  "demo_conn = \<lparr>r_state = \<lparr>st_in = demo_part, st_out = wrapping_ring, st_text = demo_text, st_infd = 0, st_outfd = 1\<rparr>,
     r_rq = zero_rq, r_flags = 0, r_pending = 0,
     r_world = \<lparr>w_in = [Recv ''ET / '', Recv (''HTTP/1.0'' @ [CHR 0x0A, CHR 0x0A])], w_script = [], w_sent = []\<rparr>\<rparr>"

lemma demo_conn_in: "r_in demo_conn = demo_part" "r_text demo_conn = demo_text"
  by (simp_all add: demo_conn_def)


end
