(* ===== verification/Httpd_Chunked.thy ===== *)
theory Httpd_Chunked
  imports Httpd_Request Httpd_Out
begin

text \<open>
  The payload of a request: the chunk header reader as a function on lists, its inverse (the
  size line the server writes itself), and what \<open>minute_httpd_in_read\<close> hands out.
\<close>

section \<open>Chunk headers\<close>

datatype chunk_verdict = Header unsigned bytes | Bad | Incomplete

fun chunk_scan :: "chunk_state \<Rightarrow> unsigned \<Rightarrow> bytes \<Rightarrow> chunk_verdict" where
  "chunk_scan cs val [] = Incomplete"
| "chunk_scan cs val (ch # bs) =
     (case chunk_switch cs (char_int ch) val of
        Chunk_refused \<Rightarrow> Bad
      | Chunk_complete \<Rightarrow> Header val bs
      | Chunk_next cs' val' \<Rightarrow> chunk_scan cs' val' bs)"

lemma skip_one_unwrapped:
  assumes "iobuf_unwrapped io" "io_read io < io_write io"
  shows "iobuf_unwrapped (iobuf_skip 1 io)"
  using assms counter_Suc [OF assms(2)]
  by (simp add: iobuf_unwrapped_def iobuf_skip_def word_le_nat_alt word_less_nat_alt)

lemma skip_skip:
  "iobuf_skip m (iobuf_skip n io) = iobuf_skip (n + m) io"
  by (simp add: iobuf_skip_def add.assoc)

lemma chunk_scan_suffix:
  "chunk_scan cs val bs = Header v rest \<Longrightarrow> length rest < length bs \<and> rest = drop (length bs - length rest) bs"
proof (induction bs arbitrary: cs val)
  case (Cons ch bs)
  show ?case
  proof (cases "chunk_switch cs (char_int ch) val")
    case (Chunk_next cs' val')
    then have "length rest < length bs" "rest = drop (length bs - length rest) bs"
      using Cons.IH [of cs' val'] Cons.prems by auto
    then show ?thesis by (simp add: Suc_diff_le)
  qed (use Cons.prems in auto)
qed simp

definition chunk_answer :: "iobuf \<Rightarrow> chunk_verdict \<Rightarrow> chunk_result" where
  "chunk_answer io z = (case z of
       Header v rest \<Rightarrow> Chunk_header v (iobuf_skip (length (iobuf_bytes io) - length rest) io)
     | Bad \<Rightarrow> Chunk_bad | Incomplete \<Rightarrow> Chunk_more)"

lemma chunk_loop_scan:
  "iobuf_ok io \<Longrightarrow> iobuf_unwrapped io
   \<Longrightarrow> chunk_loop cs val io = Some (chunk_answer io (chunk_scan cs val (iobuf_bytes io)))"
proof (induction "iobuf_bytes io" arbitrary: io cs val)
  case Nil
  then show ?case
    using unwrapped_less [OF Nil.prems(2)] Nil.hyps by (subst chunk_loop.simps) (simp add: chunk_answer_def)
next
  case (Cons ch bs)
  have lt: "io_read io < io_write io" using unwrapped_less [OF Cons.prems(2)] Cons.hyps(2) by (metis list.distinct(1))
  have h: "drop 0 (iobuf_bytes io) = ch # bs" using Cons.hyps(2) by simp
  have m: "mem_read (io_data io) (unat (io_read io AND io_mask io)) = Some ch"
    using iobuf_head(1) [OF Cons.prems(1) h, of "io_read io"] by simp
  have one: "1 \<le> length (iobuf_bytes io)" using Cons.hyps(2) by (metis One_nat_def Suc_leI length_greater_0_conv list.distinct(1))
  let ?io = "io\<lparr>io_read := io_read io + 1\<rparr>"
  have io: "?io = iobuf_skip 1 io" by (simp add: iobuf_skip_def)
  have b: "iobuf_bytes ?io = bs" "iobuf_ok ?io"
    unfolding io using ring.skip_contents [OF Cons.prems(1) one] ring.skip_ok [OF Cons.prems(1) one]
    by (simp_all add: Cons.hyps(2) [symmetric])
  have l: "length (iobuf_bytes io) = Suc (length bs)" using Cons.hyps(2) by (metis length_Cons)
  show ?case
  proof (cases "chunk_switch cs (char_int ch) val")
    case (Chunk_next cs' val')
    have IH: "chunk_loop cs' val' ?io = Some (chunk_answer ?io (chunk_scan cs' val' bs))"
      using Cons.hyps(1) [of ?io cs' val'] b skip_one_unwrapped [OF Cons.prems(2) lt] io by simp
    have "chunk_loop cs val io = chunk_loop cs' val' ?io"
      using lt m Chunk_next by (subst chunk_loop.simps) auto
    moreover have "chunk_answer ?io z = chunk_answer io z" if "z = chunk_scan cs' val' bs" for z
    proof (cases z)
      case (Header v rest)
      then have "length rest < length bs" using chunk_scan_suffix that by metis
      then show ?thesis
        using Header b(1) l by (simp add: chunk_answer_def io skip_skip Suc_diff_le)
    qed (simp_all add: chunk_answer_def)
    ultimately show ?thesis using IH Chunk_next by (simp add: Cons.hyps(2) [symmetric])
  next
    case Chunk_complete
    then show ?thesis
      using lt m l io by (subst chunk_loop.simps) (simp add: chunk_answer_def Cons.hyps(2) [symmetric])
  next
    case Chunk_refused
    then show ?thesis
      using lt m by (subst chunk_loop.simps) (simp add: chunk_answer_def Cons.hyps(2) [symmetric])
  qed
qed

section \<open>Sizes in hexadecimal\<close>

lemma char_int_char_of: "n < 128 \<Longrightarrow> char_int (char_of n) = int n"
proof -
  assume "n < (128 :: nat)"
  have "(of_char (char_of n) :: int) = int (of_char (char_of n))" by (simp only: of_nat_of_char)
  also have "(of_char (char_of n) :: nat) = n" using \<open>n < 128\<close> by simp
  finally have "(of_char (char_of n) :: int) = int n" .
  then show ?thesis using \<open>n < 128\<close> by (simp add: char_int_def)
qed

lemma char_int_digit: "d < 16 \<Longrightarrow> char_int (digit_char d) = (if d < 10 then 48 + int d else 87 + int d)"
  by (simp add: digit_char_def char_int_char_of)

lemma switch_digit:
  assumes "d < 16"
  shows "chunk_switch chunk_size (char_int (digit_char d)) val
    = Chunk_next chunk_size (16 * val + of_nat d)"
proof (cases "d < 10")
  case True
  then show ?thesis
    using assms by (simp add: chunk_switch_def at_size_def char_int_digit push_bit_eq_mult mult.commute)
next
  case False
  then have "(of_nat d :: unsigned) = of_nat (d - 10) + 10"
    by (metis le_add_diff_inverse2 not_less of_nat_add of_nat_numeral)
  moreover have "int d - 10 = int (d - 10)" using False by (simp add: of_nat_diff)
  ultimately show ?thesis
    using assms False
    by (simp add: chunk_switch_def at_size_def char_int_digit push_bit_eq_mult mult.commute)
qed

lemma scan_size:
  "chunk_scan chunk_size val (to_base 16 n @ rest)
   = chunk_scan chunk_size (val * 16 ^ length (to_base 16 n) + of_nat n) rest"
proof (induction n arbitrary: rest rule: less_induct)
  case (less n)
  show ?case
  proof (cases "n < 16")
    case True
    then have "to_base 16 n = [digit_char n]" by (simp add: to_base.simps)
    then show ?thesis using True by (simp add: switch_digit mult.commute)
  next
    case False
    then have b: "to_base 16 n = to_base 16 (n div 16) @ [digit_char (n mod 16)]"
      by (simp add: to_base.simps [of 16 n])
    have n: "(of_nat n :: unsigned) = 16 * of_nat (n div 16) + of_nat (n mod 16)"
      by (metis of_nat_add of_nat_mult of_nat_numeral mult_div_mod_eq)
    have "chunk_scan chunk_size val (to_base 16 n @ rest)
        = chunk_scan chunk_size (val * 16 ^ length (to_base 16 (n div 16)) + of_nat (n div 16))
            (digit_char (n mod 16) # rest)"
      using less [of "n div 16" "digit_char (n mod 16) # rest"] False by (simp add: b)
    also have "\<dots> = chunk_scan chunk_size (val * 16 ^ length (to_base 16 n) + of_nat n) rest"
      by (simp add: switch_digit b n algebra_simps)
    finally show ?thesis .
  qed
qed

lemma char_int_NL: "char_int (CHR 0x0D) = 13" "char_int (CHR 0x0A) = 10"
  by code_simp+

lemma scan_size_line:
  "chunk_scan chunk_size 0 (fmt_x n @ NL @ rest) = Header (of_nat n) rest"
  by (simp add: fmt_x_def scan_size NL_def chunk_switch_def at_size_def at_chunk_cr_def char_int_NL)

lemma scan_previous:
  "chunk_scan chunk_previous val (NL @ rest) = chunk_scan chunk_size val rest"
  by (simp add: NL_def chunk_switch_def at_previous_def at_previous_cr_def char_int_NL)


section \<open>Handing out payload\<close>

text \<open>The counters are far from wrapping around: the connection has carried less than \<open>2 ^ 31\<close>
  bytes.\<close>

definition in_ok :: "httpd_response \<Rightarrow> bool" where
  "in_ok r \<longleftrightarrow> iobuf_ok (r_in r) \<and> iobuf_unwrapped (r_in r) \<and> unat (io_write (r_in r)) < 2 ^ 31"

definition pass_in :: "nat \<Rightarrow> httpd_response \<Rightarrow> httpd_response" where
  "pass_in k r = (put_in (iobuf_skip k (r_in r)) r)\<lparr>r_pending := r_pending r - int k\<rparr>"

definition buf_ok :: "bytes option \<Rightarrow> unsigned \<Rightarrow> httpd_response \<Rightarrow> bool" where
  "buf_ok buf cnt r \<longleftrightarrow> (case buf of None \<Rightarrow> True
     | Some d \<Rightarrow> unat cnt \<le> length d \<and> unat cnt < iobuf_size (r_in r))"

text \<open>What a read with data pending really needs: the smaller of the two counts decides.\<close>

definition read_ok :: "bytes option \<Rightarrow> unsigned \<Rightarrow> httpd_response \<Rightarrow> bool" where
  "read_ok buf cnt r \<longleftrightarrow> (case buf of None \<Rightarrow> True
     | Some d \<Rightarrow> min (unat cnt) (nat (r_pending r)) \<le> length d \<and> min (unat cnt) (nat (r_pending r)) < iobuf_size (r_in r))"

lemma pass_in_sel [simp]:
  "r_in (pass_in k r) = iobuf_skip k (r_in r)" "r_pending (pass_in k r) = r_pending r - int k"
  "r_world (pass_in k r) = r_world r" "r_rq (pass_in k r) = r_rq r" "r_text (pass_in k r) = r_text r"
  by (simp_all add: pass_in_def put_in_def)

lemma pass_in_ok:
  assumes "in_ok r" "k \<le> length (iobuf_bytes (r_in r))"
  shows "in_ok (pass_in k r)" "iobuf_bytes (r_in (pass_in k r)) = drop k (iobuf_bytes (r_in r))"
  using assms ring.skip_ok [of "r_in r" k] ring.skip_contents [of "r_in r" k]
    skip_unwrapped [of "r_in r" k] by (auto simp: in_ok_def)

lemma take_in_eq:
  assumes ok: "iobuf_ok io" "iobuf_unwrapped io" "unat (io_write io) < 2 ^ 31"
    and t: "unat toread < 2 ^ 31" and k: "k = min (unat toread) (length (iobuf_bytes io))"
    and d: "case buf of None \<Rightarrow> True | Some d \<Rightarrow> k \<le> length d \<and> unat toread < iobuf_size io"
  shows "take_in buf toread io = Some (int k, map_option (\<lambda>d. take k (iobuf_bytes io) @ drop k d) buf, iobuf_skip k io)"
proof (cases buf)
  case (Some d)
  have len: "iobuf_read_len toread io = k" using k by (simp add: iobuf_read_len_def length_iobuf_bytes)
  have "\<not> iobuf_read_overruns toread io" using d Some k len by (auto simp: iobuf_read_overruns_def)
  then show ?thesis
    using minute_iobuf_read_eq [OF ok(1), of toread d] len d Some by (simp add: take_in_def Let_def)
next
  case None
  have le: "unat (io_read io) \<le> unat (io_write io)"
    using ok(2) by (simp add: iobuf_unwrapped_def word_le_nat_alt)
  have s: "unat (io_read io + toread) = unat (io_read io) + unat toread"
    using le ok(3) t by (intro unat_add_small) simp
  have l: "length (iobuf_bytes io) = unat (io_write io) - unat (io_read io)"
    using used_unwrapped [OF ok(2)] by (simp add: length_iobuf_bytes)
  have lt: "io_write io < io_read io + toread \<longleftrightarrow> length (iobuf_bytes io) < unat toread"
    unfolding word_less_nat_alt s l using le by linarith
  let ?n = "if io_write io < io_read io + toread then io_write io - io_read io else toread"
  have n: "unat ?n = k"
    using k lt l used_unwrapped [OF ok(2)] by (auto simp: minute_iobuf_used_def)
  have "w = of_nat (unat w)" for w :: unsigned by simp
  from this [of ?n] have "?n = of_nat k" unfolding n .
  moreover have "sint ?n = int k" using n k t by (intro trans [OF sint_small]) simp_all
  ultimately show ?thesis
    using None by (simp add: take_in_def Let_def iobuf_skip_def)
qed

lemma in_read_data:
  assumes "in_ok r" "0 < r_pending r" "r_pending r < 2 ^ 31" "iobuf_bytes (r_in r) \<noteq> []"
    and "read_ok buf cnt r" "unat cnt < 2 ^ 31" "k = min (min (unat cnt) (nat (r_pending r))) (length (iobuf_bytes (r_in r)))"
  shows "in_read_loop e buf cnt r = Some (Some (int k,
      map_option (\<lambda>d. take k (iobuf_bytes (r_in r)) @ drop k d) buf, pass_in k r))"
proof -
  let ?t = "if cnt < word_of_int (r_pending r) then cnt else word_of_int (r_pending r)"
  have "word_of_int (r_pending r) = (of_nat (nat (r_pending r)) :: unsigned)" using assms(2) by simp
  then have p: "unat (word_of_int (r_pending r) :: unsigned) = nat (r_pending r)"
    using assms(3) unat_of_nat_small [of "nat (r_pending r)"] by simp
  have t: "unat ?t = min (unat cnt) (nat (r_pending r))"
    by (auto simp: word_less_nat_alt p)
  have "take_in buf ?t (r_in r) = Some (int k, map_option (\<lambda>d. take k (iobuf_bytes (r_in r)) @ drop k d) buf,
      iobuf_skip k (r_in r))"
  proof (rule take_in_eq)
    show "case buf of None \<Rightarrow> True | Some d \<Rightarrow> k \<le> length d \<and> unat ?t < iobuf_size (r_in r)"
      using assms(5,7) unfolding t read_ok_def by (auto split: option.splits intro: min.coboundedI1)
  qed (use assms t in \<open>auto simp: in_ok_def\<close>)
  moreover have "io_read (r_in r) < io_write (r_in r)"
    using unwrapped_less [of "r_in r"] assms(1,4) by (simp add: in_ok_def)
  ultimately have "in_read_pass buf cnt r = Some (Some (In_return (int k)
      (map_option (\<lambda>d. take k (iobuf_bytes (r_in r)) @ drop k d) buf) (pass_in k r)))"
    using assms(2) by (simp add: in_read_pass_def pass_in_def)
  then show ?thesis
    using assms(2) by (subst in_read_loop.simps) (simp add: PENDING_EOF_def)
qed

lemma in_read_header:
  assumes "in_ok r" "r_pending r = 0 \<or> r_pending r = PENDING_INIT"
    and "flag_set (rq_flags (r_rq r)) http_transfer_chunked" "0 < n" "n < 2 ^ 31"
    and "iobuf_bytes (r_in r) = (if r_pending r = 0 then NL else []) @ fmt_x n @ NL @ rest"
  shows "\<exists>j. in_read_loop e buf cnt r = in_read_loop True buf cnt
      ((put_in (iobuf_skip j (r_in r)) r)\<lparr>r_pending := int n\<rparr>)
    \<and> j \<le> length (iobuf_bytes (r_in r)) \<and> drop j (iobuf_bytes (r_in r)) = rest"
proof -
  let ?cs = "if r_pending r = 0 then chunk_previous else chunk_size"
  let ?j = "length (iobuf_bytes (r_in r)) - length rest"
  have "chunk_scan ?cs 0 (iobuf_bytes (r_in r)) = Header (of_nat n) rest"
    using assms(6) by (simp add: scan_previous scan_size_line)
  then have c: "chunk_loop ?cs 0 (r_in r) = Some (Chunk_header (of_nat n) (iobuf_skip ?j (r_in r)))"
    using assms(1) by (simp add: chunk_loop_scan in_ok_def chunk_answer_def)
  have un: "unat (of_nat n :: unsigned) = n" using assms(5) by (intro unat_of_nat_small) simp
  then have "(of_nat n :: unsigned) \<noteq> 0" "sint (of_nat n :: unsigned) = int n"
    using assms(4,5) by (auto simp: sint_small)
  then have "in_read_pass buf cnt r = Some (Some (In_again
      ((put_in (iobuf_skip ?j (r_in r)) r)\<lparr>r_pending := int n\<rparr>)))"
    using assms(2,3) c by (auto simp: in_read_pass_def PENDING_INIT_def)
  then have "in_read_loop e buf cnt r = in_read_loop True buf cnt
      ((put_in (iobuf_skip ?j (r_in r)) r)\<lparr>r_pending := int n\<rparr>)"
    using assms(2) by (subst in_read_loop.simps) (auto simp: PENDING_EOF_def PENDING_INIT_def)
  moreover have "drop ?j (iobuf_bytes (r_in r)) = rest" using assms(6) by simp
  ultimately show ?thesis by (intro exI [of _ ?j]) simp
qed

text \<open>Filling an empty buffer from the connection.\<close>

definition conn_ok :: "httpd_response \<Rightarrow> bool" where
  "conn_ok r \<longleftrightarrow> in_ok r \<and> events_ok (w_in (r_world r)) \<and> \<not> fails (w_in (r_world r))
     \<and> unat (io_write (r_in r)) + event_bytes (w_in (r_world r)) < 2 ^ 31"

definition conn_bytes :: "httpd_response \<Rightarrow> bytes" where
  "conn_bytes r = iobuf_bytes (r_in r) @ stream (w_in (r_world r))"

lemma conn_fill:
  assumes "conn_ok r" "iobuf_room (r_in r) \<noteq> 0" "stream (w_in (r_world r)) \<noteq> []"
  obtains n r' where "fill_in r = Some (int n, r')" "0 < n" "conn_ok r'" "conn_bytes r' = conn_bytes r"
    "length (iobuf_bytes (r_in r')) = length (iobuf_bytes (r_in r)) + n" "r_pending r' = r_pending r"
    "r_rq r' = r_rq r" "r_text r' = r_text r" "io_mask (r_in r') = io_mask (r_in r)"
proof -
  have ok: "iobuf_ok (r_in r)" "events_ok (w_in (r_world r))"
    using assms(1) by (auto simp: conn_ok_def in_ok_def)
  then show ?thesis
  proof (cases rule: fill_in_cases)
    case (filled n xs es)
    let ?r = "(put_in (iobuf_fill xs (r_in r)) r)\<lparr>r_world := (r_world r)\<lparr>w_in := es\<rparr>\<rparr>"
    have room: "length (iobuf_bytes (r_in r)) + length xs \<le> iobuf_size (r_in r)"
      using filled(2,3) assms(2) unfolding iobuf_room_def length_iobuf_bytes by linarith
    have small: "unat (io_write (r_in r)) + length xs < 2 ^ 31"
      using assms(1) filled(2,7) by (simp add: conn_ok_def)
    note ring = ring.fill_ok [OF ok(1) room] ring.fill_contents [OF ok(1) room]
    note unwr = fill_unwrapped [OF _ small]
    have in': "r_in ?r = iobuf_fill xs (r_in r)" by (simp add: put_in_def)
    have "conn_ok ?r"
      using assms(1) ring(1) unwr filled(2,4,6,7) unfolding conn_ok_def in_ok_def in'
      by simp
    moreover have "conn_bytes ?r = conn_bytes r"
      using ring(2) filled(5) unfolding conn_bytes_def in' by simp
    moreover have "length (iobuf_bytes (r_in ?r)) = length (iobuf_bytes (r_in r)) + n"
      unfolding in' using ring(2) filled(2) by simp
    ultimately show ?thesis using that [of n ?r] filled(1,8) by (simp add: put_in_def)
  qed (use assms in \<open>auto simp: conn_ok_def\<close>)
qed

lemma conn_pass:
  assumes "conn_ok r" "k \<le> length (iobuf_bytes (r_in r))"
  shows "conn_ok (pass_in k r)" "conn_bytes (pass_in k r) = drop k (conn_bytes r)"
  using assms pass_in_ok [of r k] by (auto simp: conn_ok_def conn_bytes_def)

text \<open>While data is pending, a read of a positive size makes progress.\<close>

lemma in_read_pending:
  assumes "conn_ok r" "0 < r_pending r" "r_pending r < 2 ^ 31" "conn_bytes r \<noteq> []"
    and "read_ok buf cnt r" "0 < unat cnt" "unat cnt < 2 ^ 31"
  shows "\<exists>k r'. minute_httpd_in_read buf cnt r = Some (Some (int k,
        map_option (\<lambda>d. take k (conn_bytes r) @ drop k d) buf, r'))
      \<and> 0 < k \<and> int k \<le> r_pending r \<and> k \<le> unat cnt \<and> k \<le> length (conn_bytes r)
      \<and> conn_ok r' \<and> conn_bytes r' = drop k (conn_bytes r)
      \<and> r_pending r' = r_pending r - int k \<and> r_rq r' = r_rq r \<and> r_text r' = r_text r \<and> io_mask (r_in r') = io_mask (r_in r)"
proof -
  have data: "\<exists>k r'. in_read_loop e buf cnt q = Some (Some (int k,
        map_option (\<lambda>d. take k (conn_bytes q) @ drop k d) buf, r'))
      \<and> 0 < k \<and> int k \<le> r_pending q \<and> k \<le> unat cnt \<and> k \<le> length (conn_bytes q)
      \<and> conn_ok r' \<and> conn_bytes r' = drop k (conn_bytes q)
      \<and> r_pending r' = r_pending q - int k \<and> r_rq r' = r_rq q \<and> r_text r' = r_text q \<and> io_mask (r_in r') = io_mask (r_in q)"
    if q: "conn_ok q" "r_pending q = r_pending r" "iobuf_bytes (r_in q) \<noteq> []" "read_ok buf cnt q" for e q
  proof -
    let ?k = "min (min (unat cnt) (nat (r_pending q))) (length (iobuf_bytes (r_in q)))"
    have len: "0 < length (iobuf_bytes (r_in q))" using q(3) by blast
    have "in_read_loop e buf cnt q = Some (Some (int ?k,
        map_option (\<lambda>d. take ?k (iobuf_bytes (r_in q)) @ drop ?k d) buf, pass_in ?k q))"
      by (rule in_read_data) (use assms q in \<open>auto simp: conn_ok_def\<close>)
    moreover have "take ?k (conn_bytes q) = take ?k (iobuf_bytes (r_in q))" by (simp add: conn_bytes_def)
    ultimately show ?thesis
      using conn_pass [OF q(1), of ?k] assms(2,6) q(2) len
      by (intro exI [of _ ?k] exI [of _ "pass_in ?k q"]) (auto simp: conn_bytes_def)
  qed
  show ?thesis
  proof (cases "iobuf_bytes (r_in r) = []")
    case False
    then show ?thesis using data [OF assms(1) _ _ assms(5), of True] by (simp add: minute_httpd_in_read_def)
  next
    case True
    have ok: "iobuf_ok (r_in r)" using assms(1) by (simp add: conn_ok_def in_ok_def)
    have room: "iobuf_room (r_in r) \<noteq> 0"
      using True iobuf_ok_size(1) [OF ok] length_iobuf_bytes [of "r_in r"] by (simp add: iobuf_room_def)
    have "stream (w_in (r_world r)) \<noteq> []" using assms(4) True by (simp add: conn_bytes_def)
    then obtain n q where q: "fill_in r = Some (int n, q)" "0 < n" "conn_ok q" "conn_bytes q = conn_bytes r"
      "length (iobuf_bytes (r_in q)) = length (iobuf_bytes (r_in r)) + n" "r_pending q = r_pending r"
      "r_rq q = r_rq r" "r_text q = r_text r" "io_mask (r_in q) = io_mask (r_in r)"
      using conn_fill [OF assms(1) room] by metis
    have "in_read_pass buf cnt r = Some (Some In_fill)"
      using assms(1,2) True unwrapped_less [of "r_in r"]
      by (simp add: in_read_pass_def conn_ok_def in_ok_def)
    then have step: "in_read_loop True buf cnt r = in_read_loop False buf cnt q"
      using q(1,2) assms(2) by (subst in_read_loop.simps) (simp add: PENDING_EOF_def)
    have b: "read_ok buf cnt q" using assms(5) q(6,9) by (simp add: read_ok_def iobuf_size_def split: option.splits)
    have "iobuf_bytes (r_in q) \<noteq> []" using q(2,5) by auto
    from data [OF q(3,6) this b, of False] show ?thesis
      using step q(4,6-9) by (simp add: minute_httpd_in_read_def)
  qed
qed

lemma in_read_end:
  assumes "r_pending r = 0" "\<not> flag_set (rq_flags (r_rq r)) http_transfer_chunked"
  shows "minute_httpd_in_read buf cnt r = Some (Some (0, buf, r\<lparr>r_pending := PENDING_EOF\<rparr>))"
  unfolding minute_httpd_in_read_def using assms
  by (subst in_read_loop.simps) (simp add: in_read_pass_def PENDING_EOF_def)

text \<open>A response whose input buffer, a ring of 16 bytes, holds given bytes, with a given count
  pending and given request flags.\<close>

definition demo_body :: "bytes \<Rightarrow> int \<Rightarrow> unsigned \<Rightarrow> httpd_response" where
  "demo_body xs pending flags =
     \<lparr>r_state = \<lparr>st_in = \<lparr>io_read = 0, io_write = of_nat (length xs), io_mask = 15, io_flags = 0,
          io_data = xs @ replicate (16 - length xs) NUL\<rparr>,
        st_out = wrapping_ring, st_text = demo_text, st_infd = 0, st_outfd = 1\<rparr>,
      r_rq = zero_rq\<lparr>rq_flags := flags\<rparr>, r_flags = 0, r_pending = pending,
      r_world = \<lparr>w_in = [], w_script = [], w_sent = []\<rparr>\<rparr>"

lemma demo_body_in:
  assumes "length xs \<le> 16"
  shows "in_ok (demo_body xs p f)" "iobuf_bytes (r_in (demo_body xs p f)) = xs" "iobuf_size (r_in (demo_body xs p f)) = 16"
proof -
  let ?io = "r_in (demo_body xs p f)"
  have u: "unat (of_nat (length xs) :: unsigned) = length xs" using assms by (intro unat_of_nat_small) simp
  then have used: "unat (minute_iobuf_used ?io) = length xs" by (simp add: minute_iobuf_used_def demo_body_def)
  show size: "iobuf_size ?io = 16" by (simp add: iobuf_size_def demo_body_def)
  have "\<exists>k < 31. (16 :: nat) = 2 ^ k" by (intro exI [of _ 4]) simp
  moreover have "length (io_data ?io) = 16" using assms by (simp add: demo_body_def)
  ultimately have "iobuf_ok ?io" using assms unfolding iobuf_ok_def size used by simp
  then show "in_ok (demo_body xs p f)"
    using u assms by (simp add: in_ok_def iobuf_unwrapped_def demo_body_def)
  show "iobuf_bytes ?io = xs"
    using assms unfolding iobuf_bytes_def used
    by (auto simp: ring_slice_def demo_body_def nth_append intro!: nth_equalityI)
qed

lemma demo_body_sel [simp]:
  "r_pending (demo_body xs p f) = p" "rq_flags (r_rq (demo_body xs p f)) = f"
  "w_in (r_world (demo_body xs p f)) = []"
  by (simp_all add: demo_body_def zero_rq_def)

text \<open>C12. A chunk that is in the buffer is handed out as it is: when \<open>minute_httpd_in_read\<close>
  stands before a chunk (at the start of the body, or at the line end of the chunk before), it
  reads the hexadecimal size, delivers the first bytes of the data, at most what is asked for, and
  remembers how many of the chunk are still to come.\<close>
theorem in_read_chunk:
  assumes "in_ok r" "r_pending r = 0 \<or> r_pending r = PENDING_INIT"
    and "flag_set (rq_flags (r_rq r)) http_transfer_chunked" "0 < n" "n < 2 ^ 31"
    and "iobuf_bytes (r_in r) = (if r_pending r = 0 then NL else []) @ fmt_x n @ NL @ rest" "rest \<noteq> []"
    and "0 < unat cnt" "unat cnt \<le> length d" "unat cnt < iobuf_size (r_in r)" "unat cnt < 2 ^ 31"
  shows "\<exists>k r'. k = min (min (unat cnt) n) (length rest)
    \<and> minute_httpd_in_read (Some d) cnt r = Some (Some (int k, Some (take k rest @ drop k d), r'))
    \<and> in_ok r' \<and> iobuf_bytes (r_in r') = drop k rest \<and> r_pending r' = int (n - k) \<and> r_rq r' = r_rq r"
proof -
  let ?k = "min (min (unat cnt) n) (length rest)"
  obtain j where j: "in_read_loop True (Some d) cnt r = in_read_loop True (Some d) cnt
      ((put_in (iobuf_skip j (r_in r)) r)\<lparr>r_pending := int n\<rparr>)"
      "j \<le> length (iobuf_bytes (r_in r))" "drop j (iobuf_bytes (r_in r)) = rest"
    using in_read_header [OF assms(1-6)] by blast
  let ?r = "(put_in (iobuf_skip j (r_in r)) r)\<lparr>r_pending := int n\<rparr>"
  have ok: "in_ok ?r" "iobuf_bytes (r_in ?r) = rest" "r_rq ?r = r_rq r"
    using pass_in_ok [OF assms(1) j(2)] j(3) by (simp_all add: in_ok_def put_in_def)
  have "in_read_loop True (Some d) cnt ?r = Some (Some (int ?k,
      map_option (\<lambda>d. take ?k (iobuf_bytes (r_in ?r)) @ drop ?k d) (Some d), pass_in ?k ?r))"
    by (rule in_read_data [OF ok(1)]) (use assms ok(2) in \<open>auto simp: buf_ok_def read_ok_def put_in_def\<close>)
  then have "minute_httpd_in_read (Some d) cnt r
      = Some (Some (int ?k, Some (take ?k rest @ drop ?k d), pass_in ?k ?r))"
    using j(1) ok(2) by (simp add: minute_httpd_in_read_def)
  moreover have "in_ok (pass_in ?k ?r)" "iobuf_bytes (r_in (pass_in ?k ?r)) = drop ?k rest"
    using pass_in_ok [OF ok(1), of ?k] ok(2) by simp_all
  ultimately show ?thesis by (intro exI [of _ ?k] exI [of _ "pass_in ?k ?r"]) (simp add: ok(3))
qed


lemma in_read_chunk_witness:
  "\<exists>r'. minute_httpd_in_read (Some ''....'') 3 (demo_body (''5'' @ NL @ ''hello'' @ NL) PENDING_INIT http_transfer_chunked)
      = Some (Some (3, Some ''hel.'', r'))
    \<and> iobuf_bytes (r_in r') = ''lo'' @ NL \<and> r_pending r' = 2"
proof -
  let ?r = "demo_body (''5'' @ NL @ ''hello'' @ NL) PENDING_INIT http_transfer_chunked"
  have l: "length (''5'' @ NL @ ''hello'' @ NL) \<le> 16" "fmt_x 5 = ''5''" by code_simp+
  note in_demo = demo_body_in [OF l(1), of PENDING_INIT http_transfer_chunked]
  have f: "flag_set (rq_flags (r_rq ?r)) http_transfer_chunked" "PENDING_INIT \<noteq> 0" by code_simp+
  have b: "iobuf_bytes (r_in ?r) = (if r_pending ?r = 0 then NL else []) @ fmt_x 5 @ NL @ ''hello'' @ NL"
    unfolding in_demo(2) demo_body_sel l(2) using f(2) by simp
  have ne: "''hello'' @ NL \<noteq> []" by simp
  have sz: "unat (3 :: unsigned) < iobuf_size (r_in ?r)" unfolding in_demo(3) by simp
  have k: "min (min (unat (3 :: unsigned)) 5) (length (''hello'' @ NL)) = 3" "int (5 - 3) = 2" by simp_all
  show ?thesis
    using in_read_chunk [OF in_demo(1) _ f(1) _ _ b ne, of 3 "''....''"] sz by (auto simp: k)
qed

lemma in_discard_pending:
  assumes "conn_ok r" "\<not> flag_set (rq_flags (r_rq r)) http_transfer_chunked"
    and "0 \<le> r_pending r" "r_pending r < 2 ^ 31" "r_pending r \<le> int (length (conn_bytes r))"
  shows "\<exists>r'. minute_httpd_in_discard r = Some (Some r') \<and> r_pending r' = PENDING_EOF \<and> conn_ok r'
    \<and> conn_bytes r' = drop (nat (r_pending r)) (conn_bytes r)"
  using assms
proof (induction "nat (r_pending r)" arbitrary: r rule: less_induct)
  case less
  let ?cnt = "io_mask (r_in r) + 1"
  show ?case
  proof (cases "r_pending r = 0")
    case True
    let ?r = "r\<lparr>r_pending := PENDING_EOF\<rparr>"
    have "minute_httpd_in_discard r = Some (Some ?r)"
      using in_read_end [OF True less.prems(2)] by (subst minute_httpd_in_discard.simps) simp
    then show ?thesis using less.prems(1) True by (simp add: conn_ok_def in_ok_def conn_bytes_def)
  next
    case False
    then have p: "0 < r_pending r" "conn_bytes r \<noteq> []" using less.prems(3,5) by auto
    have ok: "iobuf_ok (r_in r)" using less.prems(1) by (simp add: conn_ok_def in_ok_def)
    have c: "0 < unat ?cnt" "unat ?cnt < 2 ^ 31"
      using unat_size [OF ok] iobuf_ok_size [OF ok] by simp_all
    have "read_ok None ?cnt r" by (simp add: read_ok_def)
    from in_read_pending [OF less.prems(1) p(1) less.prems(4) p(2) this c] obtain k q where
      q: "minute_httpd_in_read None ?cnt r = Some (Some (int k, None, q))" "0 < k" "int k \<le> r_pending r"
      "k \<le> length (conn_bytes r)" "conn_ok q" "conn_bytes q = drop k (conn_bytes r)"
      "r_pending q = r_pending r - int k" "r_rq q = r_rq r" by auto
    have "\<exists>r'. minute_httpd_in_discard q = Some (Some r') \<and> r_pending r' = PENDING_EOF \<and> conn_ok r'
      \<and> conn_bytes r' = drop (nat (r_pending q)) (conn_bytes q)"
      by (rule less.hyps) (use q less.prems in auto)
    moreover have "minute_httpd_in_discard r = minute_httpd_in_discard q"
      using q(1,2) by (subst minute_httpd_in_discard.simps) simp
    moreover have "nat (r_pending q) + k = nat (r_pending r)" using q(3,7) by simp
    ultimately show ?thesis by (simp add: q(6))
  qed
qed

text \<open>C11. A payload with a content length is framed exactly: discarding what the application
  left of it always ends, and takes from the connection the bytes that are pending and not one of
  the next request, wherever the pieces were cut.\<close>
theorem in_discard_content_length:
  assumes "conn_ok r" "\<not> flag_set (rq_flags (r_rq r)) http_transfer_chunked"
    and "0 \<le> r_pending r" "r_pending r < 2 ^ 31" "r_pending r \<le> int (length (conn_bytes r))"
  shows "\<exists>r'. minute_httpd_in_discard r = Some (Some r') \<and> r_pending r' = PENDING_EOF \<and> conn_ok r'
    \<and> conn_bytes r' = drop (nat (r_pending r)) (conn_bytes r)"
  by (rule in_discard_pending [OF assms])


lemma in_discard_witness:
  "\<exists>r'. minute_httpd_in_discard (demo_body ''abcdef'' 4 http_content_length) = Some (Some r')
     \<and> r_pending r' = PENDING_EOF \<and> conn_bytes r' = ''ef''"
proof -
  let ?r = "demo_body ''abcdef'' 4 http_content_length"
  have l: "length ''abcdef'' \<le> 16" by simp
  note in_demo = demo_body_in [OF l, of 4 http_content_length]
  have c: "conn_ok ?r" using in_demo(1) by (simp add: conn_ok_def events_ok_def in_ok_def)
  have b: "conn_bytes ?r = ''abcdef''" by (simp add: conn_bytes_def in_demo(2))
  have f: "\<not> flag_set (rq_flags (r_rq ?r)) http_transfer_chunked" by code_simp
  show ?thesis using in_discard_content_length [OF c f] b by auto
qed

section \<open>The end of a chunked body\<close>

text \<open>An empty line directly behind the last chunk, the usual end of a chunked body, is not the
  end for the parser: it takes the line for a header it does not know and wants another one.\<close>

lemma trailers_empty_line:
  "\<exists>y. http_scan False NL (http_enter rq (minute_http_init_trailers hmask io) io t) = Wants y"
proof -
  let ?x = "http_enter rq (minute_http_init_trailers hmask io) io t"
  have st: "s_st ?x = h_header" "s_nl ?x = 0" "c_tstate ?x = \<lparr>ts_poff = 0, ts_slot = 0\<rparr>"
    by (simp_all add: minute_http_init_trailers_def minute_http_rqs_init_def)
  have w: "walk_trie 13 (header_trie_map 13) headers (Some patinitial_headers) \<lparr>ts_poff = 0, ts_slot = 0\<rparr>
      = Some (-1, \<lparr>ts_poff = 0, ts_slot = 0\<rparr>)" by code_simp
  have "http_switch 13 ?x = Again 13 ((?x\<lparr>c_tstate := \<lparr>ts_poff = 0, ts_slot = 0\<rparr>\<rparr>)\<lparr>s_st := h_skipline\<rparr>)"
    using st w by (simp add: http_switch_def sw_header_def lower_def walk_def reset_def)
  then have cr: "\<exists>y. http_char 13 ?x = Break y \<and> s_st y = h_cr \<and> s_nl y = 0"
    using st by (simp add: http_char_def eval_nat_numeral http_switch_def sw_skipline_def shift_def mark_def Let_def)
  then obtain y where y: "http_char 13 ?x = Break y" "s_st y = h_cr" "s_nl y = 0" by blast
  have "\<exists>z. http_char 10 (next_char y) = Break z \<and> s_nl z = 1"
    using y by (simp add: http_char_def eval_nat_numeral http_switch_def sw_cr_def shift_def)
  then show ?thesis using y by (auto simp: NL_def char_int_NL)
qed

text \<open>C40. The empty line that ends a chunked body without trailers is not taken for its end:
  when the client has sent the last chunk and the empty line, and nothing more, reading the
  payload answers -1, an error, and not 0, the end of the payload.\<close>
theorem in_read_empty_trailer:
  assumes "in_ok r" "r_pending r = 0 \<or> r_pending r = PENDING_INIT" "\<not> at_eof (r_in r)" "text_inv (parse_ctx r s)"
    and "flag_set (rq_flags (r_rq r)) http_transfer_chunked" "w_in (r_world r) = []"
    and "iobuf_bytes (r_in r) = (if r_pending r = 0 then NL else []) @ ''0'' @ NL @ NL"
  shows "\<exists>r'. minute_httpd_in_read buf cnt r = Some (Some (-1, buf, r'))"
proof -
  let ?cs = "if r_pending r = 0 then chunk_previous else chunk_size"
  let ?j = "length (iobuf_bytes (r_in r)) - length NL"
  let ?i = "iobuf_skip ?j (r_in r)"
  let ?r = "(put_in ?i r)\<lparr>r_pending := PENDING_EOF\<rparr>" and ?s = "minute_http_init_trailers MINUTE_ALL_HEADERS ?i"
  have zero: "fmt_x 0 = ''0''" by code_simp
  have "chunk_scan ?cs 0 (iobuf_bytes (r_in r)) = Header 0 NL"
    using assms(7) scan_size_line [of 0 NL] by (simp add: scan_previous zero)
  then have c: "chunk_loop ?cs 0 (r_in r) = Some (Chunk_header 0 ?i)"
    using assms(1) by (simp add: chunk_loop_scan in_ok_def chunk_answer_def)
  have j: "?j \<le> length (iobuf_bytes (r_in r))" by simp
  note skip = pass_in_ok [OF assms(1) j]
  have in': "r_in ?r = ?i" "r_text ?r = r_text r" "w_in (r_world ?r) = []" using assms(6) by (simp_all add: put_in_def)
  have "drop ?j (iobuf_bytes (r_in r)) = NL" using assms(7) by simp
  then have bytes: "iobuf_bytes ?i = NL" using skip(2) by simp
  have "parse_ok ?r ?s"
    using skip(1) assms(3,4) in' by (simp add: parse_ok_def reader_ok_def in_ok_def at_eof_def parse_ctx_def
        minute_http_init_trailers_def minute_http_rqs_init_def http_inv_def trie_inv_def est_states_def
        dead_states_def text_inv_def header_trie.valid_zero)
  moreover have "s_m ?s = io_read (r_in ?r)"
    using in' by (simp add: minute_http_init_trailers_def minute_http_rqs_init_def)
  moreover have "unfolded (s_st ?s = h_nl) (iobuf_bytes (r_in ?r) @ stream (w_in (r_world ?r)))"
    unfolding in' bytes by (simp add: minute_http_init_trailers_def NL_def)
  ultimately obtain st r' s' where a: "minute_httpd_read_request ?r ?s = Some (Some (st, r', s'))"
      "request_answer (parse_ctx ?r ?s) (iobuf_bytes (r_in ?r) @ stream (w_in (r_world ?r)))
        (fails (w_in (r_world ?r))) (overlong ?r) st r'"
    using read_request_ends [of ?r ?s] in'(3) by (auto simp: events_ok_def)
  have "st \<noteq> 0"
    using a(2) trailers_empty_line [of "r_rq ?r" MINUTE_ALL_HEADERS ?i "r_text ?r"]
    unfolding in' bytes parse_ctx_def by (auto simp: request_answer_def)
  then have "in_read_pass buf cnt r = Some (Some (In_return (-1) buf r'))"
    using assms(2,5) c a(1) by (auto simp: in_read_pass_def PENDING_INIT_def)
  then show ?thesis
    unfolding minute_httpd_in_read_def using assms(2)
    by (subst in_read_loop.simps) (auto simp: PENDING_EOF_def PENDING_INIT_def)
qed


lemma in_read_empty_trailer_witness:
  "\<exists>r'. minute_httpd_in_read None 16 (demo_body (''0'' @ NL @ NL) PENDING_INIT http_transfer_chunked)
     = Some (Some (-1, None, r'))"
proof -
  let ?r = "demo_body (''0'' @ NL @ NL) PENDING_INIT http_transfer_chunked"
  have l: "length (''0'' @ NL @ NL) \<le> 16" by code_simp
  note in_demo = demo_body_in [OF l, of PENDING_INIT http_transfer_chunked]
  have "textint_ok demo_text" "1 \<le> unat (ti_text demo_text)" by code_simp+
  then have t: "text_inv (parse_ctx ?r demo_state)"
    by (simp add: parse_ctx_def text_inv_def http_enter_def demo_body_def minute_http_rqs.defs)
  have f: "flag_set (rq_flags (r_rq ?r)) http_transfer_chunked" "PENDING_INIT \<noteq> 0" "\<not> at_eof (r_in ?r)" by code_simp+
  have b: "iobuf_bytes (r_in ?r) = (if r_pending ?r = 0 then NL else []) @ ''0'' @ NL @ NL"
    unfolding in_demo(2) demo_body_sel using f(2) by simp
  show ?thesis using in_read_empty_trailer [OF in_demo(1) _ f(3) t f(1) _ b] by simp
qed

end
