(* ===== verification/Httpd_Output.thy ===== *)
theory Httpd_Output
  imports Httpd_Chunked
begin

text \<open>
  What reaches the client.  As long as the descriptor accepts what it is given, buffering is
  transparent: the bytes of all writes arrive in their order, as they are or, on a connection that
  stays open, cut into well-formed chunks.
\<close>

section \<open>The state of the output\<close>

abbreviation sent :: "httpd_response \<Rightarrow> bytes" where "sent r \<equiv> w_sent (r_world r)"
abbreviation outb :: "httpd_response \<Rightarrow> bytes" where "outb r \<equiv> iobuf_bytes (r_out r)"

text \<open>The descriptor is open and accepts everything; \<open>n\<close> more bytes will not make the counters
  wrap around.\<close>

definition out_ok :: "nat \<Rightarrow> httpd_response \<Rightarrow> bool" where
  "out_ok n r \<longleftrightarrow> iobuf_ok (r_out r) \<and> iobuf_unwrapped (r_out r) \<and> 0 \<le> st_outfd (r_state r)
     \<and> w_script (r_world r) = [] \<and> unat (io_write (r_out r)) + n < 2 ^ 31"

text \<open>Nothing but the output buffer and what was sent differs.\<close>

definition same_but_out :: "httpd_response \<Rightarrow> httpd_response \<Rightarrow> bool" where
  "same_but_out r r' \<longleftrightarrow> r_rq r' = r_rq r \<and> r_flags r' = r_flags r \<and> r_pending r' = r_pending r
     \<and> r_in r' = r_in r \<and> r_text r' = r_text r \<and> w_in (r_world r') = w_in (r_world r)
     \<and> st_outfd (r_state r') = st_outfd (r_state r) \<and> iobuf_size (r_out r') = iobuf_size (r_out r)"

definition add_sent :: "bytes \<Rightarrow> httpd_response \<Rightarrow> httpd_response" where
  "add_sent xs r = r\<lparr>r_world := (r_world r)\<lparr>w_sent := sent r @ xs\<rparr>\<rparr>"

lemma add_sent_sel [simp]:
  "sent (add_sent xs r) = sent r @ xs" "r_out (add_sent xs r) = r_out r"
  "r_in (add_sent xs r) = r_in r" "r_rq (add_sent xs r) = r_rq r" "r_flags (add_sent xs r) = r_flags r"
  "r_state (add_sent xs r) = r_state r" "w_in (r_world (add_sent xs r)) = w_in (r_world r)"
  "w_script (r_world (add_sent xs r)) = w_script (r_world r)" "r_pending (add_sent xs r) = r_pending r"
  by (simp_all add: add_sent_def)

lemma put_out_sel [simp]:
  "r_out (put_out io r) = io" "r_world (put_out io r) = r_world r" "r_rq (put_out io r) = r_rq r"
  "r_flags (put_out io r) = r_flags r" "r_pending (put_out io r) = r_pending r"
  "r_in (put_out io r) = r_in r" "r_text (put_out io r) = r_text r"
  "st_outfd (r_state (put_out io r)) = st_outfd (r_state r)"
  by (simp_all add: put_out_def)

lemma same_refl [simp]: "same_but_out r r"
  by (simp add: same_but_out_def)

lemma same_trans: "same_but_out r r' \<Longrightarrow> same_but_out r' r'' \<Longrightarrow> same_but_out r r''"
  by (simp add: same_but_out_def)

lemma same_sent [simp]: "same_but_out r (add_sent xs r)"
  by (simp add: same_but_out_def)

lemma send_out_all: "out_ok n r \<Longrightarrow> send_out xs r = (int (length xs), add_sent xs r)"
  by (auto simp: out_ok_def send_out_def writev_def write_some_def add_sent_def)

lemma out_ok_sent [simp]: "out_ok n (add_sent xs r) = out_ok n r"
  by (simp add: out_ok_def)

lemma out_ok_mono: "out_ok n r \<Longrightarrow> m \<le> n \<Longrightarrow> out_ok m r"
  by (auto simp: out_ok_def)

section \<open>Chunks\<close>

text \<open>A piece of output on the wire.\<close>

definition frame :: "bool \<Rightarrow> bytes \<Rightarrow> bytes" where
  "frame chunked xs = (if xs = [] then [] else if chunked then fmt_x (length xs) @ NL @ xs @ NL else xs)"

lemma frame_plain [simp]: "frame False xs = xs"
  by (simp add: frame_def)

lemma to_base_length:
  assumes "2 \<le> b"
  shows "n < b ^ Suc k \<Longrightarrow> length (to_base b n) \<le> Suc k"
proof (induction k arbitrary: n)
  case 0
  then show ?case by (simp add: to_base.simps)
next
  case (Suc k)
  show ?case
  proof (cases "n < b")
    case False
    have "n div b < b ^ Suc k" using Suc.prems assms by (simp add: less_mult_imp_div_less mult.commute)
    then show ?thesis using Suc.IH [of "n div b"] False assms by (simp add: to_base.simps [of b n])
  qed (simp add: to_base.simps)
qed

lemma fmt_x_length: "n < 2 ^ 20 \<Longrightarrow> length (fmt_x n) \<le> 5"
  using to_base_length [of 16 n 4] by (simp add: fmt_x_def)

text \<open>How much a chunk may carry: its size line has room for five digits.\<close>

definition chunk_limit :: "bool \<Rightarrow> nat" where
  "chunk_limit chunked = (if chunked then 2 ^ 20 else 2 ^ 31)"

lemma chunk_vector_eq:
  assumes "iobuf_ok io" "iobuf_unwrapped io" "unat cnt \<le> length buf"
    and "length (iobuf_bytes io) + unat cnt < chunk_limit chunked" "minute_iobuf_used io + cnt \<noteq> 0"
  shows "chunk_vector buf cnt chunked io = Some (frame chunked (iobuf_bytes io @ take (unat cnt) buf))"
    "length (chunk_prefix chunked (minute_iobuf_used io + cnt)) \<le> 7"
    "frame chunked (iobuf_bytes io @ take (unat cnt) buf) =
      chunk_prefix chunked (minute_iobuf_used io + cnt) @ iobuf_bytes io @ take (unat cnt) buf
        @ (if chunked then NL else [])"
proof -
  let ?n = "minute_iobuf_used io + cnt" and ?xs = "iobuf_bytes io @ take (unat cnt) buf"
  have lim: "chunk_limit chunked \<le> 2 ^ 31" by (simp add: chunk_limit_def)
  have n: "unat ?n = length (iobuf_bytes io) + unat cnt"
    using assms(4) lim unfolding length_iobuf_bytes by (intro unat_add_small) simp
  have l: "length ?xs = unat ?n" using n assms(3) by simp
  have ne: "?xs \<noteq> []" using l assms(5) by (metis length_0_conv unat_eq_0)
  show p: "length (chunk_prefix chunked ?n) \<le> 7"
    using fmt_x_length [of "unat ?n"] assms(4) n by (auto simp: chunk_prefix_def chunk_limit_def NL_def)
  show f: "frame chunked ?xs = chunk_prefix chunked ?n @ iobuf_bytes io @ take (unat cnt) buf
      @ (if chunked then NL else [])"
    unfolding frame_def chunk_prefix_def l using ne by (simp only: if_False append_assoc split: if_split) simp
  obtain k A B xs ys where g: "minute_iobuf_gather io = (k, A, B)"
    "mem_slice (io_data io) (fst A) (snd A) = Some xs" "mem_slice (io_data io) (fst B) (snd B) = Some ys"
    "xs @ ys = iobuf_bytes io"
    by (rule minute_iobuf_gather_eq [OF assms(1,2)]) blast
  have "mem_slice (snprintf_block 8 (chunk_prefix chunked ?n)) 0 (length (chunk_prefix chunked ?n))
      = Some (chunk_prefix chunked ?n)"
    using p by (simp add: mem_slice_def snprintf_block_def)
  moreover have "mem_slice buf 0 (unat cnt) = Some (take (unat cnt) buf)"
    using assms(3) by (simp add: mem_slice_def)
  ultimately show "chunk_vector buf cnt chunked io = Some (frame chunked ?xs)"
    unfolding f by (simp add: chunk_vector_def Let_def g(1-3) flip: g(4))
qed

lemma minute_httpd_chunk_full:
  assumes "out_ok 0 r" "unat cnt \<le> length buf" "length (outb r) + unat cnt < chunk_limit chunked"
  shows "\<exists>n. minute_httpd_chunk buf cnt chunked r = Some (Some (n,
      put_out (iobuf_skip (length (outb r)) (r_out r)) (add_sent (frame chunked (outb r @ take (unat cnt) buf)) r)))"
proof -
  let ?io = "r_out r" and ?tot = "minute_iobuf_used (r_out r) + cnt"
  let ?xs = "outb r @ take (unat cnt) buf" and ?p = "chunk_prefix chunked ?tot"
  have io: "iobuf_ok ?io" "iobuf_unwrapped ?io" using assms(1) by (auto simp: out_ok_def)
  have lim: "chunk_limit chunked \<le> 2 ^ 31" by (simp add: chunk_limit_def)
  have n: "unat ?tot = length (outb r) + unat cnt"
    using assms(3) lim unfolding length_iobuf_bytes by (intro unat_add_small) simp
  show ?thesis
  proof (cases "?tot = 0")
    case True
    then have z: "length (outb r) = 0" "unat cnt = 0" using n by auto
    then have "put_out (iobuf_skip 0 ?io) (add_sent [] r) = r"
      by (simp add: put_out_def iobuf_skip_def add_sent_def)
    then show ?thesis
      using True z by (subst minute_httpd_chunk.simps) (simp add: Let_def frame_def)
  next
    case False
    note v = chunk_vector_eq [OF io assms(2,3) False]
    let ?v = "frame chunked ?xs"
    have l: "length ?v = length ?p + length (outb r) + unat cnt + (if chunked then 2 else 0)"
      unfolding v(3) using assms(2) by (simp add: NL_def)
    have "(if chunked then 2 else 0) \<le> (2 :: nat)" "(2 :: nat) ^ 31 + 9 < 2 ^ 32" by simp_all
    then have small: "length ?v < 2 ^ 32" using l v(2) assms(3) lim by linarith
    have w: "word_of_int (int (length ?v)) = (of_nat (length ?v) :: unsigned)"
      "unat (of_nat (length ?v) :: unsigned) = length ?v"
      using small by (simp_all add: unat_of_nat_small)
    have pre: "unat (of_nat (length ?p) :: unsigned) = length ?p"
      using v(2) by (intro unat_of_nat_small) simp
    have pu: "unat (of_nat (length ?p) + minute_iobuf_used ?io) = length ?p + length (outb r)"
      using pre l small unfolding length_iobuf_bytes by (subst unat_add_small) simp_all
    have c: "\<not> (of_nat (length ?v) :: unsigned) < of_nat (length ?p)"
      "\<not> (of_nat (length ?v) :: unsigned) < of_nat (length ?p) + minute_iobuf_used ?io"
      "\<not> (of_nat (length ?v) :: unsigned) < ?tot"
      unfolding word_less_nat_alt w pre pu n using l by simp_all
    have "unat ?tot \<noteq> 0" using False by (simp add: unat_eq_0)
    then have "0 < length ?v" using l n by linarith
    then have pos: "0 < int (length ?v)" by (simp only: of_nat_0_less_iff)
    have skip: "?io\<lparr>io_read := io_read ?io + minute_iobuf_used ?io\<rparr> = iobuf_skip (length (outb r)) ?io"
      by (simp add: iobuf_skip_def length_iobuf_bytes)
    show ?thesis
      using False v(1) pos
      by (subst minute_httpd_chunk.simps)
        (simp add: Let_def send_out_all [OF assms(1)] w c skip)
  qed
qed


lemma skip_all:
  assumes "out_ok n r"
  shows "out_ok n (put_out (iobuf_skip (length (outb r)) (r_out r)) r)"
    "iobuf_bytes (iobuf_skip (length (outb r)) (r_out r)) = []"
  using assms ring.skip_ok [of "r_out r" "length (outb r)"] ring.skip_contents [of "r_out r" "length (outb r)"]
    skip_unwrapped [of "r_out r" "length (outb r)"] by (simp_all add: out_ok_def)

section \<open>Delivery\<close>

text \<open>The bytes \<open>xs\<close> have been handed to the output: some pieces of what was buffered went out,
  each as one frame, and the rest is buffered; nothing went out if there was room for all.\<close>

definition delivers :: "bool \<Rightarrow> httpd_response \<Rightarrow> bytes \<Rightarrow> httpd_response \<Rightarrow> bool" where
  "delivers c r xs r' \<longleftrightarrow> same_but_out r r'
     \<and> (\<exists>fs. [] \<notin> set fs \<and> sent r' = sent r @ concat (map (frame c) fs) \<and> concat fs @ outb r' = outb r @ xs)
     \<and> (length (outb r) + length xs \<le> iobuf_size (r_out r) \<longrightarrow> sent r' = sent r)"

lemma frame_nonempty: "xs \<noteq> [] \<Longrightarrow> frame c xs \<noteq> []"
  by (simp add: frame_def NL_def)

lemma frames_nil: "[] \<notin> set fs \<Longrightarrow> concat (map (frame c) fs) = [] \<Longrightarrow> fs = []"
  using frame_nonempty [of "hd fs" c] by (cases fs) auto

lemma delivers_nil: "delivers c r [] r"
  unfolding delivers_def by (intro conjI exI [of _ "[]"]) simp_all

lemma delivers_trans:
  assumes "delivers c r xs r'" "delivers c r' ys r''"
  shows "delivers c r (xs @ ys) r''"
proof -
  obtain fs where fs: "[] \<notin> set fs" "sent r' = sent r @ concat (map (frame c) fs)"
      "concat fs @ outb r' = outb r @ xs" using assms(1) by (auto simp: delivers_def)
  obtain gs where gs: "[] \<notin> set gs" "sent r'' = sent r' @ concat (map (frame c) gs)"
      "concat gs @ outb r'' = outb r' @ ys" using assms(2) by (auto simp: delivers_def)
  have s: "same_but_out r r''" "iobuf_size (r_out r') = iobuf_size (r_out r)"
    using assms by (auto simp: delivers_def same_but_out_def)
  have "sent r'' = sent r" if "length (outb r) + length (xs @ ys) \<le> iobuf_size (r_out r)"
  proof -
    have 1: "sent r' = sent r" using assms(1) that by (auto simp: delivers_def)
    then have "fs = []" using frames_nil [OF fs(1)] fs(2) by simp
    then have "outb r' = outb r @ xs" using fs(3) by simp
    then have "sent r'' = sent r'" using assms(2) that s(2) by (auto simp: delivers_def)
    then show ?thesis using 1 by simp
  qed
  moreover have "concat (fs @ gs) @ outb r'' = outb r @ xs @ ys"
    using fs(3) gs(3) by (metis append_assoc concat_append)
  ultimately show ?thesis
    using s(1) fs(1,2) gs(1,2) unfolding delivers_def
    by (auto intro!: exI [of _ "fs @ gs"])
qed

lemma delivers_plain:
  assumes "delivers False r xs r'"
  shows "sent r' @ outb r' = sent r @ outb r @ xs"
proof -
  obtain fs where fs: "sent r' = sent r @ concat (map (frame False) fs)" "concat fs @ outb r' = outb r @ xs"
    using assms by (auto simp: delivers_def)
  have "map (frame False) fs = fs" by (induction fs) simp_all
  then show ?thesis using fs by (metis append_assoc)
qed

lemma delivers_room:
  assumes "delivers c r xs r'" "length (outb r) + length xs \<le> iobuf_size (r_out r)"
  shows "sent r' = sent r" "outb r' = outb r @ xs"
proof -
  obtain fs where fs: "[] \<notin> set fs" "sent r' = sent r @ concat (map (frame c) fs)"
      "concat fs @ outb r' = outb r @ xs" using assms(1) by (auto simp: delivers_def)
  show "sent r' = sent r" using assms by (auto simp: delivers_def)
  then have "fs = []" using frames_nil [OF fs(1)] fs(2) by simp
  then show "outb r' = outb r @ xs" using fs(3) by simp
qed

lemma output_delivers:
  assumes "out_ok (n + unat cnt) r" "0 < unat cnt" "unat cnt \<le> length buf"
    and "iobuf_size (r_out r) + unat cnt < chunk_limit c"
  shows "\<exists>r'. minute_httpd_output buf cnt c r = Some (Some (sint cnt, r'))
    \<and> delivers c r (take (unat cnt) buf) r' \<and> out_ok n r'"
proof -
  have io: "iobuf_ok (r_out r)" "iobuf_unwrapped (r_out r)" "out_ok 0 r"
    using assms(1) by (auto simp: out_ok_def)
  have u: "length (outb r) \<le> iobuf_size (r_out r)" by (rule ring.contents_bound [OF io(1)])
  have free: "minute_iobuf_free (r_out r) < cnt \<longleftrightarrow> iobuf_size (r_out r) < length (outb r) + unat cnt"
    unfolding word_less_nat_alt unat_free [OF io(1)] length_iobuf_bytes using u length_iobuf_bytes [of "r_out r"]
    by linarith
  show ?thesis
  proof (cases "minute_iobuf_free (r_out r) < cnt")
    case True
    let ?r = "put_out (iobuf_skip (length (outb r)) (r_out r)) (add_sent (frame c (outb r @ take (unat cnt) buf)) r)"
    have "length (outb r) + unat cnt < chunk_limit c" using u assms(4) by linarith
    from minute_httpd_chunk_full [OF io(3) assms(3) this]
    have "minute_httpd_output buf cnt c r = Some (Some (sint cnt, ?r))"
      using True by (auto simp: minute_httpd_output_def)
    moreover have "out_ok n ?r" "outb ?r = []"
      using skip_all [of "n + unat cnt" "add_sent (frame c (outb r @ take (unat cnt) buf)) r"] assms(1)
      by (auto intro: out_ok_mono)
    moreover have "delivers c r (take (unat cnt) buf) ?r"
      using calculation(3) True free assms(2,3) unfolding delivers_def
      by (auto simp: same_but_out_def intro!: exI [of _ "[outb r @ take (unat cnt) buf]"])
    ultimately show ?thesis by blast
  next
    case False
    let ?r = "put_out (iobuf_fill (take (unat cnt) buf) (r_out r)) r"
    have fits: "length (outb r) + unat cnt \<le> iobuf_size (r_out r)" using False free by simp
    have sz: "iobuf_size (r_out r) < 2 ^ 31" by (rule iobuf_ok_size(2) [OF io(1)])
    have "minute_iobuf_write buf cnt (r_out r) = Some (int (unat cnt), iobuf_fill (take (unat cnt) buf) (r_out r))"
      using minute_iobuf_write_eq [OF io(1) assms(2,3)] fits sz by (simp add: length_iobuf_bytes)
    then have "minute_httpd_output buf cnt c r = Some (Some (sint cnt, ?r))"
      using False by (simp add: minute_httpd_output_def)
    moreover have f: "iobuf_ok (iobuf_fill (take (unat cnt) buf) (r_out r))" "outb ?r = outb r @ take (unat cnt) buf"
      using fits assms(3) ring.fill_ok [OF io(1)] ring.fill_contents [OF io(1)] by simp_all
    moreover have "out_ok n ?r"
      using f(1) assms(1,3) fill_unwrapped [OF io(2), of "take (unat cnt) buf"] by (simp add: out_ok_def)
    moreover have "delivers c r (take (unat cnt) buf) ?r"
      using f(2) fits assms(3) unfolding delivers_def
      by (auto simp: same_but_out_def intro!: exI [of _ "[]"])
    ultimately show ?thesis by blast
  qed
qed

lemma print_delivers:
  assumes "out_ok (n + length s) r" "s \<noteq> []" "iobuf_size (r_out r) + length s < chunk_limit c"
  shows "\<exists>k r'. minute_httpd_print s c r = Some (Some (k, r')) \<and> delivers c r s r' \<and> out_ok n r'"
proof -
  have u: "unat (of_nat (length s) :: unsigned) = length s"
    using assms(1) by (intro unat_of_nat_small) (simp add: out_ok_def)
  then show ?thesis
    using output_delivers [of n "of_nat (length s)" r s c] assms by (auto simp: minute_httpd_print_def)
qed

lemma response_header_name_nonempty: "response_header_name h \<noteq> []"
  by (cases h; simp only:; code_simp)

definition header_line :: "http_response_header \<Rightarrow> string \<Rightarrow> bytes" where
  "header_line h v = response_header_name h @ '': '' @ v @ NL"

lemma header_delivers:
  assumes "out_ok (n + length (header_line h v)) r" "v \<noteq> []"
    and "iobuf_size (r_out r) + length (header_line h v) < 2 ^ 31"
  shows "\<exists>r'. minute_httpd_header h v r = Some (Some r') \<and> delivers False r (header_line h v) r' \<and> out_ok n r'"
proof -
  let ?name = "response_header_name h"
  have len: "length (header_line h v) = length ?name + (2 + (length v + 2))"
    by (simp add: header_line_def NL_def)
  have lim: "chunk_limit False = 2 ^ 31" by (simp add: chunk_limit_def)
  have ne: "?name \<noteq> []" by (rule response_header_name_nonempty)
  have size: "iobuf_size (r_out q) = iobuf_size (r_out r)" if "delivers False r xs q" for xs q
    using that by (simp add: delivers_def same_but_out_def)
  have o: "out_ok ((n + (2 + (length v + 2))) + length ?name) r"
    using assms(1) unfolding len by (simp add: out_ok_def)
  have room: "iobuf_size (r_out r) + length ?name < chunk_limit False"
    "iobuf_size (r_out r) + 2 < chunk_limit False" "iobuf_size (r_out r) + length v < chunk_limit False"
    using assms(3) len lim by linarith+
  obtain r1 k1 where 1: "minute_httpd_print ?name False r = Some (Some (k1, r1))"
      "delivers False r ?name r1" "out_ok (n + (2 + (length v + 2))) r1"
    using print_delivers [OF o ne room(1)] by blast
  have o2: "out_ok ((n + (length v + 2)) + unat (2 :: unsigned)) r1"
    using 1(3) by (simp add: out_ok_def)
  obtain r2 k2 where 2: "minute_httpd_output '': '' 2 False r1 = Some (Some (k2, r2))"
      "delivers False r1 '': '' r2" "out_ok (n + (length v + 2)) r2"
    using output_delivers [OF o2, of "'': ''" False] room(2) size [OF 1(2)] by auto
  note 12 = delivers_trans [OF 1(2) 2(2)]
  have o3: "out_ok ((n + 2) + length v) r2" using 2(3) by (simp add: out_ok_def)
  obtain r3 k3 where 3: "minute_httpd_print v False r2 = Some (Some (k3, r3))"
      "delivers False r2 v r3" "out_ok (n + 2) r3"
    using print_delivers [OF o3 assms(2), of False] room(3) size [OF 12] by auto
  note 13 = delivers_trans [OF 12 3(2)]
  obtain r4 k4 where 4: "minute_httpd_output NL 2 False r3 = Some (Some (k4, r4))"
      "delivers False r3 NL r4" "out_ok n r4"
    using output_delivers [of n 2 r3 NL False] 3(3) room(2) size [OF 13] by (auto simp: NL_def)
  have "minute_httpd_header h v r = Some (Some r4)"
    using 1(1) 2(1) 3(1) 4(1) by (simp add: minute_httpd_header_def)
  moreover have "delivers False r (header_line h v) r4"
    using delivers_trans [OF 13 4(2)] by (simp add: header_line_def)
  ultimately show ?thesis using 4(3) by blast
qed


lemma flush_delivers:
  assumes "out_ok n r" "length (outb r) < chunk_limit (flag_set (r_flags r) httpd_te_chunked)"
  shows "\<exists>r'. minute_httpd_flush r = Some (Some r') \<and> same_but_out r r' \<and> out_ok n r' \<and> outb r' = []
    \<and> sent r' = sent r @ frame (flag_set (r_flags r) httpd_te_chunked) (outb r)"
proof -
  let ?c = "flag_set (r_flags r) httpd_te_chunked"
  let ?q = "add_sent (frame ?c (outb r)) r"
  have "out_ok 0 r" using assms(1) by (rule out_ok_mono) simp
  from minute_httpd_chunk_full [OF this, of 0 "[]" ?c] assms(2)
  have "minute_httpd_flush r = Some (Some (put_out (iobuf_skip (length (outb r)) (r_out r)) ?q))"
    by (auto simp: minute_httpd_flush_def)
  then show ?thesis
    using skip_all [of n ?q] assms(1) by (auto simp: same_but_out_def)
qed

section \<open>Properties\<close>

text \<open>What an application that only writes does: one call of \<open>out->write\<close> after the other.\<close>

primrec write_all :: "bytes list \<Rightarrow> httpd_response \<Rightarrow> httpd_response c_loop" where
  "write_all [] r = Some (Some r)"
| "write_all (b # bs) r =
     c_bind (minute_httpd_write b (of_nat (length b)) r) (\<lambda>(n, r). write_all bs r)"

lemma write_all_delivers:
  "out_ok (n + length (concat bs)) r \<Longrightarrow> [] \<notin> set bs
   \<Longrightarrow> \<forall>b \<in> set bs. iobuf_size (r_out r) + length b < chunk_limit (flag_set (r_flags r) httpd_te_chunked)
   \<Longrightarrow> \<exists>r'. write_all bs r = Some (Some r')
     \<and> delivers (flag_set (r_flags r) httpd_te_chunked) r (concat bs) r' \<and> out_ok n r'"
proof (induction bs arbitrary: r)
  case Nil
  then show ?case using delivers_nil by auto
next
  case (Cons b bs)
  let ?c = "flag_set (r_flags r) httpd_te_chunked"
  have u: "unat (of_nat (length b) :: unsigned) = length b"
    using Cons.prems(1) by (intro unat_of_nat_small) (simp add: out_ok_def)
  have o: "out_ok ((n + length (concat bs)) + unat (of_nat (length b) :: unsigned)) r"
    using Cons.prems(1) u by (simp add: out_ok_def)
  obtain r1 where 1: "minute_httpd_write b (of_nat (length b)) r = Some (Some (sint (of_nat (length b) :: unsigned), r1))"
      "delivers ?c r b r1" "out_ok (n + length (concat bs)) r1"
    using output_delivers [OF o, of b ?c] Cons.prems(2,3) u by (auto simp: minute_httpd_write_def)
  have s: "r_flags r1 = r_flags r" "iobuf_size (r_out r1) = iobuf_size (r_out r)"
    using 1(2) by (auto simp: delivers_def same_but_out_def)
  obtain r2 where 2: "write_all bs r1 = Some (Some r2)" "delivers ?c r1 (concat bs) r2" "out_ok n r2"
    using Cons.IH [of r1] 1(3) Cons.prems(2,3) s by auto
  show ?case using 1(1) 2(1,3) delivers_trans [OF 1(2) 2(2)] by auto
qed

text \<open>C9. Buffering and chunking are transparent: after any sequence of writes and a flush, with
  a descriptor that takes what it is given, what was sent is the buffered and the written bytes in
  their order, whole on a connection that is to be closed, and on one that stays open cut into
  chunks, each with its size in hexadecimal, none of them empty (an empty one would end the
  transfer).\<close>
theorem output_transparent:
  assumes "out_ok (length (concat bs)) r" "[] \<notin> set bs"
    and "c = flag_set (r_flags r) httpd_te_chunked" "iobuf_size (r_out r) < chunk_limit c"
    and "\<forall>b \<in> set bs. iobuf_size (r_out r) + length b < chunk_limit c"
  shows "\<exists>r' fs. c_bind (write_all bs r) minute_httpd_flush = Some (Some r') \<and> outb r' = []
    \<and> sent r' = sent r @ concat (map (frame c) fs) \<and> concat fs = outb r @ concat bs \<and> [] \<notin> set fs"
proof -
  obtain r1 where 1: "write_all bs r = Some (Some r1)" "delivers c r (concat bs) r1" "out_ok 0 r1"
    using write_all_delivers [of 0 bs r] assms by auto
  then obtain fs where fs: "[] \<notin> set fs" "sent r1 = sent r @ concat (map (frame c) fs)"
      "concat fs @ outb r1 = outb r @ concat bs" by (auto simp: delivers_def)
  have s: "r_flags r1 = r_flags r" "iobuf_size (r_out r1) = iobuf_size (r_out r)" "iobuf_ok (r_out r1)"
    using 1(2,3) by (auto simp: delivers_def same_but_out_def out_ok_def)
  have "length (outb r1) < chunk_limit (flag_set (r_flags r1) httpd_te_chunked)"
    using ring.contents_bound [OF s(3)] s(1,2) assms(3,4) by simp
  from flush_delivers [OF 1(3) this] obtain r2 where
    2: "minute_httpd_flush r1 = Some (Some r2)" "outb r2 = []" "sent r2 = sent r1 @ frame c (outb r1)"
    using s(1) assms(3) by auto
  let ?gs = "if outb r1 = [] then fs else fs @ [outb r1]"
  have "sent r2 = sent r @ concat (map (frame c) ?gs)" using 2(3) fs(2) by (simp add: frame_def)
  moreover have "concat ?gs = outb r @ concat bs" using fs(3) by auto
  moreover have "[] \<notin> set ?gs" using fs(1) by auto
  ultimately show ?thesis using 1(1) 2(1,2) by (intro exI [of _ r2] exI [of _ ?gs]) simp
qed

text \<open>Two writes into a ring of 8 bytes, on a connection that stays open.\<close>

definition demo_out :: "unsigned \<Rightarrow> httpd_response" where
  "demo_out flags = (demo_body [] 0 0)\<lparr>r_flags := flags\<rparr>"

lemma demo_out_facts:
  assumes "n < 1000"
  shows "out_ok n (demo_out flags)" "outb (demo_out flags) = []" "iobuf_size (r_out (demo_out flags)) = 8"
    "r_flags (demo_out flags) = flags" "sent (demo_out flags) = []"
proof -
  have "iobuf_unwrapped wrapping_ring" "unat (io_write wrapping_ring) = 6" "iobuf_bytes wrapping_ring = []"
    by code_simp+
  then show "out_ok n (demo_out flags)" "outb (demo_out flags) = []" "iobuf_size (r_out (demo_out flags)) = 8"
    using wrapping_ring_ok assms by (simp_all add: out_ok_def demo_out_def demo_body_def)
qed (simp_all add: demo_out_def demo_body_def)

lemma output_transparent_witness:
  "\<exists>r' fs. c_bind (write_all [''abc'', ''defghij''] (demo_out httpd_connection_keep)) minute_httpd_flush = Some (Some r')
     \<and> sent r' = concat (map (frame True) fs) \<and> concat fs = ''abcdefghij''"
proof -
  let ?r = "demo_out httpd_connection_keep" and ?bs = "[''abc'', ''defghij'']"
  have n: "length (concat ?bs) < 1000" by simp
  note demo = demo_out_facts [OF n, of httpd_connection_keep]
  have f: "True = flag_set (r_flags ?r) httpd_te_chunked" unfolding demo(4) by code_simp
  have l: "iobuf_size (r_out ?r) < chunk_limit True"
    "\<forall>b \<in> set ?bs. iobuf_size (r_out ?r) + length b < chunk_limit True"
    unfolding demo(3) by (simp_all add: chunk_limit_def)
  have ne: "[] \<notin> set ?bs" by simp
  show ?thesis using output_transparent [OF demo(1) ne f l] demo(2,5) by auto
qed

end
