(* ===== verification/Httpd_Response.thy ===== *)
theory Httpd_Response
  imports Httpd Httpd_Output
begin

text \<open>
  Whole responses of \<open>minute_httpd_handle\<close> as the client sees them: the answer to a request that
  could not be parsed, and the answer of an application that sets some headers and writes some
  bytes.
\<close>

section \<open>The parts of a head\<close>

lemma fmt_d_length:
  assumes "0 \<le> i" "i < 1000"
  shows "length (fmt_d i) \<le> 3"
  using to_base_length [of 10 "nat i" 2] assms by (simp add: fmt_d_def)

lemma response_text_length: "length (minute_http_response_text status) \<le> 31"
proof -
  have t: "\<forall>(c, s) \<in> set response_texts. length s \<le> 31" "\<forall>(c, s) \<in> set response_classes. length s \<le> 31"
    by code_simp+
  then show ?thesis
    by (auto simp: minute_http_response_text_def split: option.split dest!: map_of_SomeD)
qed

lemma status_line_length:
  assumes "0 \<le> status" "status < 1000"
  shows "length (status_line v status) \<le> 63" "status_line v status \<noteq> []"
proof -
  have "length (minute_http_version_text v) = 8" by (cases v; simp only:; code_simp)
  then show "length (status_line v status) \<le> 63" "status_line v status \<noteq> []"
    using fmt_d_length [OF assms] response_text_length [of status]
    by (auto simp: status_line_def NL_def)
qed

lemma send_status_eq:
  assumes "out_ok n r" "0 \<le> status" "status < 1000"
  shows "send_status v status r = Some (Some (add_sent (status_line v status) r))"
proof -
  note l = status_line_length [OF assms(2,3), of v]
  have "mem_slice (snprintf_block 64 (status_line v status)) 0 (length (status_line v status))
      = Some (status_line v status)"
    using l(1) by (simp add: mem_slice_def snprintf_block_def)
  then show ?thesis using l(2) by (simp add: send_status_def send_out_all [OF assms(1)])
qed

lemma rfc_date_bounds: "minute_rfc_date gmtime t \<noteq> []" "length (minute_rfc_date gmtime t) \<le> 31"
  by (simp_all add: minute_rfc_date_def Let_def)

definition standard_lines :: "(int \<Rightarrow> tm) \<Rightarrow> unsigned \<Rightarrow> bytes" where
  "standard_lines gmtime now = header_line http_rsp_server SERVER
     @ header_line http_rsp_date (minute_rfc_date gmtime (uint now))"

lemma standard_headers_delivers:
  assumes "out_ok (n + length (standard_lines gmtime now)) r"
    and "iobuf_size (r_out r) + length (standard_lines gmtime now) < 2 ^ 31"
  shows "\<exists>r'. standard_headers gmtime now r = Some (Some r')
    \<and> delivers False r (standard_lines gmtime now) r' \<and> out_ok n r'"
proof -
  let ?a = "header_line http_rsp_server SERVER"
    and ?b = "header_line http_rsp_date (minute_rfc_date gmtime (uint now))"
  have o: "out_ok ((n + length ?b) + length ?a) r"
    using assms(1) by (simp add: standard_lines_def out_ok_def)
  have ne: "SERVER \<noteq> []" by (simp add: SERVER_def)
  obtain r1 where 1: "minute_httpd_header http_rsp_server SERVER r = Some (Some r1)"
      "delivers False r ?a r1" "out_ok (n + length ?b) r1"
    using header_delivers [OF o ne] assms(2) by (auto simp: standard_lines_def)
  have "iobuf_size (r_out r1) = iobuf_size (r_out r)" using 1(2) by (simp add: delivers_def same_but_out_def)
  then obtain r2 where 2: "minute_httpd_header http_rsp_date (minute_rfc_date gmtime (uint now)) r1 = Some (Some r2)"
      "delivers False r1 ?b r2" "out_ok n r2"
    using header_delivers [OF 1(3) rfc_date_bounds(1)] assms(2) by (auto simp: standard_lines_def)
  show ?thesis
    using 1(1) 2(1,3) delivers_trans [OF 1(2) 2(2)]
    by (auto simp: standard_headers_def minute_httpd_header_timestamp_def standard_lines_def)
qed

text \<open>The empty line behind the head, which sends everything so far.\<close>

lemma end_of_head:
  assumes "out_ok n r" "length (outb r) + 2 < 2 ^ 31"
  shows "\<exists>k r'. minute_httpd_chunk NL 2 False r = Some (Some (k, r')) \<and> same_but_out r r' \<and> out_ok n r'
    \<and> outb r' = [] \<and> sent r' = sent r @ outb r @ NL"
proof -
  let ?q = "add_sent (frame False (outb r @ take (unat (2 :: unsigned)) NL)) r"
  have o: "out_ok 0 r" using assms(1) by (rule out_ok_mono) simp
  have "\<exists>k. minute_httpd_chunk NL 2 False r
      = Some (Some (k, put_out (iobuf_skip (length (outb r)) (r_out r)) ?q))"
    by (rule minute_httpd_chunk_full [OF o]) (use assms(2) in \<open>simp_all add: NL_def chunk_limit_def\<close>)
  then show ?thesis
    using skip_all [of n ?q] assms(1) by (auto simp: same_but_out_def NL_def)
qed

lemma standard_body_length:
  assumes "0 \<le> status" "status < 1000"
  shows "length (standard_body_text status) \<le> 134" "standard_body_text status \<noteq> []"
  using fmt_d_length [OF assms] response_text_length [of status]
  by (auto simp: standard_body_text_def Let_def)

lemma standard_body_delivers:
  assumes "out_ok (n + length (standard_body_text status)) r" "0 \<le> status" "status < 1000"
    and "length (outb r) + 134 \<le> iobuf_size (r_out r)"
  shows "\<exists>r'. minute_httpd_standard_body status r = Some (Some r') \<and> same_but_out r r' \<and> out_ok n r'
    \<and> sent r' = sent r \<and> outb r' = outb r @ standard_body_text status"
proof -
  let ?s = "standard_body_text status"
  note l = standard_body_length [OF assms(2,3)]
  have io: "iobuf_ok (r_out r)" "iobuf_unwrapped (r_out r)" using assms(1) by (auto simp: out_ok_def)
  have room: "length (outb r) + length ?s \<le> iobuf_size (r_out r)" using l(1) assms(4) by linarith
  have "minute_iobuf_printf ?s (r_out r) = Some (int (length ?s), iobuf_fill ?s (r_out r))"
    using minute_iobuf_printf_eq [OF io(1), of ?s] l room
    by (simp add: iobuf_room_def length_iobuf_bytes)
  moreover have "out_ok n (put_out (iobuf_fill ?s (r_out r)) r)"
    using assms(1) l(1) fill_unwrapped [OF io(2), of ?s] ring.fill_ok [OF io(1) room] by (simp add: out_ok_def)
  ultimately show ?thesis
    using ring.fill_contents [OF io(1) room]
    by (auto simp: minute_httpd_standard_body_def same_but_out_def)
qed


section \<open>The answer to a request that could not be parsed\<close>

definition close_line :: "http_version \<Rightarrow> bytes" where
  "close_line v = (if v = http_1_1 then header_line http_rsp_connection ''close'' else [])"

definition error_wire :: "(int \<Rightarrow> tm) \<Rightarrow> unsigned \<Rightarrow> http_version \<Rightarrow> int \<Rightarrow> bytes" where
  "error_wire gmtime now v status =
     status_line v status @ standard_lines gmtime now @ close_line v @ NL @ standard_body_text status"

lemma close_line_length: "length (close_line v) \<le> 19"
  by (simp add: close_line_def) code_simp

lemma standard_lines_length: "length (standard_lines gmtime now) \<le> 60"
proof -
  have n: "length (response_header_name http_rsp_server) = 6" "length (response_header_name http_rsp_date) = 4"
    by code_simp+
  then show ?thesis
    using rfc_date_bounds(2) [of gmtime "uint now"]
    by (simp add: standard_lines_def header_line_def NL_def SERVER_def)
qed

lemma close_line_delivers:
  assumes "out_ok (n + length (close_line v)) r" "iobuf_size (r_out r) + length (close_line v) < 2 ^ 31"
  shows "\<exists>r'. (if v = http_1_1 then minute_httpd_header http_rsp_connection ''close'' r else Some (Some r))
      = Some (Some r') \<and> delivers False r (close_line v) r' \<and> out_ok n r'"
  using header_delivers [of n http_rsp_connection "''close''" r] assms delivers_nil [of False r]
  by (auto simp: close_line_def)

lemma handle_error_sends:
  assumes "out_ok (n + 213) r" "outb r = []" "0 \<le> status" "status < 1000"
    and "134 \<le> iobuf_size (r_out r)" "iobuf_size (r_out r) + 213 < 2 ^ 31"
  shows "\<exists>r'. handle_error gmtime now status r = Some (Some r') \<and> outb r' = [] \<and> r_rq r' = r_rq r
    \<and> sent r' = sent r @ error_wire gmtime now (rq_server_protocol (r_rq r)) status"
proof -
  let ?v = "rq_server_protocol (r_rq r)" and ?std = "standard_lines gmtime now"
  note len = close_line_length [of ?v] standard_lines_length [of gmtime now]
  let ?r0 = "(add_sent (status_line ?v status) r)\<lparr>r_flags := 0\<rparr>"
  have o0: "out_ok ((n + 134 + length (close_line ?v)) + length ?std) ?r0"
    using assms(1) len by (simp add: out_ok_def)
  have room: "iobuf_size (r_out ?r0) + length ?std < 2 ^ 31" "iobuf_size (r_out r) + length (close_line ?v) < 2 ^ 31"
    using assms(6) len by simp_all
  obtain r1 where 1: "standard_headers gmtime now ?r0 = Some (Some r1)" "delivers False ?r0 ?std r1"
      "out_ok (n + 134 + length (close_line ?v)) r1"
    using standard_headers_delivers [OF o0 room(1)] by blast
  have s1: "rq_server_protocol (r_rq r1) = ?v" "iobuf_size (r_out r1) = iobuf_size (r_out r)"
    using 1(2) by (simp_all add: delivers_def same_but_out_def)
  obtain r2 where 2: "(if ?v = http_1_1 then minute_httpd_header http_rsp_connection ''close'' r1 else Some (Some r1))
      = Some (Some r2)" "delivers False r1 (close_line ?v) r2" "out_ok (n + 134) r2"
    using close_line_delivers [OF 1(3)] room(2) s1(2) by auto
  note head = delivers_trans [OF 1(2) 2(2)]
  have s2: "same_but_out ?r0 r2" using head by (simp add: delivers_def)
  have "length (outb r2) \<le> iobuf_size (r_out r2)"
    using 2(3) ring.contents_bound by (simp add: out_ok_def)
  then have "length (outb r2) + 2 < 2 ^ 31" using s2 assms(6) by (simp add: same_but_out_def)
  from end_of_head [OF 2(3) this] obtain k r3 where
    3: "minute_httpd_chunk NL 2 False r2 = Some (Some (k, r3))" "same_but_out r2 r3" "out_ok (n + 134) r3"
      "outb r3 = []" "sent r3 = sent r2 @ outb r2 @ NL" by blast
  have s3: "same_but_out ?r0 r3" using same_trans [OF s2 3(2)] .
  obtain r4 where 4: "minute_httpd_standard_body status r3 = Some (Some r4)" "same_but_out r3 r4" "out_ok n r4"
      "sent r4 = sent r3" "outb r4 = outb r3 @ standard_body_text status"
    using standard_body_delivers [of n status r3] out_ok_mono [OF 3(3), of "n + length (standard_body_text status)"]
      standard_body_length(1) [OF assms(3,4)] 3(4) s3 assms(3-5) by (auto simp: same_but_out_def)
  have s4: "same_but_out ?r0 r4" using same_trans [OF s3 4(2)] .
  then have fl: "r_flags r4 = 0" by (simp add: same_but_out_def)
  have "length (outb r4) < 2 ^ 31" using 4(5) 3(4) standard_body_length(1) [OF assms(3,4)] by simp
  then obtain r5 where 5: "minute_httpd_flush r4 = Some (Some r5)" "same_but_out r4 r5" "outb r5 = []"
      "sent r5 = sent r4 @ outb r4"
    using flush_delivers [OF 4(3)] fl by (auto simp: chunk_limit_def flag_set_def)
  have s5: "same_but_out ?r0 r5" using same_trans [OF s4 5(2)] .
  have "minute_httpd_chunk_end r5 = r5"
    using s5 by (simp add: minute_httpd_chunk_end_def same_but_out_def flag_set_def)
  then have "handle_error gmtime now status r = Some (Some r5)"
    using send_status_eq [OF assms(1,3,4), of ?v] 1(1) 2(1) 3(1) 4(1) 5(1) s1(1)
    by (simp add: handle_error_def)
  moreover have "sent r2 @ outb r2 = sent r @ status_line ?v status @ ?std @ close_line ?v"
    using delivers_plain [OF head] assms(2) by simp
  ultimately show ?thesis
    using 3(4,5) 4(4,5) 5(3,4) s5 by (auto simp: error_wire_def same_but_out_def)
qed

section \<open>A request that could not be parsed\<close>

text \<open>The parser's start for the next request of a connection.\<close>

definition fresh_text :: "textint \<Rightarrow> textint" where
  "fresh_text t = t\<lparr>ti_data := (ti_data t)[0 := NUL], ti_text := 1, ti_ints := ti_size t\<rparr>"

definition request_ctx :: "minute_httpd_state \<Rightarrow> http_ctx" where
  "request_ctx st = http_enter zero_rq (minute_http_rqs_init MINUTE_ALL_HEADERS (st_in st)) (st_in st)
     (fresh_text (st_text st))"

text \<open>What the connection has in store.\<close>

definition state_bytes :: "minute_httpd_state \<Rightarrow> world \<Rightarrow> bytes" where
  "state_bytes st w = iobuf_bytes (st_in st) @ stream (w_in w)"

definition state_ok :: "minute_httpd_state \<Rightarrow> world \<Rightarrow> bool" where
  "state_ok st w \<longleftrightarrow> iobuf_ok (st_in st) \<and> \<not> at_eof (st_in st) \<and> textint_ok (st_text st)
     \<and> iobuf_unwrapped (st_in st) \<and> events_ok (w_in w) \<and> \<not> fails (w_in w)
     \<and> unat (io_write (st_in st)) + event_bytes (w_in w) < 2 ^ 31
     \<and> iobuf_ok (st_out st) \<and> 134 \<le> iobuf_size (st_out st) \<and> iobuf_size (st_out st) < 2 ^ 30
     \<and> 0 \<le> st_outfd st \<and> w_script w = []"

text \<open>The response \<open>minute_httpd_handle\<close> starts with.\<close>

definition first_response :: "minute_httpd_state \<Rightarrow> world \<Rightarrow> httpd_response" where
  "first_response st w =
     \<lparr>r_state = st\<lparr>st_out := minute_iobuf_clear (st_out st), st_text := fresh_text (st_text st)\<rparr>,
      r_rq = zero_rq, r_flags = 0, r_pending = 0, r_world = w\<rparr>"

lemma first_response_sel:
  "r_in (first_response st w) = st_in st" "r_out (first_response st w) = minute_iobuf_clear (st_out st)"
  "r_text (first_response st w) = fresh_text (st_text st)" "r_rq (first_response st w) = zero_rq"
  "r_flags (first_response st w) = 0" "r_pending (first_response st w) = 0" "r_world (first_response st w) = w"
  "st_outfd (r_state (first_response st w)) = st_outfd st"
  by (simp_all add: first_response_def)

lemma first_response_ok:
  assumes "state_ok st w" "n < 2 ^ 31"
  shows "out_ok n (first_response st w)" "outb (first_response st w) = []"
    "iobuf_size (r_out (first_response st w)) = iobuf_size (st_out st)" "carries (first_response st w)"
    "minute_http_init MINUTE_ALL_HEADERS (st_in st) (minute_textint_clear (st_text st))
       = Some (minute_http_rqs_init MINUTE_ALL_HEADERS (st_in st), fresh_text (st_text st))"
    "parse_ok (first_response st w) (minute_http_rqs_init MINUTE_ALL_HEADERS (st_in st))"
proof -
  let ?s = "minute_http_rqs_init MINUTE_ALL_HEADERS (st_in st)"
  have ok: "iobuf_ok (st_in st)" "textint_ok (st_text st)" "iobuf_ok (st_out st)" using assms(1) by (auto simp: state_ok_def)
  show "out_ok n (first_response st w)"
    using assms minute_iobuf_clear_ok [of "st_out st"] ok(3)
    by (simp add: out_ok_def first_response_sel state_ok_def iobuf_unwrapped_def minute_iobuf_clear_def)
  show "outb (first_response st w) = []" by (simp add: first_response_sel minute_iobuf_clear_bytes)
  show "iobuf_size (r_out (first_response st w)) = iobuf_size (st_out st)"
    by (simp add: first_response_sel minute_iobuf_clear_def iobuf_size_def)
  show "carries (first_response st w)" using assms(1) by (simp add: carries_def first_response_sel state_ok_def)
  have n: "0 < length (ti_data (st_text st))" using ok(2) textint_ok_nat [OF ok(2)] by (simp add: textint_ok_def)
  show init: "minute_http_init MINUTE_ALL_HEADERS (st_in st) (minute_textint_clear (st_text st))
      = Some (?s, fresh_text (st_text st))"
    using n by (simp add: minute_http_init_def mem_write_def minute_textint_clear_def fresh_text_def)
  have "textint_ok (minute_textint_clear (st_text st))" using ok(2) by (rule textint_clear_ok(1))
  from http_init_ready [OF ok(1) this, of MINUTE_ALL_HEADERS] init
  show "parse_ok (first_response st w) ?s"
    using assms(1) by (auto simp: parse_ok_def first_response_sel state_ok_def)
qed

lemma minute_httpd_handle_eq:
  assumes "state_ok st w"
  shows "minute_httpd_handle app gmtime now st w u =
    c_bind (minute_httpd_read_request (first_response st w) (minute_http_rqs_init MINUTE_ALL_HEADERS (st_in st)))
      (\<lambda>(status, r, s).
         if status < 0 then Some (Some (httpd_client_no_request, r_state r, r_world r, u))
         else if status \<noteq> 0 then
           c_bind (handle_error gmtime now status r) (\<lambda>r.
             Some (Some (- status, r_state r, r_world r, app_error app (r_rq r) status u)))
         else
           c_bind (handle_request app gmtime now r u) (\<lambda>(code, r, u).
             Some (Some (code, r_state r, r_world r, u))))"
  using first_response_ok(5) [OF assms, of 0]
  by (simp add: minute_httpd_handle_def Let_def first_response_def cong: if_cong)

lemma request_ctx_eq:
  "parse_ctx (first_response st w) (minute_http_rqs_init MINUTE_ALL_HEADERS (st_in st)) = request_ctx st"
  by (simp add: parse_ctx_def request_ctx_def first_response_sel)

text \<open>Reading the first request of a connection.\<close>

lemma first_request:
  assumes "state_ok st w" "unfolded False (state_bytes st w)"
  shows "\<exists>status r s. minute_httpd_read_request (first_response st w) (minute_http_rqs_init MINUTE_ALL_HEADERS (st_in st))
      = Some (Some (status, r, s)) \<and> same_but_in (first_response st w) r
    \<and> (status = 0 \<longrightarrow> carries r) \<and> textint_ok (r_text r)
    \<and> request_answer (request_ctx st) (state_bytes st w) False (iobuf_size (st_in st) \<le> length (state_bytes st w)) status r"
proof -
  let ?s = "minute_http_rqs_init MINUTE_ALL_HEADERS (st_in st)" and ?r = "first_response st w"
  have first: "carries ?r" "parse_ok ?r ?s" using first_response_ok(4,6) [OF assms(1), of 0] by auto
  have "s_m ?s = io_read (r_in ?r)" "s_st ?s \<noteq> h_nl"
    by (simp_all add: minute_http_rqs_init_def first_response_sel)
  moreover have "\<not> fails (w_in w)" "events_ok (w_in w)" using assms(1) by (auto simp: state_ok_def)
  ultimately obtain status r s where
    r: "minute_httpd_read_request ?r ?s = Some (Some (status, r, s))" "left_ok status ?r r"
      "request_answer (request_ctx st) (state_bytes st w) False
         (iobuf_size (st_in st) \<le> length (state_bytes st w)) status r"
    using read_request_ends [of ?r ?s] first(2) assms(2) unfolding request_ctx_eq
    by (auto simp: first_response_sel state_bytes_def)
  show ?thesis using r first(1) read_request_same [OF r(1)] by (auto simp: left_ok_def)
qed

lemma request_refused:
  assumes "state_ok st w" "unfolded False (state_bytes st w)"
    and "\<nexists>y. http_scan False (state_bytes st w) (request_ctx st) = Done 0 y"
  shows "\<exists>code st' w' u'. minute_httpd_handle app gmtime now st w u = Some (Some (code, st', w', u'))
    \<and> (code = httpd_client_no_request \<and> w_sent w' = w_sent w \<and> u' = u
         \<and> (\<exists>y. http_scan False (state_bytes st w) (request_ctx st) = Wants y)
      \<or> (\<exists>k rq. code = - int k \<and> u' = app_error app rq (int k) u
         \<and> w_sent w' = w_sent w @ error_wire gmtime now (rq_server_protocol rq) (int k)
         \<and> iobuf_bytes (st_out st') = []
         \<and> (k = 414 \<and> iobuf_size (st_in st) \<le> length (state_bytes st w)
            \<or> (\<exists>y. http_scan False (state_bytes st w) (request_ctx st) = Done k y \<and> rq = c_rq y
                 \<and> k \<in> error_codes))))"
proof -
  obtain status r s where
    r: "minute_httpd_read_request (first_response st w) (minute_http_rqs_init MINUTE_ALL_HEADERS (st_in st))
        = Some (Some (status, r, s))" "same_but_in (first_response st w) r"
      "request_answer (request_ctx st) (state_bytes st w) False
         (iobuf_size (st_in st) \<le> length (state_bytes st w)) status r"
    using first_request [OF assms(1,2)] by blast
  have o: "out_ok 213 r" "outb r = []" "sent r = w_sent w" "iobuf_size (r_out r) = iobuf_size (st_out st)"
    using r(2) first_response_ok(1-3) [OF assms(1), of 213]
    by (auto simp: same_but_in_def out_ok_def first_response_sel)
  show ?thesis
  proof (cases "status = -1")
    case True
    then show ?thesis
      using r assms(3) o(3) by (auto simp: minute_httpd_handle_eq [OF assms(1)] request_answer_def)
  next
    case False
    then obtain k where k: "status = int k" "k \<in> error_codes"
        "k = 414 \<and> iobuf_size (st_in st) \<le> length (state_bytes st w)
         \<or> (\<exists>y. http_scan False (state_bytes st w) (request_ctx st) = Done k y \<and> r_rq r = c_rq y)"
      using r(3) assms(3) by (fastforce simp: request_answer_def error_codes_def)
    have range: "0 \<le> status" "status < 1000" "status \<noteq> 0" using k(1,2) by (auto simp: error_codes_def)
    obtain r' where r': "handle_error gmtime now status r = Some (Some r')" "outb r' = []" "r_rq r' = r_rq r"
        "sent r' = sent r @ error_wire gmtime now (rq_server_protocol (r_rq r)) status"
      using handle_error_sends [of 0 r status] o(1,2,4) range assms(1) by (auto simp: state_ok_def)
    have "minute_httpd_handle app gmtime now st w u
        = Some (Some (- status, r_state r', r_world r', app_error app (r_rq r') status u))"
      using r(1) range r'(1) by (simp add: minute_httpd_handle_eq [OF assms(1)])
    then show ?thesis using k r' o(3) by (auto intro!: exI [of _ k] exI [of _ "r_rq r"])
  qed
qed


end
