(* ===== verification/Httpd_Answer.thy ===== *)
theory Httpd_Answer
  imports Httpd_Response
begin

text \<open>
  What an application may do with a request, as a contract: it sets headers, may take some of the
  payload, chooses a status and writes a body; and what \<open>minute_httpd_handle\<close>
  (\<open>src/libhttpd/httpd.c\<close>) makes of it, the head on the wire and the body in its chunks.
\<close>

section \<open>Header lines\<close>

primrec header_all :: "(http_response_header \<times> string) list \<Rightarrow> httpd_response \<Rightarrow> httpd_response c_loop" where
  "header_all [] r = Some (Some r)"
| "header_all (hv # hs) r = c_bind (minute_httpd_header (fst hv) (snd hv) r) (header_all hs)"

definition header_lines :: "(http_response_header \<times> string) list \<Rightarrow> bytes" where
  "header_lines hs = concat (map (\<lambda>hv. header_line (fst hv) (snd hv)) hs)"

lemma delivers_size: "delivers c r xs q \<Longrightarrow> iobuf_size (r_out q) = iobuf_size (r_out r)"
  by (simp add: delivers_def same_but_out_def)

lemma header_all_delivers:
  "out_ok (n + length (header_lines hs)) r \<Longrightarrow> [] \<notin> snd ` set hs
   \<Longrightarrow> iobuf_size (r_out r) + length (header_lines hs) < 2 ^ 31
   \<Longrightarrow> \<exists>r'. header_all hs r = Some (Some r') \<and> delivers False r (header_lines hs) r' \<and> out_ok n r'"
proof (induction hs arbitrary: r)
  case Nil
  then show ?case using delivers_nil by (auto simp: header_lines_def)
next
  case (Cons hv hs)
  let ?l = "header_line (fst hv) (snd hv)"
  have o: "out_ok ((n + length (header_lines hs)) + length ?l) r"
    using Cons.prems(1) by (simp add: header_lines_def out_ok_def)
  have ne: "snd hv \<noteq> []" using Cons.prems(2) by auto
  obtain r1 where 1: "minute_httpd_header (fst hv) (snd hv) r = Some (Some r1)" "delivers False r ?l r1"
      "out_ok (n + length (header_lines hs)) r1"
    using header_delivers [OF o ne] Cons.prems(3) by (auto simp: header_lines_def)
  obtain r2 where 2: "header_all hs r1 = Some (Some r2)" "delivers False r1 (header_lines hs) r2" "out_ok n r2"
    using Cons.IH [OF 1(3)] Cons.prems(2,3) delivers_size [OF 1(2)] by (auto simp: header_lines_def)
  show ?case
    using 1(1) 2(1,3) delivers_trans [OF 1(2) 2(2)] by (auto simp: header_lines_def)
qed

lemma header_all_append: "header_all (hs @ hs') r = c_bind (header_all hs r) (header_all hs')"
proof (induction hs arbitrary: r)
  case (Cons hv hs)
  have "header_all (hs @ hs') = (\<lambda>r. c_bind (header_all hs r) (header_all hs'))"
    by (rule ext) (rule Cons.IH)
  then show ?case by (simp add: c_bind_assoc)
qed simp

lemma header_lines_append: "header_lines (hs @ hs') = header_lines hs @ header_lines hs'"
  by (simp add: header_lines_def)

section \<open>The head\<close>

text \<open>Whether the connection stays open.\<close>

definition keeps_open :: "minute_http_rq \<Rightarrow> bool" where
  "keeps_open rq =
     (if http_1_1 \<le> rq_server_protocol rq then \<not> flag_set (rq_flags rq) http_connection_close
      else flag_set (rq_flags rq) http_connection_keep)"

definition head_flags :: "bool \<Rightarrow> unsigned" where
  "head_flags keep = (if keep then httpd_connection_keep else 0)"

lemma head_flags_read [simp]:
  "has_flags (head_flags keep) httpd_connection_keep = keep" "flag_set (head_flags keep) httpd_te_chunked = keep"
  by (cases keep; simp add: head_flags_def has_flags_def flag_set_def httpd_connection_keep_def httpd_te_chunked_def)+

definition connection_lines :: "http_version \<Rightarrow> bool \<Rightarrow> bytes" where
  "connection_lines v keep =
     (if keep then (if v < http_1_1 then header_line http_rsp_connection ''keep-alive'' else [])
        @ header_line http_rsp_transfer_encoding ''chunked''
      else close_line v)"

lemma connection_lines_length: "length (connection_lines v keep) \<le> 60"
proof -
  have "length (header_line http_rsp_connection ''keep-alive'') = 24"
    "length (header_line http_rsp_transfer_encoding ''chunked'') = 28" by code_simp+
  then show ?thesis using close_line_length [of v] by (simp add: connection_lines_def)
qed

lemma handle_connection_delivers:
  assumes "r_flags r = head_flags keep" "v = rq_server_protocol (r_rq r)"
    and "out_ok (n + length (connection_lines v keep)) r" "iobuf_size (r_out r) + 60 < 2 ^ 31"
  shows "\<exists>r'. handle_connection r = Some (Some r') \<and> delivers False r (connection_lines v keep) r' \<and> out_ok n r'"
proof -
  note len = connection_lines_length [of v keep]
  show ?thesis
  proof (cases keep)
    case False
    then have c: "connection_lines v keep = close_line v" by (simp add: connection_lines_def)
    obtain r' where r': "(if v = http_1_1 then minute_httpd_header http_rsp_connection ''close'' r else Some (Some r))
        = Some (Some r')" "delivers False r (close_line v) r'" "out_ok n r'"
      using close_line_delivers [of n v r] assms(3,4) len unfolding c by auto
    have "r_flags r' = head_flags False" using r'(2) assms(1) False by (simp add: delivers_def same_but_out_def)
    then show ?thesis
      using r' c assms(1,2) False by (simp add: handle_connection_def split: if_splits)
  next
    case True
    let ?te = "header_line http_rsp_transfer_encoding ''chunked''"
    let ?ka = "if v < http_1_1 then header_line http_rsp_connection ''keep-alive'' else []"
    have c: "connection_lines v keep = ?ka @ ?te" using True by (simp add: connection_lines_def)
    have o: "out_ok ((n + length ?te) + length ?ka) r" using assms(3) unfolding c by (simp add: out_ok_def)
    have room: "iobuf_size (r_out r) + length ?ka < 2 ^ 31" "iobuf_size (r_out r) + length ?te < 2 ^ 31"
      using assms(4) len unfolding c by simp_all
    obtain r1 where 1: "(if v < http_1_1 then minute_httpd_header http_rsp_connection ''keep-alive'' r else Some (Some r))
        = Some (Some r1)" "delivers False r ?ka r1" "out_ok (n + length ?te) r1"
      using header_delivers [of "n + length ?te" http_rsp_connection "''keep-alive''" r] o room(1) delivers_nil [of False r]
      by (auto split: if_splits)
    obtain r2 where 2: "minute_httpd_header http_rsp_transfer_encoding ''chunked'' r1 = Some (Some r2)"
        "delivers False r1 ?te r2" "out_ok n r2"
      using header_delivers [OF 1(3)] room(2) delivers_size [OF 1(2)] by auto
    have "r_flags r1 = head_flags True" using 1(2) assms(1) True by (simp add: delivers_def same_but_out_def)
    then have "handle_connection r = Some (Some r2)"
      using 1(1) 2(1) assms(1,2) True by (simp add: handle_connection_def)
    then show ?thesis using 2(3) delivers_trans [OF 1(2) 2(2)] c by auto
  qed
qed

section \<open>Reading the payload does not touch the output\<close>

definition same_output :: "httpd_response \<Rightarrow> httpd_response \<Rightarrow> bool" where
  "same_output r r' \<longleftrightarrow> r_out r' = r_out r \<and> st_outfd (r_state r') = st_outfd (r_state r)
     \<and> r_flags r' = r_flags r \<and> w_script (r_world r') = w_script (r_world r) \<and> sent r' = sent r"

lemma same_output_trans: "same_output r r' \<Longrightarrow> same_output r' r'' \<Longrightarrow> same_output r r''"
  by (simp add: same_output_def)

lemma same_output_updates [simp]:
  "same_output r r" "same_output r (put_in io r)" "same_output r (r'\<lparr>r_pending := n\<rparr>) = same_output r r'"
  "same_output (r\<lparr>r_pending := n\<rparr>) r' = same_output r r'" "same_output (put_in io r) r' = same_output r r'"
  by (simp_all add: same_output_def put_in_def)

lemma same_in_output: "same_but_in r r' \<Longrightarrow> same_output r r'"
  by (simp add: same_but_in_def same_output_def)

fun move_target :: "in_move \<Rightarrow> httpd_response option" where
  "move_target (In_return n buf r) = Some r"
| "move_target (In_again r) = Some r"
| "move_target In_fill = None"

lemma in_read_pass_output:
  assumes "in_read_pass buf cnt r = Some (Some z)" "move_target z = Some r'"
  shows "same_output r r'"
  using assms unfolding in_read_pass_def
  by (auto simp: c_step_Some elim!: c_bindE split: if_split_asm chunk_result.split_asm
      dest!: read_request_same same_in_output)

lemma in_read_loop_output:
  assumes "in_read_loop e buf cnt r = Some (Some (n, buf', r'))"
  shows "same_output r r'"
proof -
  have "case z of Some (n, buf', r') \<Rightarrow> same_output r r' | None \<Rightarrow> True"
    if "in_read_loop e buf cnt r = Some z" for e buf cnt r z
  proof (rule in_read_loop.raw_induct [OF _ that])
    fix f e buf cnt r z
    assume f: "\<And>e buf cnt r z. f e buf cnt r = Some z
        \<Longrightarrow> case z of Some (n, buf', r') \<Rightarrow> same_output r r' | None \<Rightarrow> True"
      and z: "(if e \<and> r_pending r \<le> PENDING_EOF then Some (Some (0, buf, r))
        else c_bind (in_read_pass buf cnt r) (\<lambda>z. case z of
            In_return n buf' r' \<Rightarrow> Some (Some (n, buf', r'))
          | In_again r' \<Rightarrow> f True buf cnt r'
          | In_fill \<Rightarrow> c_bind (c_step (fill_in r)) (\<lambda>(k, r).
              if k = 0 \<and> at_eof (r_in r) then Some (Some (0, buf, r\<lparr>r_pending := PENDING_EOF\<rparr>))
              else f False buf cnt r))) = Some z"
    show "case z of Some (n, buf', r') \<Rightarrow> same_output r r' | None \<Rightarrow> True"
    proof (cases z)
      case (Some a)
      obtain n b q where a: "z = Some (n, b, q)" using Some by (cases a) auto
      have g: "f e' b' c' r1 = Some (Some (n, b, q)) \<Longrightarrow> same_output r1 q" for e' b' c' r1 using f by fastforce
      have p: "in_read_pass buf cnt r = Some (Some (In_return n b r1)) \<Longrightarrow> same_output r r1"
          "in_read_pass buf cnt r = Some (Some (In_again r1)) \<Longrightarrow> same_output r r1" for r1
        by (erule in_read_pass_output, simp)+
      have i: "fill_in r = Some (k, r1) \<Longrightarrow> same_output r r1" for k r1
        by (rule same_in_output [OF fill_in_same])
      show ?thesis
        using z unfolding a
        by (auto simp: c_step_Some elim!: c_bindE split: if_split_asm in_move.split_asm
            dest!: g i p) (blast intro: same_output_trans)+
    qed simp
  qed
  then show ?thesis using assms by fastforce
qed

lemma in_discard_output:
  assumes "minute_httpd_in_discard r = Some (Some r')"
  shows "same_output r r'"
proof -
  have "case z of Some r' \<Rightarrow> same_output r r' | None \<Rightarrow> True"
    if "minute_httpd_in_discard r = Some z" for r z
  proof (rule minute_httpd_in_discard.raw_induct [OF _ that])
    fix f r z
    assume f: "\<And>r z. f r = Some z \<Longrightarrow> case z of Some r' \<Rightarrow> same_output r r' | None \<Rightarrow> True"
      and z: "c_bind (minute_httpd_in_read None (io_mask (r_in r) + 1) r) (\<lambda>(n, buf, r).
        if 0 < n then f r else Some (Some r)) = Some z"
    show "case z of Some r' \<Rightarrow> same_output r r' | None \<Rightarrow> True"
    proof (cases z)
      case (Some q)
      have g: "f r1 = Some (Some q) \<Longrightarrow> same_output r1 q" for r1 using f by fastforce
      show ?thesis
        using z unfolding Some
        by (auto simp: c_bind_Some minute_httpd_in_read_def split: if_splits
            dest!: in_read_loop_output g intro: same_output_trans)
    qed simp
  qed
  then show ?thesis using assms by fastforce
qed

section \<open>A request that is answered\<close>

text \<open>Bytes on their way: some went out in frames, the rest is buffered.\<close>

definition sends :: "bool \<Rightarrow> httpd_response \<Rightarrow> bytes \<Rightarrow> httpd_response \<Rightarrow> bool" where
  "sends c r xs r' \<longleftrightarrow> same_but_out r r'
     \<and> (\<exists>fs. [] \<notin> set fs \<and> sent r' = sent r @ concat (map (frame c) fs) \<and> concat fs @ outb r' = outb r @ xs)"

lemma delivers_sends: "delivers c r xs r' \<Longrightarrow> sends c r xs r'"
  by (simp add: delivers_def sends_def)

lemma chunk_end_eq:
  "out_ok n r \<Longrightarrow> minute_httpd_chunk_end r
     = (if flag_set (r_flags r) httpd_te_chunked then add_sent (''0'' @ NL @ NL) r else r)"
  by (simp add: minute_httpd_chunk_end_def send_out_all)

lemma conn_ok_carries: "iobuf_ok (r_in r) \<Longrightarrow> carries r \<Longrightarrow> conn_ok r"
  by (auto simp: conn_ok_def in_ok_def carries_def)

section \<open>What is left of a payload\<close>

text \<open>The next bytes of the connection are what is left of the payload of a request with a content
  length.\<close>

definition owes :: "bytes \<Rightarrow> httpd_response \<Rightarrow> bool" where
  "owes payload r \<longleftrightarrow> conn_ok r \<and> \<not> flag_set (rq_flags (r_rq r)) http_transfer_chunked
     \<and> length payload < 2 ^ 31 \<and> take (length payload) (conn_bytes r) = payload
     \<and> (r_pending r = int (length payload) \<or> payload = [] \<and> r_pending r = PENDING_EOF)"

lemma owes_same_out: "same_but_out r r' \<Longrightarrow> owes payload r' = owes payload r"
  by (simp add: owes_def same_but_out_def conn_ok_def in_ok_def conn_bytes_def)

lemma owes_length: "owes payload r \<Longrightarrow> length payload \<le> length (conn_bytes r)"
  unfolding owes_def by (metis length_take min.absorb_iff1 min.commute)

text \<open>Taking some of it.\<close>

definition takes :: "bytes \<Rightarrow> nat \<Rightarrow> httpd_response \<Rightarrow> httpd_response \<Rightarrow> bool" where
  "takes payload k r r' \<longleftrightarrow> k \<le> length payload \<and> owes (drop k payload) r'
     \<and> conn_bytes r' = drop k (conn_bytes r) \<and> r_rq r' = r_rq r \<and> r_text r' = r_text r"

lemma takes_none: "owes payload r \<Longrightarrow> takes payload 0 r r"
  by (simp add: takes_def)

lemma takes_none_out: "owes p r \<Longrightarrow> same_but_out r q \<Longrightarrow> takes p 0 r q"
  using owes_same_out [of r q p] by (simp add: takes_def same_but_out_def conn_bytes_def)

lemma takes_trans:
  assumes "takes p j r r1" "takes (drop j p) k r1 r2"
  shows "takes p (j + k) r r2"
  using assms by (auto simp: takes_def add.commute)

lemma in_read_owes:
  assumes "owes payload r" "read_ok buf cnt r" "0 < unat cnt" "unat cnt < 2 ^ 31"
  shows "\<exists>k r'. minute_httpd_in_read buf cnt r = Some (Some (int k,
        map_option (\<lambda>d. take k payload @ drop k d) buf, r'))
      \<and> takes payload k r r' \<and> same_output r r' \<and> io_mask (r_in r') = io_mask (r_in r) \<and> k \<le> unat cnt
      \<and> (payload \<noteq> [] \<longrightarrow> 0 < k)"
proof (cases "payload = []")
  case True
  consider "r_pending r = 0" | "r_pending r = PENDING_EOF" using assms(1) True by (auto simp: owes_def)
  then show ?thesis
  proof cases
    case 1
    let ?r = "r\<lparr>r_pending := PENDING_EOF\<rparr>"
    have "minute_httpd_in_read buf cnt r = Some (Some (0, buf, ?r))"
      using in_read_end [OF 1] assms(1) by (simp add: owes_def)
    moreover have "takes payload 0 r ?r"
      using assms(1) True by (simp add: takes_def owes_def conn_ok_def in_ok_def conn_bytes_def)
    ultimately show ?thesis using True by (cases buf) (force simp: same_output_def)+
  next
    case 2
    then have "minute_httpd_in_read buf cnt r = Some (Some (0, buf, r))"
      unfolding minute_httpd_in_read_def by (subst in_read_loop.simps) simp
    then show ?thesis using takes_none [OF assms(1)] True by (cases buf) force+
  qed
next
  case False
  then have p: "r_pending r = int (length payload)" "0 < r_pending r" "r_pending r < 2 ^ 31"
    using assms(1) by (auto simp: owes_def)
  have c: "conn_ok r" "conn_bytes r \<noteq> []" using assms(1) False owes_length [OF assms(1)] by (auto simp: owes_def)
  obtain k r' where k: "minute_httpd_in_read buf cnt r = Some (Some (int k,
        map_option (\<lambda>d. take k (conn_bytes r) @ drop k d) buf, r'))" "0 < k" "int k \<le> r_pending r" "k \<le> unat cnt"
      "conn_ok r'" "conn_bytes r' = drop k (conn_bytes r)" "r_pending r' = r_pending r - int k" "r_rq r' = r_rq r"
      "r_text r' = r_text r" "io_mask (r_in r') = io_mask (r_in r)"
    using in_read_pending [OF c(1) p(2,3) c(2) assms(2-4)] by auto
  have len: "k \<le> length payload" using k(3) p(1) by simp
  have pre: "take (length payload) (conn_bytes r) = payload" using assms(1) by (simp add: owes_def)
  have "take k (conn_bytes r) = take k payload"
    using arg_cong [OF pre, of "take k"] len by (simp add: min_def)
  moreover have "take (length payload - k) (drop k (conn_bytes r)) = drop k payload"
    using arg_cong [OF pre, of "drop k"] by (simp add: drop_take)
  then have "takes payload k r r'" using k(5-9) len p(1) assms(1) by (auto simp: takes_def owes_def)
  moreover have "same_output r r'" using in_read_loop_output k(1) by (auto simp: minute_httpd_in_read_def)
  ultimately show ?thesis using k(1,2,4,10) by auto
qed

lemma in_discard_owes:
  assumes "owes payload r"
  shows "\<exists>r'. minute_httpd_in_discard r = Some (Some r') \<and> same_output r r'
    \<and> conn_bytes r' = drop (length payload) (conn_bytes r)"
proof (cases "r_pending r = int (length payload)")
  case True
  then obtain r' where "minute_httpd_in_discard r = Some (Some r')"
      "conn_bytes r' = drop (length payload) (conn_bytes r)"
    using in_discard_pending [of r] owes_length [OF assms] assms by (auto simp: owes_def)
  then show ?thesis using in_discard_output by blast
next
  case False
  then have "payload = []" "r_pending r = PENDING_EOF" using assms by (auto simp: owes_def)
  then have "minute_httpd_in_discard r = Some (Some r)" "length payload = 0"
    by (subst minute_httpd_in_discard.simps, simp add: minute_httpd_in_read_def in_read_loop.simps)
      (simp_all add: \<open>payload = []\<close>)
  then show ?thesis by simp
qed


text \<open>The bytes of a request's payload, when it has a content length.\<close>

definition payload_length :: "minute_http_rq \<Rightarrow> int" where
  "payload_length rq = (if flag_set (rq_flags rq) http_content_length then sint (rq_content_length rq) else 0)"

definition bodyless :: "minute_http_rq \<Rightarrow> int \<Rightarrow> bool" where
  "bodyless rq status \<longleftrightarrow> rq_request_method rq = http_head \<or> status \<in> {204, 205, 304}"

text \<open>The line that is sent ahead of the response when the client expects it.\<close>

definition interim_line :: "minute_http_rq \<Rightarrow> bytes" where
  "interim_line rq =
     (if flag_set (rq_flags rq) http_expect_continue then status_line (rq_server_protocol rq) 100 else [])"

lemma interim_sent:
  assumes "out_ok n r"
  shows "(if flag_set (rq_flags (r_rq r)) http_expect_continue
          then send_status (rq_server_protocol (r_rq r)) 100 r else Some (Some r))
      = Some (Some (add_sent (interim_line (r_rq r)) r))"
  using send_status_eq [OF assms, of 100] by (simp add: interim_line_def add_sent_def)

section \<open>The contract of an application\<close>

text \<open>What an application sees of a request, with the sizes of the two buffers: the payload is
  what the request has declared, the data is the application's own.\<close>

record 'u visit =
  vis_rq      :: minute_http_rq
  vis_text    :: textint
  vis_payload :: bytes
  vis_room    :: nat
  vis_in_room :: nat
  vis_data    :: 'u

definition visits :: "'u visit \<Rightarrow> httpd_response \<Rightarrow> bool" where
  "visits v r \<longleftrightarrow> r_rq r = vis_rq v \<and> r_text r = vis_text v \<and> iobuf_size (r_out r) = vis_room v
     \<and> iobuf_size (r_in r) = vis_in_room v"

text \<open>What it makes of it: an interim response, its headers and status, with its data between the two callbacks, and
  its body, with its data in the end.\<close>

record 'u answer =
  an_interim :: bytes
  an_headers :: "(http_response_header \<times> string) list"
  an_status  :: int
  an_data    :: 'u
  an_body    :: bytes
  an_final   :: 'u

text \<open>The first part: header lines are added to the output buffer, an interim response may have been
  sent, and some of the payload is taken.  How much depends on the connection, so there may be
  more than one answer.\<close>

definition adds_lines :: "bytes \<Rightarrow> bytes \<Rightarrow> httpd_response \<Rightarrow> httpd_response \<Rightarrow> bool" where
  "adds_lines interim xs r r' \<longleftrightarrow> r_flags r' = r_flags r \<and> iobuf_size (r_out r') = iobuf_size (r_out r)
     \<and> sent r' = sent r @ interim \<and> outb r' = outb r @ xs"

definition prepares :: "'u minute_httpd_app \<Rightarrow> 'u visit \<Rightarrow> 'u answer set \<Rightarrow> bool" where
  "prepares app v S \<longleftrightarrow>
     (\<forall>r n H. visits v r \<longrightarrow> owes (vis_payload v) r \<longrightarrow> (\<forall>A \<in> S. length (header_lines (an_headers A)) \<le> H)
        \<longrightarrow> length (outb r) + H \<le> vis_room v \<longrightarrow> out_ok (n + H) r
        \<longrightarrow> (\<exists>A \<in> S. \<exists>r' k. handle_status app r (vis_data v) = Some (Some (an_status A, r', an_data A))
              \<and> adds_lines (an_interim A) (header_lines (an_headers A)) r r' \<and> takes (vis_payload v) k r r' \<and> out_ok n r'))"

lemma adds_lines_trans:
  "adds_lines i xs r r1 \<Longrightarrow> adds_lines i' ys r1 r2 \<Longrightarrow> adds_lines (i @ i') (xs @ ys) r r2"
  by (simp add: adds_lines_def)

text \<open>Header lines that fit stay in the buffer.\<close>

lemma header_all_adds:
  assumes "out_ok (n + length (header_lines hs)) r" "[] \<notin> snd ` set hs"
    and "length (outb r) + length (header_lines hs) \<le> iobuf_size (r_out r)" "iobuf_size (r_out r) < 2 ^ 30"
  shows "\<exists>r'. header_all hs r = Some (Some r') \<and> adds_lines [] (header_lines hs) r r' \<and> out_ok n r' \<and> same_but_out r r'"
proof -
  obtain q where q: "header_all hs r = Some (Some q)" "delivers False r (header_lines hs) q" "out_ok n q"
    using header_all_delivers [OF assms(1,2)] assms(3,4) by auto
  have "same_but_out r q" using q(2) by (simp add: delivers_def)
  then show ?thesis
    using q delivers_room [OF q(2) assms(3)] by (auto simp: adds_lines_def same_but_out_def)
qed

text \<open>The second part: the body goes out or is buffered.\<close>

definition writes_body :: "'u minute_httpd_app \<Rightarrow> 'u visit \<Rightarrow> 'u answer \<Rightarrow> bool" where
  "writes_body app v A \<longleftrightarrow>
     (\<forall>r n. r_rq r = vis_rq v \<longrightarrow> r_text r = vis_text v \<longrightarrow> iobuf_size (r_out r) = vis_room v \<longrightarrow> outb r = []
        \<longrightarrow> out_ok (n + length (an_body A)) r
        \<longrightarrow> (\<exists>r'. handle_body app (an_status A) r (an_data A) = Some (Some (r', an_final A))
              \<and> sends (flag_set (r_flags r) httpd_te_chunked) r (an_body A) r' \<and> out_ok n r'))"

definition answers :: "'u minute_httpd_app \<Rightarrow> 'u visit \<Rightarrow> 'u answer set \<Rightarrow> bool" where
  "answers app v S \<longleftrightarrow> prepares app v S \<and> (\<forall>A \<in> S. writes_body app v A)"

lemma preparesE:
  assumes "prepares app v S" "visits v r" "owes (vis_payload v) r"
    "\<forall>A \<in> S. length (header_lines (an_headers A)) \<le> H" "length (outb r) + H \<le> vis_room v" "out_ok (n + H) r"
  obtains A r' k where "A \<in> S" "handle_status app r (vis_data v) = Some (Some (an_status A, r', an_data A))"
    "adds_lines (an_interim A) (header_lines (an_headers A)) r r'" "takes (vis_payload v) k r r'" "out_ok n r'"
  using assms unfolding prepares_def by blast

section \<open>The head and the body on the wire\<close>

definition static_head ::
    "(int \<Rightarrow> tm) \<Rightarrow> unsigned \<Rightarrow> minute_http_rq \<Rightarrow> int \<Rightarrow> (http_response_header \<times> string) list \<Rightarrow> bytes" where
  "static_head gmtime now rq status hs =
     status_line (rq_server_protocol rq) status @ standard_lines gmtime now @ header_lines hs
     @ connection_lines (rq_server_protocol rq) (keeps_open rq) @ NL"

text \<open>The head: everything up to the empty line.\<close>

lemma head_sent:
  assumes "prepares app v S" "visits v r" "owes (vis_payload v) r"
    and "outb r = []" "r_flags r = head_flags keep" "keep = keeps_open (vis_rq v)" "vis_room v < 2 ^ 30"
    and "\<forall>A \<in> S. 0 \<le> an_status A \<and> an_status A < 1000 \<and> length (header_lines (an_headers A)) \<le> H"
    and "length (standard_lines gmtime now) + H \<le> vis_room v" "out_ok (n + 60 + H + length (standard_lines gmtime now)) r"
  shows "\<exists>A \<in> S. \<exists>j r' k. c_bind (standard_headers gmtime now r) (\<lambda>r.
      c_bind (handle_status app r (vis_data v)) (\<lambda>(status, r, u).
      c_bind (send_status (rq_server_protocol (vis_rq v)) status r) (\<lambda>r.
      c_bind (handle_connection r) (\<lambda>r.
      c_bind (minute_httpd_chunk NL 2 False r) (\<lambda>(n, r). F n status r u)))))
    = F j (an_status A) r' (an_data A) \<and> r_flags r' = r_flags r \<and> iobuf_size (r_out r') = vis_room v \<and> out_ok n r'
    \<and> outb r' = [] \<and> takes (vis_payload v) k r r'
    \<and> sent r' = sent r @ an_interim A @ static_head gmtime now (vis_rq v) (an_status A) (an_headers A)"
proof -
  let ?v = "rq_server_protocol (vis_rq v)" and ?std = "standard_lines gmtime now"
  let ?con = "connection_lines ?v keep"
  note len = connection_lines_length [of ?v keep]
  have sz: "iobuf_size (r_out r) = vis_room v" using assms(2) by (simp add: visits_def)
  obtain r1 where 1: "standard_headers gmtime now r = Some (Some r1)" "delivers False r ?std r1"
      "out_ok (n + 60 + H) r1"
    using standard_headers_delivers [OF assms(10)] assms(7,9) sz by auto
  have s1: "same_but_out r r1" using 1(2) by (simp add: delivers_def)
  have b1: "sent r1 = sent r" "outb r1 = ?std"
    using delivers_room [OF 1(2)] assms(4,9) sz by simp_all
  have v1: "visits v r1" "owes (vis_payload v) r1"
    using assms(2,3) s1 owes_same_out [OF s1] by (simp_all add: visits_def same_but_out_def)
  have h: "\<forall>A \<in> S. length (header_lines (an_headers A)) \<le> H" using assms(8) by blast
  obtain A r2 k where A: "A \<in> S" "handle_status app r1 (vis_data v) = Some (Some (an_status A, r2, an_data A))"
      "adds_lines (an_interim A) (header_lines (an_headers A)) r1 r2" "takes (vis_payload v) k r1 r2" "out_ok (n + 60) r2"
    by (rule preparesE [OF assms(1) v1 h _ 1(3)]) (use assms(9) b1 in auto)
  have st: "0 \<le> an_status A" "an_status A < 1000" using assms(8) A(1) by auto
  let ?r3 = "add_sent (status_line ?v (an_status A)) r2"
  have v3: "r_flags ?r3 = head_flags keep" "?v = rq_server_protocol (r_rq ?r3)" "iobuf_size (r_out ?r3) = vis_room v"
    using A(3,4) s1 v1(1) assms(5) by (simp_all add: adds_lines_def takes_def visits_def same_but_out_def)
  have "out_ok (n + length ?con) ?r3" using A(5) len by (simp add: out_ok_def)
  then obtain r4 where 4: "handle_connection ?r3 = Some (Some r4)" "delivers False ?r3 ?con r4" "out_ok n r4"
    using handle_connection_delivers [OF v3(1,2)] v3(3) assms(7) by auto
  have s4: "same_but_out r2 r4" using 4(2) by (simp add: delivers_def same_but_out_def)
  have "length (outb r4) \<le> vis_room v"
    using 4(3) ring.contents_bound [of "r_out r4"] s4 v3(3) by (simp add: out_ok_def same_but_out_def)
  then have "length (outb r4) + 2 < 2 ^ 31" using assms(7) by simp
  from end_of_head [OF 4(3) this] obtain j r5 where
    5: "minute_httpd_chunk NL 2 False r4 = Some (Some (j, r5))" "same_but_out r4 r5" "out_ok n r5" "outb r5 = []"
      "sent r5 = sent r4 @ outb r4 @ NL" by blast
  have s5: "same_but_out r2 r5" using same_trans [OF s4 5(2)] .
  have "c_bind (standard_headers gmtime now r) (\<lambda>r.
      c_bind (handle_status app r (vis_data v)) (\<lambda>(status, r, u).
      c_bind (send_status ?v status r) (\<lambda>r.
      c_bind (handle_connection r) (\<lambda>r.
      c_bind (minute_httpd_chunk NL 2 False r) (\<lambda>(n, r). F n status r u)))))
    = F j (an_status A) r5 (an_data A)"
    using 1(1) A(2) send_status_eq [OF A(5) st] 4(1) 5(1) by simp
  moreover have "takes (vis_payload v) k r r5"
    using A(4) s1 s5 owes_same_out [OF s5] by (simp add: takes_def same_but_out_def conn_bytes_def)
  moreover have "sent r4 @ outb r4
      = sent r @ an_interim A @ status_line ?v (an_status A) @ ?std @ header_lines (an_headers A) @ ?con"
    using delivers_plain [OF 4(2)] b1 A(3) by (simp add: adds_lines_def)
  then have "sent r5 = sent r @ an_interim A @ static_head gmtime now (vis_rq v) (an_status A) (an_headers A)"
    using arg_cong [of _ _ "\<lambda>xs. xs @ NL"] 5(5) assms(6) by (fastforce simp: static_head_def)
  moreover have "r_flags r5 = r_flags r" "iobuf_size (r_out r5) = vis_room v"
    using s5 v3 assms(5) A(3) s1 by (simp_all add: same_but_out_def adds_lines_def)
  ultimately show ?thesis using A(1) 5(3,4) by blast
qed

text \<open>The body and the end of the chunks.\<close>

lemma body_sent:
  assumes "writes_body app v A" "r_rq r = vis_rq v" "r_text r = vis_text v" "iobuf_size (r_out r) = vis_room v"
    and "vis_room v < 2 ^ 19" "out_ok (n + length (an_body A)) r" "outb r = []" "r_flags r = head_flags keep"
  shows "\<exists>r' fs. c_bind (handle_body app (an_status A) r (an_data A)) (\<lambda>(r, u).
      c_bind (minute_httpd_flush r) (\<lambda>r. G (minute_httpd_chunk_end r) u)) = G r' (an_final A)
    \<and> same_but_out r r' \<and> [] \<notin> set fs \<and> concat fs = an_body A
    \<and> sent r' = sent r @ concat (map (frame keep) fs) @ (if keep then ''0'' @ NL @ NL else [])"
proof -
  have c: "flag_set (r_flags r) httpd_te_chunked = keep" using assms(8) by simp
  have lim: "(2::nat) ^ 20 \<le> chunk_limit keep" by (simp add: chunk_limit_def)
  obtain r1 where 1: "handle_body app (an_status A) r (an_data A) = Some (Some (r1, an_final A))"
      "sends keep r (an_body A) r1" "out_ok n r1"
    using assms(1-4,6,7) c unfolding writes_body_def by blast
  have s1: "same_but_out r r1" using 1(2) by (simp add: sends_def)
  then have f1: "flag_set (r_flags r1) httpd_te_chunked = keep" using c by (simp add: same_but_out_def)
  have "length (outb r1) \<le> iobuf_size (r_out r1)" using 1(3) ring.contents_bound by (simp add: out_ok_def)
  then have "length (outb r1) < 2 ^ 19" using s1 assms(4,5) by (simp add: same_but_out_def)
  then have "length (outb r1) < chunk_limit (flag_set (r_flags r1) httpd_te_chunked)" using lim f1 by simp
  from flush_delivers [OF 1(3) this] obtain r2 where
    2: "minute_httpd_flush r1 = Some (Some r2)" "same_but_out r1 r2" "out_ok n r2"
      "sent r2 = sent r1 @ frame keep (outb r1)" using f1 by auto
  have s2: "same_but_out r r2" using same_trans [OF s1 2(2)] .
  then have f2: "flag_set (r_flags r2) httpd_te_chunked = keep" using c by (simp add: same_but_out_def)
  let ?r3 = "minute_httpd_chunk_end r2"
  have 3: "?r3 = (if keep then add_sent (''0'' @ NL @ NL) r2 else r2)" using chunk_end_eq [OF 2(3)] f2 by simp
  obtain fs where fs: "[] \<notin> set fs" "sent r1 = sent r @ concat (map (frame keep) fs)"
      "concat fs @ outb r1 = an_body A"
    using 1(2) assms(7) by (auto simp: sends_def)
  let ?gs = "if outb r1 = [] then fs else fs @ [outb r1]"
  have gs: "concat (map (frame keep) ?gs) = concat (map (frame keep) fs) @ frame keep (outb r1)"
    "concat ?gs = an_body A" "[] \<notin> set ?gs" using fs(1,3) by (auto simp: frame_def)
  have "same_but_out r ?r3" using s2 unfolding 3 by (simp add: same_but_out_def)
  moreover have "sent ?r3 = sent r @ concat (map (frame keep) ?gs) @ (if keep then ''0'' @ NL @ NL else [])"
    unfolding 3 gs(1) using 2(4) fs(2) by simp
  moreover have "c_bind (handle_body app (an_status A) r (an_data A)) (\<lambda>(r, u).
      c_bind (minute_httpd_flush r) (\<lambda>r. G (minute_httpd_chunk_end r) u)) = G ?r3 (an_final A)"
    using 1(1) 2(1) by simp
  ultimately show ?thesis using gs(2,3) by (intro exI [of _ ?r3] exI [of _ ?gs]) simp
qed

section \<open>The whole request\<close>

lemma start_sel:
  assumes "\<not> flag_set (rq_flags (r_rq r)) http_transfer_chunked" "r_pending r = 0"
  shows "r_flags (minute_httpd_start r) = head_flags (keeps_open (r_rq r))"
    "r_pending (minute_httpd_start r) = payload_length (r_rq r)" "r_rq (minute_httpd_start r) = r_rq r"
    "r_world (minute_httpd_start r) = r_world r" "r_state (minute_httpd_start r) = r_state r"
  using assms by (simp_all add: minute_httpd_start_def head_flags_def keeps_open_def payload_length_def Let_def)

text \<open>The answer on the wire.\<close>

definition static_wire ::
    "(int \<Rightarrow> tm) \<Rightarrow> unsigned \<Rightarrow> minute_http_rq \<Rightarrow> int \<Rightarrow> (http_response_header \<times> string) list \<Rightarrow> bytes list \<Rightarrow> bytes" where
  "static_wire gmtime now rq status hs fs =
     static_head gmtime now rq status hs @ concat (map (frame (keeps_open rq)) fs)
     @ (if keeps_open rq then ''0'' @ NL @ NL else [])"

text \<open>The limits of an answer: header values are not empty, the head fits into the output buffer,
  and that is below half a megabyte.\<close>

definition answer_ok ::
    "(int \<Rightarrow> tm) \<Rightarrow> unsigned \<Rightarrow> nat \<Rightarrow> int \<Rightarrow> (http_response_header \<times> string) list \<Rightarrow> bytes \<Rightarrow> bool" where
  "answer_ok gmtime now room status hs body \<longleftrightarrow> 0 \<le> status \<and> status < 1000
     \<and> [] \<notin> snd ` set hs \<and> length (standard_lines gmtime now) + length (header_lines hs) \<le> room
     \<and> room < 2 ^ 19 \<and> length body < 2 ^ 30"

lemma start_owes:
  assumes "conn_ok r" "r_pending r = 0" "\<not> flag_set (rq_flags (r_rq r)) http_transfer_chunked"
    and "0 \<le> payload_length (r_rq r)" "payload_length (r_rq r) \<le> int (length (conn_bytes r))"
  shows "owes (take (nat (payload_length (r_rq r))) (conn_bytes r)) (minute_httpd_start r)"
proof -
  note start = start_sel [OF assms(3,2)]
  have "sint (rq_content_length (r_rq r)) < 2 ^ 31" using sint_lt [of "rq_content_length (r_rq r)"] by simp
  then have "payload_length (r_rq r) < 2 ^ 31" by (simp add: payload_length_def)
  then have "length (take (nat (payload_length (r_rq r))) (conn_bytes r)) = nat (payload_length (r_rq r))"
    "nat (payload_length (r_rq r)) < 2 ^ 31" using assms(4,5) by simp_all
  moreover have "conn_ok (minute_httpd_start r)" "conn_bytes (minute_httpd_start r) = conn_bytes r"
    using assms(1) by (simp_all add: start conn_ok_def in_ok_def conn_bytes_def)
  ultimately show ?thesis using assms(3,4) unfolding owes_def by (simp add: start)
qed

lemma handle_request_answers:
  assumes "answers app v S" "S \<noteq> {}" "visits v r"
    and "\<forall>A \<in> S. answer_ok gmtime now (vis_room v) (an_status A) (an_headers A) (an_body A)"
    and "out_ok (2 ^ 30 + 2 ^ 20) r" "outb r = []" "conn_ok r" "r_pending r = 0"
    and "\<not> flag_set (rq_flags (vis_rq v)) http_transfer_chunked"
    and "0 \<le> payload_length (vis_rq v)" "payload_length (vis_rq v) \<le> int (length (conn_bytes r))"
    and "vis_payload v = take (nat (payload_length (vis_rq v))) (conn_bytes r)"
  shows "\<exists>A \<in> S. \<exists>r' fs. handle_request app gmtime now r (vis_data v)
      = Some (Some (if keeps_open (vis_rq v) then httpd_client_ok_open else httpd_client_ok_close, r', an_final A))
    \<and> sent r' = sent r @ an_interim A @ static_wire gmtime now (vis_rq v) (an_status A) (an_headers A) fs
    \<and> conn_bytes r' = drop (nat (payload_length (vis_rq v))) (conn_bytes r)
    \<and> [] \<notin> set fs \<and> concat fs = an_body A"
proof -
  let ?r0 = "minute_httpd_start r" and ?rq = "vis_rq v" and ?keep = "keeps_open (vis_rq v)"
  have rq: "r_rq r = ?rq" "iobuf_size (r_out r) = vis_room v" using assms(3) by (simp_all add: visits_def)
  note start = start_sel [OF assms(9) [folded rq(1)] assms(8), unfolded rq(1)]
  have ok: "0 \<le> an_status A \<and> an_status A < 1000
      \<and> length (header_lines (an_headers A)) \<le> vis_room v - length (standard_lines gmtime now)"
    "length (standard_lines gmtime now) \<le> vis_room v" "vis_room v < 2 ^ 19" "length (an_body A) < 2 ^ 30" if "A \<in> S" for A
    using bspec [OF assms(4) that] by (auto simp: answer_ok_def)
  have room: "length (standard_lines gmtime now) \<le> vis_room v" "vis_room v < 2 ^ 19" using ok(2,3) assms(2) by auto
  define G where "G r u = c_bind (minute_httpd_in_discard r) (\<lambda>r.
     Some (Some (if has_flags (r_flags r) httpd_connection_keep
                 then httpd_client_ok_open else httpd_client_ok_close, r, u)))" for r and u :: 'a
  define F where "F n status r u = c_bind (handle_body app status r u) (\<lambda>(r, u).
     c_bind (minute_httpd_flush r) (\<lambda>r. G (minute_httpd_chunk_end r) u))" for n :: int and status r and u :: 'a
  have eq: "handle_request app gmtime now r (vis_data v) =
      c_bind (standard_headers gmtime now ?r0) (\<lambda>r.
      c_bind (handle_status app r (vis_data v)) (\<lambda>(status, r, u).
      c_bind (send_status (rq_server_protocol ?rq) status r) (\<lambda>r.
      c_bind (handle_connection r) (\<lambda>r.
      c_bind (minute_httpd_chunk NL 2 False r) (\<lambda>(n, r). F n status r u)))))"
    unfolding handle_request_def Let_def F_def G_def rq(1) by (rule refl)
  have v0: "visits v ?r0" "outb ?r0 = []" using assms(3,6) by (simp_all add: visits_def start rq)
  have c0: "conn_bytes ?r0 = conn_bytes r" by (simp add: conn_bytes_def start)
  have owes0: "owes (vis_payload v) ?r0"
    using start_owes [OF assms(7,8)] assms(9-12) unfolding rq(1) by simp
  let ?H = "vis_room v - length (standard_lines gmtime now)"
  have o0: "out_ok (2 ^ 30 + 60 + ?H + length (standard_lines gmtime now)) ?r0"
    using assms(5) room by (simp add: out_ok_def start)
  have prep: "prepares app v S" "\<forall>A \<in> S. writes_body app v A" using assms(1) by (simp_all add: answers_def)
  have H: "\<forall>A \<in> S. 0 \<le> an_status A \<and> an_status A < 1000 \<and> length (header_lines (an_headers A)) \<le> ?H"
    using ok(1) by blast
  have sum: "length (standard_lines gmtime now) + ?H \<le> vis_room v" "vis_room v < 2 ^ 30" using room by simp_all
  obtain A j r1 k where A: "A \<in> S" "handle_request app gmtime now r (vis_data v) = F j (an_status A) r1 (an_data A)"
      "r_flags r1 = r_flags ?r0" "iobuf_size (r_out r1) = vis_room v" "out_ok (2 ^ 30) r1" "outb r1 = []"
      "takes (vis_payload v) k ?r0 r1"
      "sent r1 = sent ?r0 @ an_interim A @ static_head gmtime now ?rq (an_status A) (an_headers A)"
    using head_sent [OF prep(1) v0(1) owes0 v0(2) start(1) refl sum(2) H sum(1) o0, of F] unfolding eq by blast
  have f1: "r_flags r1 = head_flags ?keep" "r_rq r1 = ?rq" "r_text r1 = vis_text v"
    using A(3,7) v0(1) by (simp_all add: start takes_def visits_def)
  have o1: "out_ok (0 + length (an_body A)) r1" using A(5) by (rule out_ok_mono) (use ok(4) [OF A(1)] in simp)
  obtain r2 fs where 2: "F j (an_status A) r1 (an_data A) = G r2 (an_final A)" "same_but_out r1 r2"
      "[] \<notin> set fs" "concat fs = an_body A"
      "sent r2 = sent r1 @ concat (map (frame ?keep) fs) @ (if ?keep then ''0'' @ NL @ NL else [])"
    using body_sent [OF bspec [OF prep(2) A(1)] f1(2,3) A(4) room(2) o1 A(6) f1(1), of G] unfolding F_def by blast
  have t2: "k \<le> length (vis_payload v)" "owes (drop k (vis_payload v)) r2" "conn_bytes r2 = drop k (conn_bytes ?r0)"
    using A(7) owes_same_out [OF 2(2)] 2(2) by (simp_all add: takes_def same_but_out_def conn_bytes_def)
  obtain r3 where 3: "minute_httpd_in_discard r2 = Some (Some r3)" "same_output r2 r3"
      "conn_bytes r3 = drop (length (drop k (vis_payload v))) (conn_bytes r2)"
    using in_discard_owes [OF t2(2)] by blast
  have len: "length (vis_payload v) = nat (payload_length ?rq)" using assms(11,12) by (simp add: nat_le_iff)
  have "conn_bytes r3 = drop (nat (payload_length ?rq)) (conn_bytes r)"
    using 3(3) t2(1) len unfolding t2(3) c0 by simp
  moreover have "has_flags (r_flags r3) httpd_connection_keep = ?keep"
    using 3(2) 2(2) f1(1) by (simp add: same_output_def same_but_out_def)
  then have "handle_request app gmtime now r (vis_data v)
      = Some (Some (if ?keep then httpd_client_ok_open else httpd_client_ok_close, r3, an_final A))"
    using A(2) 2(1) 3(1) by (simp add: G_def)
  moreover have "sent r3 = sent r @ an_interim A @ static_wire gmtime now ?rq (an_status A) (an_headers A) fs"
    using 3(2) 2(5) A(8) by (simp add: same_output_def static_wire_def start)
  ultimately show ?thesis using A(1) 2(3,4) by blast
qed

end
