(* ===== verification/Httpd_Serve.thy ===== *)
theory Httpd_Serve
  imports Httpd_Answer
begin

text \<open>
  A request that is answered, \<open>minute_httpd_handle\<close> of \<open>src/libhttpd/httpd.c\<close> from reading the
  request to what is left of the connection: once for every application that keeps the contract of
  \<open>Httpd_Answer\<close> (the locale \<open>http_application\<close>), then for one that only writes.
\<close>

section \<open>Any application that keeps the contract\<close>

text \<open>The input holds a request without folded lines that the parser accepts, with a payload of a
  content length that has arrived or will.\<close>

definition request_received :: "minute_httpd_state \<Rightarrow> world \<Rightarrow> http_ctx \<Rightarrow> bytes \<Rightarrow> bool" where
  "request_received st w y rest \<longleftrightarrow> state_ok st w \<and> unfolded False (state_bytes st w)
     \<and> http_scan False (state_bytes st w) (request_ctx st) = Done 0 y
     \<and> rest = scan_rest (state_bytes st w) (request_ctx st)
     \<and> \<not> flag_set (rq_flags (c_rq y)) http_transfer_chunked
     \<and> 0 \<le> payload_length (c_rq y) \<and> payload_length (c_rq y) \<le> int (length rest)"

definition visit_of :: "minute_httpd_state \<Rightarrow> http_ctx \<Rightarrow> bytes \<Rightarrow> 'u \<Rightarrow> 'u visit" where
  "visit_of st y rest u =
     \<lparr>vis_rq = c_rq y, vis_text = c_text y, vis_payload = take (nat (payload_length (c_rq y))) rest,
      vis_room = iobuf_size (st_out st), vis_in_room = iobuf_size (st_in st), vis_data = u\<rparr>"

text \<open>The contract as an interface; \<open>answer_set\<close> is empty where the application promises nothing.\<close>

locale http_application =
  fixes app :: "'u minute_httpd_app"
    and answer_set :: "'u visit \<Rightarrow> 'u answer set"
  assumes contract: "answer_set v \<noteq> {} \<Longrightarrow> answers app v (answer_set v)"
begin

lemma request_answered:
  assumes "request_received st w y rest" "S = answer_set (visit_of st y rest u)" "S \<noteq> {}"
    and "\<forall>A \<in> S. answer_ok gmtime now (iobuf_size (st_out st)) (an_status A) (an_headers A) (an_body A)"
  shows "\<exists>code st' w' u'. minute_httpd_handle app gmtime now st w u = Some (Some (code, st', w', u'))
    \<and> ((\<exists>A \<in> S. \<exists>fs. code = (if keeps_open (c_rq y) then httpd_client_ok_open else httpd_client_ok_close)
          \<and> u' = an_final A \<and> [] \<notin> set fs \<and> concat fs = an_body A
          \<and> w_sent w' = w_sent w @ an_interim A
              @ static_wire gmtime now (c_rq y) (an_status A) (an_headers A) fs
          \<and> state_bytes st' w' = drop (nat (payload_length (c_rq y))) rest)
       \<or> code = -414 \<and> iobuf_size (st_in st) \<le> length (state_bytes st w) \<and> (\<exists>rq. u' = app_error app rq 414 u))"
proof -
  let ?v = "visit_of st y rest u"
  have in': "state_ok st w" "unfolded False (state_bytes st w)"
    "http_scan False (state_bytes st w) (request_ctx st) = Done 0 y"
    "rest = scan_rest (state_bytes st w) (request_ctx st)"
    "\<not> flag_set (rq_flags (vis_rq ?v)) http_transfer_chunked"
    "0 \<le> payload_length (vis_rq ?v)" "payload_length (vis_rq ?v) \<le> int (length rest)"
    using assms(1) unfolding request_received_def visit_of_def by (elim conjE, simp only: visit.select_convs)+
  obtain k r s where
    r: "minute_httpd_read_request (first_response st w) (minute_http_rqs_init MINUTE_ALL_HEADERS (st_in st))
        = Some (Some (k, r, s))" "same_but_in (first_response st w) r" "k = 0 \<longrightarrow> carries r"
      "request_answer (request_ctx st) (state_bytes st w) False
         (iobuf_size (st_in st) \<le> length (state_bytes st w)) k r"
    using first_request [OF in'(1,2)] by blast
  have o: "out_ok (2 ^ 30 + 2 ^ 20) r" "outb r = []" "sent r = w_sent w" "r_pending r = 0"
      "iobuf_size (r_out r) = iobuf_size (st_out st)" "iobuf_size (r_in r) = iobuf_size (st_in st)"
    using r(2) first_response_ok(1-3) [OF in'(1), of "2 ^ 30 + 2 ^ 20"]
    by (auto simp: same_but_in_def out_ok_def first_response_sel iobuf_size_def)
  note handle = minute_httpd_handle_eq [OF in'(1), of app gmtime now u]
  show ?thesis
  proof (cases "k = 0")
    case True
    then have k: "r_rq r = c_rq y" "iobuf_ok (r_in r)" "conn_bytes r = rest" "r_text r = c_text y"
      using r(4) in'(3,4) by (auto simp: request_answer_def conn_bytes_def)
    have c: "conn_ok r" using conn_ok_carries [OF k(2)] r(3) True by simp
    have v: "visits ?v r" "vis_payload ?v = take (nat (payload_length (vis_rq ?v))) (conn_bytes r)"
      using k(1,3,4) o(5,6) by (simp_all add: visits_def visit_of_def)
    have a: "\<forall>A \<in> S. answer_ok gmtime now (vis_room ?v) (an_status A) (an_headers A) (an_body A)"
      using assms(4) by (simp add: visit_of_def)
    have p: "payload_length (vis_rq ?v) \<le> int (length (conn_bytes r))" using in'(7) k(3) by simp
    obtain A r' fs where 1: "A \<in> S" "handle_request app gmtime now r u
        = Some (Some (if keeps_open (c_rq y) then httpd_client_ok_open else httpd_client_ok_close, r', an_final A))"
      "sent r' = sent r @ an_interim A @ static_wire gmtime now (c_rq y) (an_status A) (an_headers A) fs"
      "conn_bytes r' = drop (nat (payload_length (c_rq y))) (conn_bytes r)" "[] \<notin> set fs" "concat fs = an_body A"
      using handle_request_answers [OF contract [of ?v, folded assms(2)] assms(3) v(1) a o(1,2) c o(4) in'(5,6) p v(2)]
        assms(3) by (auto simp: visit_of_def)
    let ?code = "if keeps_open (c_rq y) then httpd_client_ok_open else httpd_client_ok_close"
    have "minute_httpd_handle app gmtime now st w u = Some (Some (?code, r_state r', r_world r', an_final A))"
      using r(1) True 1(2) by (simp add: handle)
    moreover have "state_bytes (r_state r') (r_world r') = drop (nat (payload_length (c_rq y))) rest"
      using 1(4) unfolding k(3) by (simp only: state_bytes_def conn_bytes_def)
    ultimately show ?thesis using 1(1,3,5,6) o(3)
      by (intro exI [of _ ?code] exI [of _ "r_state r'"] exI [of _ "r_world r'"] exI [of _ "an_final A"] conjI disjI1
          bexI [of _ A] exI [of _ fs]) simp_all
  next
    case False
    then have k: "k = 414" "iobuf_size (st_in st) \<le> length (state_bytes st w)"
      using r(4) in'(3) by (auto simp: request_answer_def)
    have "out_ok (0 + 213) r" using o(1) by (rule out_ok_mono) simp
    then obtain r' where "handle_error gmtime now k r = Some (Some r')"
      using handle_error_sends [of 0 r k] o(2,5) k(1) in'(1) by (auto simp: state_ok_def)
    then have "minute_httpd_handle app gmtime now st w u
        = Some (Some (-414, r_state r', r_world r', app_error app (r_rq r') 414 u))"
      using r(1) k by (simp add: handle)
    then show ?thesis using k(2) by auto
  qed
qed

end

text \<open>An application that does not read: its two callbacks may be looked at one by one.\<close>

lemma answers_without_payload:
  assumes "an_interim A = []" "[] \<notin> snd ` set (an_headers A)" "vis_room v < 2 ^ 30"
    and "\<And>r. r_rq r = vis_rq v \<Longrightarrow> r_text r = vis_text v \<Longrightarrow> handle_status app r (vis_data v)
        = c_bind (header_all (an_headers A) r) (\<lambda>r. Some (Some (an_status A, r, an_data A)))"
    and "writes_body app v A"
  shows "answers app v {A}"
  unfolding answers_def prepares_def
proof (intro conjI allI impI)
  fix r n H
  assume r: "visits v r" "owes (vis_payload v) r" "\<forall>A \<in> {A}. length (header_lines (an_headers A)) \<le> H"
    "length (outb r) + H \<le> vis_room v" "out_ok (n + H) r"
  have sz: "iobuf_size (r_out r) = vis_room v" using r(1) by (simp add: visits_def)
  have o: "out_ok (n + length (header_lines (an_headers A))) r" using r(5) by (rule out_ok_mono) (use r(3) in simp)
  obtain q where q: "header_all (an_headers A) r = Some (Some q)" "delivers False r (header_lines (an_headers A)) q"
      "out_ok n q"
    using header_all_delivers [OF o assms(2)] sz r(3,4) assms(3) by auto
  have s: "same_but_out r q" using q(2) by (simp add: delivers_def)
  have "adds_lines (an_interim A) (header_lines (an_headers A)) r q"
    using delivers_room [OF q(2)] r(3,4) sz s assms(1) by (simp add: adds_lines_def same_but_out_def)
  moreover have "takes (vis_payload v) 0 r q"
    using r(2) s owes_same_out [OF s] by (simp add: takes_def same_but_out_def conn_bytes_def)
  moreover have "handle_status app r (vis_data v) = Some (Some (an_status A, q, an_data A))"
    using assms(4) [of r] r(1) q(1) by (simp add: visits_def)
  ultimately show "\<exists>A \<in> {A}. \<exists>r' k. handle_status app r (vis_data v) = Some (Some (an_status A, r', an_data A))
      \<and> adds_lines (an_interim A) (header_lines (an_headers A)) r r' \<and> takes (vis_payload v) k r r' \<and> out_ok n r'"
    using q(3) by blast
qed (use assms(5) in simp)

section \<open>An application that only writes\<close>

definition static_app ::
    "(http_response_header \<times> string) list \<Rightarrow> int \<Rightarrow> bytes list \<Rightarrow> 'u minute_httpd_app" where
  "static_app hs status bs =
     \<lparr>app_header = (\<lambda>r u. c_bind (header_all hs r) (\<lambda>r. Some (Some (status, r, u)))),
      app_payload = (\<lambda>r u. Some (Some (500, r, u))),
      app_response = (\<lambda>status r u. c_bind (write_all bs r) (\<lambda>r. Some (Some (0, r, u)))),
      app_error = (\<lambda>rq status u. u)\<rparr>"

definition static_answer ::
    "(http_response_header \<times> string) list \<Rightarrow> int \<Rightarrow> bytes list \<Rightarrow> 'u visit \<Rightarrow> 'u answer" where
  "static_answer hs status bs v =
     \<lparr>an_interim = [], an_headers = hs, an_status = status, an_data = vis_data v,
      an_body = (if bodyless (vis_rq v) status then [] else concat bs), an_final = vis_data v\<rparr>"

text \<open>It answers when its header values and its pieces are not empty and the pieces are below half a
  megabyte.\<close>

definition static_ok :: "nat \<Rightarrow> int \<Rightarrow> (http_response_header \<times> string) list \<Rightarrow> bytes list \<Rightarrow> bool" where
  "static_ok room status hs bs \<longleftrightarrow> status \<noteq> 100 \<and> [] \<notin> snd ` set hs \<and> [] \<notin> set bs
     \<and> (\<forall>b \<in> set bs. length b < 2 ^ 19) \<and> room < 2 ^ 19"

definition static_answers ::
    "(http_response_header \<times> string) list \<Rightarrow> int \<Rightarrow> bytes list \<Rightarrow> 'u visit \<Rightarrow> 'u answer set" where
  "static_answers hs status bs v = (if static_ok (vis_room v) status hs bs then {static_answer hs status bs v} else {})"

lemma write_all_sends:
  assumes "out_ok (n + length (concat bs)) r" "[] \<notin> set bs" "\<forall>b \<in> set bs. length b < 2 ^ 19"
    and "iobuf_size (r_out r) < 2 ^ 19"
  shows "\<exists>r'. write_all bs r = Some (Some r')
     \<and> delivers (flag_set (r_flags r) httpd_te_chunked) r (concat bs) r' \<and> out_ok n r'"
proof (rule write_all_delivers [OF assms(1,2)])
  show "\<forall>b \<in> set bs. iobuf_size (r_out r) + length b < chunk_limit (flag_set (r_flags r) httpd_te_chunked)"
    using assms(3,4) by (auto simp: chunk_limit_def)
qed

lemma static_writes:
  assumes "static_ok (vis_room v) status hs bs"
  shows "writes_body (static_app hs status bs) v (static_answer hs status bs v)"
  unfolding writes_body_def
proof (intro allI impI)
  fix r n
  assume r: "r_rq r = vis_rq v" "iobuf_size (r_out r) = vis_room v"
    "out_ok (n + length (an_body (static_answer hs status bs v))) r"
  let ?A = "static_answer hs status bs v"
  show "\<exists>r'. handle_body (static_app hs status bs) (an_status ?A) r (an_data ?A) = Some (Some (r', an_final ?A))
      \<and> sends (flag_set (r_flags r) httpd_te_chunked) r (an_body ?A) r' \<and> out_ok n r'"
  proof (cases "bodyless (vis_rq v) status")
    case True
    then show ?thesis
      using r delivers_sends [OF delivers_nil] by (auto simp: handle_body_def bodyless_def static_answer_def)
  next
    case False
    then obtain q where "write_all bs r = Some (Some q)" "delivers (flag_set (r_flags r) httpd_te_chunked) r (concat bs) q"
        "out_ok n q"
      using write_all_sends [of n bs r] r assms by (auto simp: static_ok_def static_answer_def)
    then show ?thesis
      using False r delivers_sends
      by (auto simp: handle_body_def bodyless_def static_app_def static_answer_def Let_def)
  qed
qed

interpretation static: http_application "static_app hs status bs" "static_answers hs status bs"
  for hs status bs
proof (unfold_locales)
  fix v :: "'a visit"
  assume "static_answers hs status bs v \<noteq> {}"
  then have ok: "static_ok (vis_room v) status hs bs" by (simp add: static_answers_def split: if_splits)
  have "answers (static_app hs status bs) v {static_answer hs status bs v}"
  proof (rule answers_without_payload)
    show "handle_status (static_app hs status bs) r (vis_data v)
        = c_bind (header_all (an_headers (static_answer hs status bs v)) r)
            (\<lambda>r. Some (Some (an_status (static_answer hs status bs v), r, an_data (static_answer hs status bs v))))" for r
      using ok by (cases "header_all hs r")
        (auto simp: handle_status_def static_app_def static_ok_def static_answer_def c_bind_def split: option.splits)
  qed (use ok static_writes [OF ok] in \<open>simp_all add: static_ok_def static_answer_def\<close>)
  then show "answers (static_app hs status bs) v (static_answers hs status bs v)"
    using ok by (simp add: static_answers_def)
qed

text \<open>C5. A request that is accepted is answered completely and leaves the connection at the
  next request.  For an application that sets the headers \<open>hs\<close>, chooses a status and writes the
  pieces \<open>bs\<close>, the client receives the status line, the two standard headers, the headers of the
  application, the connection headers, an empty line, and the written bytes in order (nothing for
  HEAD, 204, 205 and 304), in chunks with their end when the connection stays open, and it stays
  open exactly when the request says so; the declared payload, and nothing else, is taken from the
  input.  (Or the request did not fit into the input buffer.)\<close>
theorem handle_serves:
  assumes "request_received st w y rest" "static_ok (iobuf_size (st_out st)) status hs bs"
    and "body = (if bodyless (c_rq y) status then [] else concat bs)"
    and "answer_ok gmtime now (iobuf_size (st_out st)) status hs body"
  shows "\<exists>code st' w' fs. minute_httpd_handle (static_app hs status bs) gmtime now st w u
      = Some (Some (code, st', w', u))
    \<and> (code = (if keeps_open (c_rq y) then httpd_client_ok_open else httpd_client_ok_close)
         \<and> w_sent w' = w_sent w @ static_wire gmtime now (c_rq y) status hs fs
         \<and> state_bytes st' w' = drop (nat (payload_length (c_rq y))) rest
         \<and> [] \<notin> set fs \<and> concat fs = body
       \<or> code = -414 \<and> iobuf_size (st_in st) \<le> length (state_bytes st w))"
proof -
  let ?v = "visit_of st y rest u"
  have S: "static_answers hs status bs ?v = {static_answer hs status bs ?v}"
    using assms(2) by (simp add: static_answers_def visit_of_def)
  have e: "app_error (static_app hs status bs) rq 414 u = u" for rq by (simp add: static_app_def)
  show ?thesis
    using static.request_answered [OF assms(1) S [symmetric], of gmtime now] assms(3,4) unfolding e
    by (fastforce simp: static_answer_def visit_of_def)
qed

text \<open>A server whose input buffer holds a request.\<close>

definition demo_server :: minute_httpd_state where
  "demo_server = \<lparr>st_in = \<lparr>io_read = 0, io_write = 16, io_mask = 31, io_flags = 0,
        io_data = demo_request @ replicate 16 NUL\<rparr>,
     st_out = minute_iobuf_init 256 (replicate 256 NUL), st_text = demo_text,
     st_infd = 0, st_outfd = 1\<rparr>"

definition demo_world :: world where
  "demo_world = \<lparr>w_in = [], w_script = [], w_sent = []\<rparr>"

definition demo_clock :: "int \<Rightarrow> tm" where
  "demo_clock t = \<lparr>tm_sec = 0, tm_min = 0, tm_hour = 0, tm_mday = 1, tm_mon = 0, tm_year = 70, tm_wday = 4\<rparr>"

lemma demo_server_ok:
  "state_ok demo_server demo_world" "state_bytes demo_server demo_world = demo_request"
  "iobuf_size (st_out demo_server) = 256" "iobuf_size (st_in demo_server) = 32"
proof -
  have out: "iobuf_ok (st_out demo_server)" "iobuf_size (st_out demo_server) = 256"
    unfolding demo_server_def minute_httpd_state.select_convs
    using minute_iobuf_init_ok [of 8 256 "replicate 256 NUL"] by (simp_all add: iobuf_size_def minute_iobuf_init_def)
  then show "iobuf_size (st_out demo_server) = 256" by simp
  show size: "iobuf_size (st_in demo_server) = 32" by (simp add: demo_server_def iobuf_size_def)
  show "state_bytes demo_server demo_world = demo_request" by code_simp
  have f: "textint_ok (st_text demo_server)" "iobuf_unwrapped (st_in demo_server)" "unat (io_write (st_in demo_server)) = 16"
    "\<not> at_eof (st_in demo_server)" "unat (minute_iobuf_used (st_in demo_server)) = 16"
    "length (io_data (st_in demo_server)) = 32" by code_simp+
  have "\<exists>k < 31. (32 :: nat) = 2 ^ k" by (intro exI [of _ 5]) simp
  then have "iobuf_ok (st_in demo_server)" using f(5,6) unfolding iobuf_ok_def size by simp
  moreover have "st_outfd demo_server = 1" by (simp add: demo_server_def)
  ultimately show "state_ok demo_server demo_world"
    using out f(1-4) by (simp add: state_ok_def demo_world_def events_ok_def)
qed

lemma handle_serves_witness:
  "\<exists>code st' w'. minute_httpd_handle (static_app [] 404 [''none'']) demo_clock 0 demo_server demo_world ()
     = Some (Some (code, st', w', ())) \<and> code = httpd_client_ok_close"
proof -
  let ?scan = "http_scan False demo_request (request_ctx demo_server)"
  have "(case ?scan of Done k y \<Rightarrow> k = 0 \<and> rq_flags (c_rq y) = 0 \<and> rq_server_protocol (c_rq y) = http_1_0 | _ \<Rightarrow> False)"
    by code_simp
  then obtain y where y: "?scan = Done 0 y" "rq_flags (c_rq y) = 0" "rq_server_protocol (c_rq y) = http_1_0"
    by (auto split: verdict.splits)
  have u: "unfolded False demo_request" and len: "length demo_request = 16" by code_simp+
  have f: "payload_length (c_rq y) = 0" "\<not> flag_set (rq_flags (c_rq y)) http_transfer_chunked"
    "\<not> flag_set (rq_flags (c_rq y)) http_connection_keep"
    by (simp_all add: y payload_length_def flag_set_def)
  have "\<not> http_1_1 \<le> http_1_0" by code_simp
  then have "\<not> keeps_open (c_rq y)" using f(3) y(3) by (simp add: keeps_open_def)
  moreover have "static_ok (iobuf_size (st_out demo_server)) 404 [] [''none'']"
    "answer_ok demo_clock 0 (iobuf_size (st_out demo_server)) 404 [] (if b then [] else concat [''none''])" for b
    unfolding demo_server_ok(3) using standard_lines_length [of demo_clock 0]
    by (simp_all add: static_ok_def answer_ok_def header_lines_def)
  moreover have "request_received demo_server demo_world y (scan_rest demo_request (request_ctx demo_server))"
    using y(1) u f(1,2) by (simp add: request_received_def demo_server_ok)
  ultimately show ?thesis
    using handle_serves [of demo_server demo_world y "scan_rest demo_request (request_ctx demo_server)" 404 "[]"
        "[''none'']" _ demo_clock 0 "()", OF _ _ refl] demo_server_ok len by fastforce
qed


text \<open>The same server in front of a line that is no request.\<close>

definition demo_bad :: minute_httpd_state where
  "demo_bad = demo_server\<lparr>st_in := (st_in demo_server)\<lparr>io_write := 4, io_data := ''?/ '' @ [CHR 0x0A] @ replicate 28 NUL\<rparr>\<rparr>"


end
