(* ===== verification/Minuted_Processor.thy ===== *)
theory Minuted_Processor
  imports Main
begin

text \<open>
  The accept loop of a child (\<open>minuted_serve_processor\<close> in \<open>src/minuted/minuted.c\<close>) as a state
  machine, the semaphore all children share, and the system of all of them.
\<close>

section \<open>One child\<close>

text \<open>Where a child stands: at the head of the \<open>while\<close>, in \<open>sem_wait\<close>, in \<open>poll\<close>, in the
  \<open>for\<close> at a descriptor (with the descriptors that are ready), serving a connection, or gone.\<close>

datatype place =
    At_head
  | At_wait
  | At_poll
  | At_scan nat "bool list"
  | At_serve nat int
  | At_exit int

record processor =
  p_place  :: place
  p_sighup :: bool
  p_nfds   :: nat

text \<open>What happens to it: a SIGHUP sets the flag; the other events are the outcomes of the call it
  stands in.\<close>

datatype event =
    Sighup
  | Loop
  | Sem_ok
  | Sem_eintr
  | Sem_fail
  | Poll_eintr
  | Poll_fail
  | Poll_none
  | Poll_ready "bool list"
  | Accept_sock int
  | Accept_again
  | Accept_fail
  | Served

text \<open>Control messages to the master.\<close>

datatype message = Accepted | Closed

text \<open>One step: the new child, the new value of the semaphore and the messages sent.  \<open>None\<close> is an
  event that cannot happen there; \<open>sem_wait\<close> does not return normally while the semaphore is 0.\<close>

fun scan_next :: "nat \<Rightarrow> bool list \<Rightarrow> processor \<Rightarrow> processor" where
  "scan_next i [] p = p\<lparr>p_place := At_head\<rparr>"
| "scan_next i (b # bs) p = (if b then p\<lparr>p_place := At_scan i bs\<rparr> else scan_next (Suc i) bs p)"

definition processor_loop :: "processor \<Rightarrow> processor" where
  "processor_loop p =
     (if p_sighup p then p\<lparr>p_place := At_exit 0, p_sighup := False\<rparr> else p\<lparr>p_place := At_wait\<rparr>)"

definition processor_break :: "int \<Rightarrow> processor \<Rightarrow> processor" where
  "processor_break res p = p\<lparr>p_place := At_exit res, p_sighup := False\<rparr>"

fun processor_step :: "event \<Rightarrow> processor \<Rightarrow> nat \<Rightarrow> (processor \<times> nat \<times> message list) option" where
  "processor_step ev p sem = (case (p_place p, ev) of
     (At_exit res, _) \<Rightarrow> None
   | (_, Sighup) \<Rightarrow> Some (p\<lparr>p_sighup := True\<rparr>, sem, [])
   | (At_head, Loop) \<Rightarrow> Some (processor_loop p, sem, [])
   | (At_wait, Sem_ok) \<Rightarrow> if 0 < sem then Some (p\<lparr>p_place := At_poll\<rparr>, sem - 1, []) else None
   | (At_wait, Sem_eintr) \<Rightarrow> Some (p\<lparr>p_place := At_head\<rparr>, sem, [])
   | (At_wait, Sem_fail) \<Rightarrow> Some (processor_break 3 p, sem, [])
   | (At_poll, Poll_eintr) \<Rightarrow> Some (p\<lparr>p_place := At_head\<rparr>, sem, [])
   | (At_poll, Poll_fail) \<Rightarrow> Some (processor_break 4 p, sem + 1, [])
   | (At_poll, Poll_none) \<Rightarrow> Some (p\<lparr>p_place := At_head\<rparr>, sem + 1, [])
   | (At_poll, Poll_ready bs) \<Rightarrow>
       if length bs = p_nfds p then Some (scan_next 0 bs p, sem, []) else None
   | (At_scan i bs, Accept_sock sock) \<Rightarrow> Some (p\<lparr>p_place := At_serve i sock\<rparr>, sem + 1, [Accepted])
   | (At_scan i bs, Accept_again) \<Rightarrow> Some (p\<lparr>p_place := At_head\<rparr>, sem + 1, [Accepted])
   | (At_scan i bs, Accept_fail) \<Rightarrow> Some (scan_next (Suc i) bs p, sem + 1, [Accepted])
   | (At_serve i sock, Served) \<Rightarrow> Some (p\<lparr>p_place := At_head\<rparr>, sem, [Closed])
   | _ \<Rightarrow> None)"

declare processor_step.simps [simp del]

section \<open>All children\<close>

text \<open>The shared semaphore, the children, and the messages sent so far.  A fork adds a child.\<close>

record system =
  sys_sem  :: nat
  sys_kids :: "processor list"
  sys_sent :: "message list"

definition new_processor :: "nat \<Rightarrow> processor" where
  "new_processor n = \<lparr>p_place = At_head, p_sighup = False, p_nfds = n\<rparr>"

definition sys_event :: "nat \<Rightarrow> event \<Rightarrow> system \<Rightarrow> system option" where
  "sys_event i ev s =
     (if i < length (sys_kids s) then
        (case processor_step ev (sys_kids s ! i) (sys_sem s) of
           None \<Rightarrow> None
         | Some (p, sem, ms) \<Rightarrow> Some \<lparr>sys_sem = sem, sys_kids = (sys_kids s)[i := p], sys_sent = sys_sent s @ ms\<rparr>)
      else None)"

definition sys_fork :: "nat \<Rightarrow> system \<Rightarrow> system" where
  "sys_fork n s = s\<lparr>sys_kids := sys_kids s @ [new_processor n]\<rparr>"

text \<open>The runs of the system, with the events that have happened.\<close>

inductive steps :: "system \<Rightarrow> (nat \<times> event) list \<Rightarrow> system \<Rightarrow> bool" where
  steps_start: "steps s [] s"
| steps_event: "steps s es t \<Longrightarrow> sys_event i ev t = Some u \<Longrightarrow> steps s (es @ [(i, ev)]) u"
| steps_fork: "steps s es t \<Longrightarrow> steps s es (sys_fork n t)"

inductive_cases steps_snocE: "steps s (es @ [e]) t"

text \<open>A run of given events, computed.\<close>

fun sys_run :: "(nat \<times> event) list \<Rightarrow> system \<Rightarrow> system option" where
  "sys_run [] s = Some s"
| "sys_run ((i, ev) # es) s = (case sys_event i ev s of None \<Rightarrow> None | Some t \<Rightarrow> sys_run es t)"

lemma steps_trans: "steps t fs u \<Longrightarrow> steps s es t \<Longrightarrow> steps s (es @ fs) u"
proof (induction rule: steps.induct)
  case (steps_event t fs u i ev v)
  then show ?case using steps.steps_event [of s "es @ fs" u] by simp
qed (auto intro: steps_fork)

lemma sys_run_steps: "sys_run es s = Some t \<Longrightarrow> steps s es t"
proof (induction es arbitrary: s)
  case (Cons e es)
  obtain i ev u where e: "e = (i, ev)" "sys_event i ev s = Some u" "sys_run es u = Some t"
    using Cons.prems by (cases e) (auto split: option.splits)
  have "steps s [(i, ev)] u" using steps_event [OF steps_start e(2)] by simp
  then show ?case using steps_trans [OF Cons.IH [OF e(3)]] e(1) by fastforce
qed (simp add: steps_start)

section \<open>Who holds the semaphore\<close>

fun holds :: "place \<Rightarrow> nat" where
  "holds At_poll = 1"
| "holds (At_scan i bs) = 1"
| "holds _ = 0"

definition holders :: "system \<Rightarrow> nat" where
  "holders s = sum_list (map (\<lambda>p. holds (p_place p)) (sys_kids s))"

lemma sum_list_update_nat:
  "i < length xs \<Longrightarrow> sum_list (map f (xs[i := x])) + f (xs ! i) = sum_list (map f xs) + (f x :: nat)"
  by (induction xs arbitrary: i) (auto simp: nth_Cons split: nat.split)

lemma holders_fork [simp]: "holders (sys_fork n s) = holders s" "sys_sem (sys_fork n s) = sys_sem s"
  "sys_sent (sys_fork n s) = sys_sent s"
  by (simp_all add: sys_fork_def holders_def new_processor_def)

lemma sys_eventE:
  assumes "sys_event i ev s = Some t"
  obtains p ms where "i < length (sys_kids s)" "processor_step ev (sys_kids s ! i) (sys_sem s) = Some (p, sys_sem t, ms)"
    "sys_kids t = (sys_kids s)[i := p]" "sys_sent t = sys_sent s @ ms"
  using assms by (auto simp: sys_event_def split: if_splits option.splits)

lemma holders_event:
  assumes "i < length (sys_kids s)" "sys_kids t = (sys_kids s)[i := p]"
  shows "holders t + holds (p_place (sys_kids s ! i)) = holders s + holds (p_place p)"
  using sum_list_update_nat [OF assms(1), of "\<lambda>p. holds (p_place p)" p] assms(2)
  by (simp add: holders_def)

lemma scan_next_place:
  "p_place (scan_next i bs p) = At_head \<and> True \<notin> set bs \<or> (\<exists>j cs. p_place (scan_next i bs p) = At_scan j cs)"
  by (induction i bs p rule: scan_next.induct) auto

lemma scan_next_holds: "holds (p_place (scan_next i bs p)) \<le> 1"
  "True \<in> set bs \<Longrightarrow> holds (p_place (scan_next i bs p)) = 1"
  using scan_next_place [of i bs p] by auto

text \<open>Events that treat the semaphore as a lock: every wait is followed by one post.\<close>

fun orderly :: "event \<Rightarrow> bool" where
  "orderly Poll_eintr = False"
| "orderly (Poll_ready bs) = (True \<in> set bs)"
| "orderly Accept_fail = False"
| "orderly _ = True"

lemma step_cases:
  assumes "processor_step ev p sem = Some (q, sem', ms)"
  shows "orderly ev \<Longrightarrow> sem' + holds (p_place q) = sem + holds (p_place p)"
    and "ev \<noteq> Accept_fail \<Longrightarrow> sem' + holds (p_place q) \<le> sem + holds (p_place p)"
    and "sem = 0 \<Longrightarrow> holds (p_place p) = 0 \<Longrightarrow> sem' = 0 \<and> holds (p_place q) = 0"
  using assms scan_next_holds
  by (auto simp: processor_step.simps processor_loop_def processor_break_def
      split: place.splits event.splits if_splits)

section \<open>Properties\<close>

definition start_system :: "nat \<Rightarrow> system" where
  "start_system k = \<lparr>sys_sem = 1, sys_kids = replicate k (new_processor 2), sys_sent = []\<rparr>"

text \<open>C23. Mutual exclusion.  As long as no \<open>accept\<close> fails for another reason than \<open>EAGAIN\<close> or
  \<open>EINTR\<close>, at most one child at a time is in \<open>poll\<close> or in front of \<open>accept\<close>, whatever the
  interleaving of the children, of signals and of forks.\<close>
theorem semaphore_mutex:
  assumes "steps s es t" "sys_sem s + holders s \<le> 1" "Accept_fail \<notin> snd ` set es"
  shows "sys_sem t + holders t \<le> 1"
  using assms
proof (induction rule: steps.induct)
  case (steps_event s es t i ev u)
  from steps_event.hyps(2) show ?case
  proof (cases rule: sys_eventE)
    case (1 p ms)
    have "ev \<noteq> Accept_fail" using steps_event.prems(2) by auto
    then show ?thesis
      using step_cases(2) [OF 1(2)] holders_event [OF 1(1,3)] steps_event.IH steps_event.prems by force
  qed
qed simp_all

lemma semaphore_mutex_witness:
  "\<exists>t. steps (start_system 2) [(0, Loop), (1, Loop), (0, Sem_ok), (0, Poll_ready [False, True])] t
     \<and> sys_sem t + holders t \<le> 1"
proof -
  let ?es = "[(0, Loop), (1, Loop), (0, Sem_ok), (0, Poll_ready [False, True])]"
  obtain t where t: "sys_run ?es (start_system 2) = Some t"
    by (simp add: start_system_def new_processor_def sys_event_def processor_step.simps processor_loop_def
        numeral_2_eq_2)
  have "sys_sem (start_system 2) + holders (start_system 2) \<le> 1"
    by (simp add: start_system_def holders_def new_processor_def numeral_2_eq_2)
  then show ?thesis using semaphore_mutex [OF sys_run_steps [OF t]] sys_run_steps [OF t] by auto
qed

text \<open>A hard failure of \<open>accept\<close> breaks the lock: the loop goes on with the next ready
  descriptor after it has posted the semaphore, and a second child gets into \<open>poll\<close>.\<close>
lemma accept_failure_breaks_mutex:
  "\<exists>t. steps (start_system 2)
      [(0, Loop), (0, Sem_ok), (0, Poll_ready [True, True]), (0, Accept_fail), (1, Loop), (1, Sem_ok)] t
    \<and> holders t = 2"
proof -
  let ?es = "[(0, Loop), (0, Sem_ok), (0, Poll_ready [True, True]), (0, Accept_fail), (1, Loop), (1, Sem_ok)]"
  obtain t where "sys_run ?es (start_system 2) = Some t" "holders t = 2"
    by (simp add: start_system_def new_processor_def sys_event_def processor_step.simps processor_loop_def
        numeral_2_eq_2 holders_def)
  then show ?thesis using sys_run_steps by blast
qed

text \<open>As long as no \<open>poll\<close> is interrupted or answers with a descriptor that is not readable,
  and no \<open>accept\<close> fails hard, the semaphore is neither lost nor multiplied: the value of the
  semaphore and the number of children that hold it keep their sum.\<close>
theorem semaphore_balanced:
  assumes "steps s es t" "\<forall>e \<in> set es. orderly (snd e)"
  shows "sys_sem t + holders t = sys_sem s + holders s"
  using assms
proof (induction rule: steps.induct)
  case (steps_event s es t i ev u)
  from steps_event.hyps(2) show ?case
  proof (cases rule: sys_eventE)
    case (1 p ms)
    have "orderly ev" using steps_event.prems by auto
    then show ?thesis
      using step_cases(1) [OF 1(2)] holders_event [OF 1(1,3)] steps_event.IH steps_event.prems by force
  qed
qed simp_all

lemma semaphore_balanced_witness:
  "\<exists>t. steps (start_system 1) [(0, Loop), (0, Sem_ok), (0, Poll_none)] t \<and> sys_sem t + holders t = 1"
proof -
  let ?es = "[(0, Loop), (0, Sem_ok), (0, Poll_none)]"
  obtain t where t: "sys_run ?es (start_system 1) = Some t"
    by (simp add: start_system_def new_processor_def sys_event_def processor_step.simps processor_loop_def)
  have "sys_sem (start_system 1) + holders (start_system 1) = 1"
    by (simp add: start_system_def holders_def new_processor_def)
  then show ?thesis using semaphore_balanced [OF sys_run_steps [OF t]] sys_run_steps [OF t] by auto
qed



text \<open>The children that are serving.\<close>

fun serves :: "place \<Rightarrow> nat" where
  "serves (At_serve i sock) = 1"
| "serves _ = 0"

definition serving_kids :: "system \<Rightarrow> nat" where
  "serving_kids s = sum_list (map (\<lambda>p. serves (p_place p)) (sys_kids s))"

fun failed_accept :: "event \<Rightarrow> bool" where
  "failed_accept Accept_again = True"
| "failed_accept Accept_fail = True"
| "failed_accept _ = False"

lemma scan_next_serves [simp]: "serves (p_place (scan_next i bs p)) = 0"
  using scan_next_place [of i bs p] by auto

lemma step_messages:
  assumes "processor_step ev p sem = Some (q, sem', ms)"
  shows "count_list ms Accepted + serves (p_place p)
    = count_list ms Closed + serves (p_place q) + (if failed_accept ev then 1 else 0)"
  using assms
  by (auto simp: processor_step.simps processor_loop_def processor_break_def
      split: place.splits event.splits if_splits)



end
