(* ===== verification/Minuted_Log.thy ===== *)
theory Minuted_Log
  imports Httpd_Out
begin

text \<open>
  The log of \<open>src/minuted/main.c\<close>, and the messages from a child to the master process
  (\<open>src/minuted/minuted.c\<close>): log lines and control messages share one queue, and the first
  byte of a message says which of the two it is.
\<close>

section \<open>Log lines\<close>

text \<open>What the processes write to: stderr, and the message queue.  A call of \<open>mq_send\<close> takes
  its outcome from a script, success or the text of its error.\<close>

record log_world =
  lw_stderr :: bytes
  lw_queue  :: "bytes list"
  lw_script :: "string option list"

definition put_err :: "string \<Rightarrow> log_world \<Rightarrow> log_world" where
  "put_err s w = w\<lparr>lw_stderr := lw_stderr w @ s\<rparr>"

definition mq_send :: "bytes \<Rightarrow> log_world \<Rightarrow> log_world" where
  "mq_send msg w = (case lw_script w of
       Some e # es \<Rightarrow> put_err (''mq_send: '' @ e @ [CHR 0x0A]) (w\<lparr>lw_script := es\<rparr>)
     | es \<Rightarrow> w\<lparr>lw_queue := lw_queue w @ [msg], lw_script := tl es\<rparr>)"

text \<open>\<open>strftime\<close> with \<open>%FT%TZ\<close> and a blank.\<close>

definition log_time :: "tm \<Rightarrow> string" where
  "log_time tm = fmt_d (1900 + tm_year tm) @ ''-'' @ fmt_02d (1 + tm_mon tm) @ ''-'' @ fmt_02d (tm_mday tm)
     @ ''T'' @ fmt_02d (tm_hour tm) @ '':'' @ fmt_02d (tm_min tm) @ '':'' @ fmt_02d (tm_sec tm) @ ''Z ''"

definition log_prefix :: "char \<Rightarrow> string" where
  "log_prefix type =
     (if type = CHR ''F'' then ''[FATAL] ''
      else if type = CHR ''E'' then ''[ERROR] ''
      else if type = CHR ''W'' then '' [WARN] ''
      else if type = CHR ''I'' then '' [info] ''
      else if type = CHR ''D'' then ''[debug] ''
      else [])"

text \<open>\<open>logs\<close> writes \<open>len\<close> bytes of the block that starts at \<open>off\<close>.\<close>

definition logs :: "tm \<Rightarrow> char \<Rightarrow> bytes \<Rightarrow> nat \<Rightarrow> nat \<Rightarrow> log_world \<Rightarrow> log_world option" where
  "logs tm type buf off len w = do {
     msg \<leftarrow> mem_slice buf off len;
     Some (put_err (log_time tm @ log_prefix type @ msg @ [CHR 0x0A]) w)
   }"

text \<open>\<open>logva\<close>, given the text \<open>vsnprintf\<close> would produce and what was in the stack block before:
  the block of 512 bytes keeps 510 of it, while its result is the whole length.\<close>

definition logva :: "int \<Rightarrow> tm \<Rightarrow> char \<Rightarrow> string \<Rightarrow> log_world \<Rightarrow> log_world option" where
  "logva mqd tm type text w =
     (let buf = type # snprintf_block 511 text; len = length text
      in if mqd < 0 then logs tm type buf 1 len w
         else do { msg \<leftarrow> mem_slice buf 0 (len + 1); Some (mq_send msg w) })"

text \<open>The functions the rest of the program calls; \<open>fatal\<close> then exits.\<close>

definition fatal :: "int \<Rightarrow> tm \<Rightarrow> string \<Rightarrow> log_world \<Rightarrow> log_world option" where
  "fatal mqd tm text = logva mqd tm CHR ''F'' text"

definition error_log :: "int \<Rightarrow> tm \<Rightarrow> string \<Rightarrow> log_world \<Rightarrow> log_world option" where
  "error_log mqd tm text = logva mqd tm CHR ''E'' text"

definition warn :: "int \<Rightarrow> tm \<Rightarrow> string \<Rightarrow> log_world \<Rightarrow> log_world option" where
  "warn mqd tm text = logva mqd tm CHR ''W'' text"

definition info :: "int \<Rightarrow> tm \<Rightarrow> string \<Rightarrow> log_world \<Rightarrow> log_world option" where
  "info mqd tm text = logva mqd tm CHR ''I'' text"

definition debug :: "bool \<Rightarrow> int \<Rightarrow> tm \<Rightarrow> string \<Rightarrow> log_world \<Rightarrow> log_world option" where
  "debug debug_enabled mqd tm text w = (if debug_enabled then logva mqd tm CHR ''D'' text w else Some w)"

definition acclog :: "int \<Rightarrow> tm \<Rightarrow> string \<Rightarrow> log_world \<Rightarrow> log_world option" where
  "acclog mqd tm text = logva mqd tm CHR ''A'' text"

section \<open>Receiving in the master\<close>

text \<open>The outcomes of \<open>mq_receive\<close> and \<open>mq_timedreceive\<close>.\<close>

datatype mq_event = Mq_message bytes | Mq_eintr | Mq_etimedout | Mq_error

text \<open>The bytes of a message land at the front of the block, which has one byte more than the
  largest message.\<close>

definition minuted_mq_receive ::
    "tm \<Rightarrow> mq_event \<Rightarrow> bytes \<Rightarrow> log_world \<Rightarrow> (int \<times> bytes \<times> log_world) option" where
  "minuted_mq_receive tm ev msgbuf w =
     (case ev of
        Mq_eintr \<Rightarrow> Some (0, msgbuf, w)
      | Mq_etimedout \<Rightarrow> Some (-1, msgbuf, w)
      | Mq_error \<Rightarrow> Some (-2, msgbuf, w)
      | Mq_message msg \<Rightarrow>
          let r = length msg in
          if r = 0 then Some (0, msgbuf, w)
          else do {
            buf \<leftarrow> mem_write (msg @ drop r msgbuf) r NUL;
            type \<leftarrow> mem_read buf 0;
            if type \<in> {CHR ''A'', CHR ''F'', CHR ''E'', CHR ''W'', CHR ''I'', CHR ''D''} then do {
              w' \<leftarrow> logs tm type buf 1 (r - 1) w;
              Some (0, buf, w')
            }
            else Some (int r, buf, w)
          })"

section \<open>Control messages\<close>

text \<open>A \<open>pid_t\<close> is a signed integer of 32 bits: it is shifted down arithmetically.\<close>

type_synonym pid = "32 word"

primrec pack_loop :: "nat \<Rightarrow> nat \<Rightarrow> pid \<Rightarrow> bytes \<Rightarrow> (nat \<times> bytes) option" where
  "pack_loop 0 l pid buf = Some (l, buf)"
| "pack_loop (Suc n) l pid buf = do {
     buf \<leftarrow> mem_write buf l (int_char (sint (pid AND 0xff)));
     pack_loop n (l + 1) (signed_drop_bit 8 pid) buf
   }"

definition minuted_control_pack :: "bytes \<Rightarrow> char \<Rightarrow> pid \<Rightarrow> (nat \<times> bytes) option" where
  "minuted_control_pack buf type pid = do {
     buf \<leftarrow> mem_write buf 0 type;
     pack_loop 4 1 pid buf
   }"

primrec unpack_loop :: "nat \<Rightarrow> nat \<Rightarrow> bytes \<Rightarrow> pid \<Rightarrow> pid option" where
  "unpack_loop 0 l buf pid = Some pid"
| "unpack_loop (Suc i) l buf pid = do {
     c \<leftarrow> mem_read buf (l + i);
     unpack_loop i l buf (push_bit 8 pid OR (word_of_int (char_int c) AND 0xff))
   }"

definition minuted_control_unpack :: "bytes \<Rightarrow> (nat \<times> char \<times> pid) option" where
  "minuted_control_unpack buf = do {
     type \<leftarrow> mem_read buf 0;
     pid \<leftarrow> unpack_loop 4 1 buf 0;
     Some (5, type, pid)
   }"

text \<open>The message has one byte more than was packed: what the stack block held there before.\<close>

definition minuted_control_message :: "int \<Rightarrow> bytes \<Rightarrow> char \<Rightarrow> pid \<Rightarrow> log_world \<Rightarrow> log_world option" where
  "minuted_control_message mqd stack type pid w =
     (if 0 \<le> mqd then do {
        (len, buf) \<leftarrow> minuted_control_pack stack type pid;
        msg \<leftarrow> mem_slice buf 0 (len + 1);
        Some (mq_send msg w)
      }
      else Some w)"

definition minuted_accepted :: "int \<Rightarrow> bytes \<Rightarrow> pid \<Rightarrow> log_world \<Rightarrow> log_world option" where
  "minuted_accepted mqd stack pid = minuted_control_message mqd stack CHR ''a'' pid"

definition minuted_closed :: "int \<Rightarrow> bytes \<Rightarrow> pid \<Rightarrow> log_world \<Rightarrow> log_world option" where
  "minuted_closed mqd stack pid = minuted_control_message mqd stack CHR ''c'' pid"

section \<open>Packing and unpacking\<close>

lemma low_byte: "(w AND 0xff :: 32 word) = take_bit 8 w"
  by (simp add: take_bit_eq_mask mask_eq_exp_minus_1)

lemma byte_through_char:
  "word_of_int (char_int (int_char (sint (w AND 0xff)))) AND 0xff = (w AND 0xff :: 32 word)"
proof -
  let ?n = "uint (w AND 0xff)"
  have n: "0 \<le> ?n" "?n < 256"
    unfolding low_byte using take_bit_int_less_exp [of 8 "uint w"] by (simp_all add: unsigned_take_bit_eq)
  have lo: "- (2 ^ 31) \<le> ?n" by (rule order_trans [OF _ n(1)]) simp
  have hi: "?n < 2 ^ 31" using n(2) by simp
  have s: "sint (w AND 0xff) = ?n" using signed_take_bit_int_eq_self [OF lo hi] by (simp add: sint_uint)
  have "of_char (int_char ?n) = ?n mod 256" unfolding int_char_def by (rule of_char_of)
  then have c: "(of_char (int_char ?n) :: int) = ?n" using n by simp
  have "word_of_int (char_int (int_char ?n)) AND 0xff = (take_bit 8 (word_of_int (char_int (int_char ?n))) :: 32 word)"
    by (rule low_byte)
  also have "\<dots> = word_of_int (take_bit 8 (char_int (int_char ?n)))" by (simp add: of_int_take_bit)
  also have "take_bit 8 (char_int (int_char ?n)) = char_int (int_char ?n) mod 256" by (simp add: take_bit_eq_mod)
  also have "\<dots> = ?n"
    unfolding char_int_sign8 c sign8_mod using n by simp
  also have "word_of_int ?n = (w AND 0xff :: 32 word)" by simp
  finally show ?thesis unfolding s .
qed

definition pid_byte :: "pid \<Rightarrow> nat \<Rightarrow> char" where
  "pid_byte pid i = int_char (sint (signed_drop_bit (8 * i) pid AND 0xff))"

lemma pack_bytes:
  assumes "5 \<le> length buf"
  shows "minuted_control_pack buf type pid
    = Some (5, [type, pid_byte pid 0, pid_byte pid 1, pid_byte pid 2, pid_byte pid 3] @ drop 5 buf)"
proof -
  obtain a b c d e rest where buf: "buf = a # b # c # d # e # rest"
    using assms by (auto simp: Suc_le_length_iff eval_nat_numeral)
  show ?thesis
    unfolding minuted_control_pack_def buf
    by (simp add: mem_write_def eval_nat_numeral pid_byte_def signed_drop_bit_signed_drop_bit)
qed

lemma join_bytes:
  "push_bit 8 (push_bit 8 (push_bit 8 (signed_drop_bit 24 pid AND 0xff) OR (signed_drop_bit 16 pid AND 0xff))
      OR (signed_drop_bit 8 pid AND 0xff)) OR (pid AND 0xff) = (pid :: pid)"
  unfolding low_byte
proof (rule bit_word_eqI)
  fix n assume "n < LENGTH(32)"
  then consider "n < 8" | "8 \<le> n" "n < 16" | "16 \<le> n" "n < 24" | "24 \<le> n" "n < 32" by force
  then show "bit (push_bit 8 (push_bit 8 (push_bit 8 (take_bit 8 (signed_drop_bit 24 pid))
      OR take_bit 8 (signed_drop_bit 16 pid)) OR take_bit 8 (signed_drop_bit 8 pid)) OR take_bit 8 pid) n = bit pid n"
    by cases (auto simp: bit_simps bit_signed_drop_bit_iff)
qed


lemma pid_byte_value: "word_of_int (char_int (pid_byte pid i)) AND 0xff = signed_drop_bit (8 * i) pid AND 0xff"
  by (simp only: pid_byte_def byte_through_char)

lemma unpack_bytes:
  assumes "5 \<le> length buf" "take 5 buf = [type, pid_byte pid 0, pid_byte pid 1, pid_byte pid 2, pid_byte pid 3]"
  shows "minuted_control_unpack buf = Some (5, type, pid)"
proof -
  obtain rest where buf: "buf = [type, pid_byte pid 0, pid_byte pid 1, pid_byte pid 2, pid_byte pid 3] @ rest"
    using assms by (metis append_take_drop_id)
  have r: "mem_read buf 0 = Some type" "mem_read buf (1 + 0) = Some (pid_byte pid 0)"
    "mem_read buf (1 + Suc 0) = Some (pid_byte pid 1)" "mem_read buf (1 + Suc (Suc 0)) = Some (pid_byte pid 2)"
    "mem_read buf (1 + Suc (Suc (Suc 0))) = Some (pid_byte pid 3)"
    by (simp_all add: mem_read_def buf)
  have four: "(4 :: nat) = Suc (Suc (Suc (Suc 0)))" by simp
  have "unpack_loop 4 1 buf 0 = Some (push_bit 8 (push_bit 8 (push_bit 8 (push_bit 8 0
      OR (signed_drop_bit (8 * 3) pid AND 0xff)) OR (signed_drop_bit (8 * 2) pid AND 0xff))
      OR (signed_drop_bit (8 * 1) pid AND 0xff)) OR (signed_drop_bit (8 * 0) pid AND 0xff))"
    by (simp only: four unpack_loop.simps r Option.bind.simps pid_byte_value)
  also have "\<dots> = Some pid"
    using join_bytes [of pid] by (simp only: push_bit_of_0 or.left_neutral mult_0_right
        signed_drop_bit_0 id_apply) simp
  finally show ?thesis by (simp only: minuted_control_unpack_def r Option.bind.simps)
qed

lemma receive_message:
  assumes "length (c # cs) < length msgbuf"
  shows "minuted_mq_receive tm (Mq_message (c # cs)) msgbuf w =
    (let buf = c # cs @ NUL # drop (length cs + 2) msgbuf in
     if c \<in> {CHR ''A'', CHR ''F'', CHR ''E'', CHR ''W'', CHR ''I'', CHR ''D''}
     then Some (0, buf, put_err (log_time tm @ log_prefix c @ cs @ [CHR 0x0A]) w)
     else Some (int (length (c # cs)), buf, w))"
proof -
  have "mem_write ((c # cs) @ drop (length (c # cs)) msgbuf) (length (c # cs)) NUL
      = Some (c # cs @ NUL # drop (length cs + 2) msgbuf)"
    using assms by (auto simp: mem_write_def list_update_append upd_conv_take_nth_drop)
  then show ?thesis
    by (simp add: minuted_mq_receive_def mem_read_def logs_def mem_slice_def)
qed

section \<open>Properties\<close>

text \<open>C24. What a child reports to the master arrives as it was sent: packing a type and a process
  id into a block and unpacking it gives them back, for every process id, and no byte behind the
  five is touched.\<close>
theorem control_roundtrip:
  assumes "5 \<le> length buf"
  shows "\<exists>buf'. minuted_control_pack buf type pid = Some (5, buf') \<and> length buf' = length buf
    \<and> drop 5 buf' = drop 5 buf \<and> minuted_control_unpack buf' = Some (5, type, pid)"
  using pack_bytes [OF assms, of type pid] assms
  by (auto intro!: unpack_bytes)

lemma control_roundtrip_witness:
  "\<exists>buf'. minuted_control_pack ''......'' CHR ''a'' 4711 = Some (5, buf')
     \<and> minuted_control_unpack buf' = Some (5, CHR ''a'', 4711)"
  using control_roundtrip [of "''......''" "CHR ''a''" 4711] by auto

text \<open>C32. Log lines and control messages do not get into each other's way.  A line of at most
  510 characters that a child logs through the queue appears on stderr, when the master receives
  it, as if the master had logged it itself, and is not taken for a control message; a control
  message is handed on, with its process id, and nothing is logged.\<close>
theorem queue_transparent:
  assumes "0 \<le> mqd" "lw_script w = []" "type \<in> set ''AFEWID''" "length text \<le> 510"
    and "512 < length msgbuf" "6 \<le> length stack" "ctl \<in> {CHR ''a'', CHR ''c''}"
  shows "(\<exists>msg. logva mqd tm type text w = Some (w\<lparr>lw_queue := lw_queue w @ [msg]\<rparr>)
      \<and> (\<exists>buf w''. minuted_mq_receive tm (Mq_message msg) msgbuf w' = Some (0, buf, w'')
           \<and> logva (-1) tm type text w' = Some w''))
    \<and> (\<exists>msg. minuted_control_message mqd stack ctl pid w = Some (w\<lparr>lw_queue := lw_queue w @ [msg]\<rparr>)
      \<and> (\<exists>buf. minuted_mq_receive tm (Mq_message msg) msgbuf w' = Some (6, buf, w')
           \<and> minuted_control_unpack buf = Some (5, ctl, pid)))"
proof (rule conjI)
  have send: "mq_send m w = w\<lparr>lw_queue := lw_queue w @ [m]\<rparr>" for m
    using assms(2) by (simp add: mq_send_def)
  have slice: "mem_slice (type # snprintf_block 511 text) 0 (length text + 1) = Some (type # text)"
    "mem_slice (type # snprintf_block 511 text) 1 (length text) = Some text"
    using assms(4) by (simp_all add: mem_slice_def snprintf_block_def)
  have "logva mqd tm type text w = Some (w\<lparr>lw_queue := lw_queue w @ [type # text]\<rparr>)"
    using assms(1) slice(1) by (simp add: logva_def Let_def send)
  moreover have "logva (-1) tm type text w' = Some (put_err (log_time tm @ log_prefix type @ text @ [CHR 0x0A]) w')"
    using slice(2) by (simp add: logva_def logs_def)
  moreover have "minuted_mq_receive tm (Mq_message (type # text)) msgbuf w'
      = Some (0, type # text @ NUL # drop (length text + 2) msgbuf,
              put_err (log_time tm @ log_prefix type @ text @ [CHR 0x0A]) w')"
  proof -
    have l: "length (type # text) < length msgbuf" using assms(4,5) by simp
    have "type \<in> {CHR ''A'', CHR ''F'', CHR ''E'', CHR ''W'', CHR ''I'', CHR ''D''}" using assms(3) by auto
    then show ?thesis using receive_message [OF l, of tm w'] by (simp only: Let_def if_True)
  qed
  ultimately show "\<exists>msg. logva mqd tm type text w = Some (w\<lparr>lw_queue := lw_queue w @ [msg]\<rparr>)
      \<and> (\<exists>buf w''. minuted_mq_receive tm (Mq_message msg) msgbuf w' = Some (0, buf, w'')
           \<and> logva (-1) tm type text w' = Some w'')"
    by blast
  obtain z rest where st: "drop 5 stack = z # rest"
    using assms(6) by (cases "drop 5 stack") auto
  let ?msg = "[ctl, pid_byte pid 0, pid_byte pid 1, pid_byte pid 2, pid_byte pid 3, z]"
  have "minuted_control_message mqd stack ctl pid w = Some (w\<lparr>lw_queue := lw_queue w @ [?msg]\<rparr>)"
    using assms(1,6) pack_bytes [of stack ctl pid] st
    by (simp add: minuted_control_message_def mem_slice_def send)
  moreover have "minuted_mq_receive tm (Mq_message ?msg) msgbuf w' = Some (6, ?msg @ NUL # drop 7 msgbuf, w')"
  proof -
    have l: "length ?msg < length msgbuf" using assms(5) by simp
    have "ctl \<notin> {CHR ''A'', CHR ''F'', CHR ''E'', CHR ''W'', CHR ''I'', CHR ''D''}" using assms(7) by auto
    then show ?thesis using receive_message [OF l, of tm w'] by (simp only: Let_def if_False) (simp add: eval_nat_numeral)
  qed
  moreover have "minuted_control_unpack (?msg @ NUL # drop 7 msgbuf) = Some (5, ctl, pid)"
    by (rule unpack_bytes) simp_all
  ultimately show "\<exists>msg. minuted_control_message mqd stack ctl pid w = Some (w\<lparr>lw_queue := lw_queue w @ [msg]\<rparr>)
      \<and> (\<exists>buf. minuted_mq_receive tm (Mq_message msg) msgbuf w' = Some (6, buf, w')
           \<and> minuted_control_unpack buf = Some (5, ctl, pid))"
    by blast
qed


lemma queue_transparent_witness:
  "\<forall>tm. \<exists>msg. minuted_control_message 3 (replicate 6 NUL) CHR ''c'' 4711 \<lparr>lw_stderr = [], lw_queue = [], lw_script = []\<rparr>
       = Some \<lparr>lw_stderr = [], lw_queue = [msg], lw_script = []\<rparr>
     \<and> (\<exists>buf w'. minuted_mq_receive tm (Mq_message msg) (replicate 513 NUL) w' = Some (6, buf, w')
          \<and> minuted_control_unpack buf = Some (5, CHR ''c'', 4711))"
  using queue_transparent [of 3 "\<lparr>lw_stderr = [], lw_queue = [], lw_script = []\<rparr>" "CHR ''A''" "[]" "replicate 513 NUL"
      "replicate 6 NUL" "CHR ''c''"] by force

text \<open>The limit of a log line: \<open>logva\<close> stays inside its block of 512 bytes exactly for texts
  of at most 511 characters.  Behind that the length \<open>vsnprintf\<close> answers is the length the text
  would have had, and the bytes behind the block are written to stderr or sent to the master.\<close>
theorem log_overrun:
  "logva mqd tm type text w = None \<longleftrightarrow> 511 < length text"
  by (simp add: logva_def logs_def snprintf_block_def mem_slice_def Let_def) linarith

end
