(* ===== verification/Minuted_Master.thy ===== *)
theory Minuted_Master
  imports Minuted_Log "HOL-Library.Multiset"
begin

text \<open>
  The master process of \<open>src/minuted/minuted.c\<close>: the table of its children, reaping and
  restarting them, the loop over the message queue, and the shutdown.  What the kernel answers
  (\<open>fork\<close>, \<open>waitpid\<close>, \<open>mq_receive\<close>, the signal flags) is a script; log lines about these
  operations are left out.
\<close>

section \<open>The table of children\<close>

record minuted_forks =
  npids  :: nat
  active :: nat
  pids   :: "int list"

text \<open>A call of \<open>fork\<close> in the master takes its result from a script; it fails at the end of it.\<close>

definition minuted_fork :: "int list \<Rightarrow> minuted_forks \<Rightarrow> (int \<times> int list \<times> minuted_forks) option" where
  "minuted_fork rs f =
     (if npids f \<le> active f then Some (-1, rs, f)
      else (case rs of
          [] \<Rightarrow> Some (-1, [], f)
        | pid # rs' \<Rightarrow>
            if 0 < pid then
              if active f < length (pids f)
              then Some (0, rs', f\<lparr>pids := (pids f)[active f := pid], active := active f + 1\<rparr>)
              else None
            else Some (-1, rs', f)))"

text \<open>How a child ended.\<close>

datatype wait_status = Signaled int | Exited int

text \<open>The \<open>for\<close> loop that looks for a child, and its removal: the last one takes its place.\<close>

fun find_pid :: "int \<Rightarrow> int list \<Rightarrow> nat option" where
  "find_pid w [] = None"
| "find_pid w (p # ps) = (if w = p then Some 0 else map_option Suc (find_pid w ps))"

definition remove_pid :: "nat \<Rightarrow> minuted_forks \<Rightarrow> minuted_forks" where
  "remove_pid i f =
     (let a = active f - 1 in f\<lparr>pids := (pids f)[i := pids f ! a, a := 0], active := a\<rparr>)"

definition WEXITSTATUS :: "wait_status \<Rightarrow> int" where
  "WEXITSTATUS status = (case status of Signaled sig \<Rightarrow> 0 | Exited code \<Rightarrow> code)"

definition restarts :: "bool \<Rightarrow> wait_status \<Rightarrow> bool" where
  "restarts allowRestart status = (case status of
       Signaled sig \<Rightarrow> allowRestart
     | Exited code \<Rightarrow> if WEXITSTATUS status \<noteq> 0 then allowRestart else False)"

text \<open>\<open>minuted_wait\<close>: the script of \<open>waitpid\<close> ends where it answers 0.  A child that is not in the
  table is reported with \<open>%s\<close> for its exit status, which is a null pointer only for status 0.\<close>

fun minuted_wait :: "bool \<Rightarrow> (int \<times> wait_status) list \<Rightarrow> int list \<Rightarrow> minuted_forks
    \<Rightarrow> ((int \<times> wait_status) list \<times> int list \<times> minuted_forks) option" where
  "minuted_wait allowRestart [] rs f = Some ([], rs, f)"
| "minuted_wait allowRestart ((w, status) # ws) rs f =
     (if active f = 0 then Some ((w, status) # ws, rs, f)
      else if w \<le> 0 then Some (ws, rs, f)
      else (case find_pid w (take (active f) (pids f)) of
          Some i \<Rightarrow>
            if restarts allowRestart status
            then do { (r, rs', f') \<leftarrow> minuted_fork rs (remove_pid i f); minuted_wait allowRestart ws rs' f' }
            else minuted_wait allowRestart ws rs (remove_pid i f)
        | None \<Rightarrow>
            if WEXITSTATUS status = 0 then minuted_wait allowRestart ws rs f
            else None))"

section \<open>The master\<close>

record master =
  m_forks   :: minuted_forks
  m_serving :: int
  m_killed  :: "(pid \<times> int) list"
  m_msgbuf  :: bytes
  m_log     :: log_world

definition SIGHUP :: int where "SIGHUP = 1"
definition SIGTERM :: int where "SIGTERM = 15"

definition max_forks :: nat where "max_forks = 32"
definition min_spares :: int where "min_spares = 3"
definition max_spares :: int where "max_spares = 6"
definition init_forks :: nat where "init_forks = 6"

definition kill_child :: "pid \<Rightarrow> int \<Rightarrow> master \<Rightarrow> master" where
  "kill_child pid sig m = m\<lparr>m_killed := m_killed m @ [(pid, sig)]\<rparr>"

text \<open>A control message.\<close>

definition master_message :: "char \<Rightarrow> pid \<Rightarrow> int list \<Rightarrow> master \<Rightarrow> (int list \<times> master) option" where
  "master_message type pid rs m =
     (if type = CHR ''a'' then
        let m = m\<lparr>m_serving := m_serving m + 1\<rparr> in
        if int (active (m_forks m)) - m_serving m < min_spares
        then do { (r, rs', f) \<leftarrow> minuted_fork rs (m_forks m); Some (rs', m\<lparr>m_forks := f\<rparr>) }
        else Some (rs, m)
      else if type = CHR ''c'' then
        let m = m\<lparr>m_serving := m_serving m - 1\<rparr> in
        if max_spares < int (active (m_forks m)) - m_serving m
        then Some (rs, kill_child pid SIGHUP m)
        else Some (rs, m)
      else Some (rs, m))"

text \<open>One round of the loop: the flags at its head, what \<open>waitpid\<close> and \<open>fork\<close> answer in it, what
  is received, and the time of a log line.\<close>

record round =
  rd_sighup  :: bool
  rd_sigterm :: bool
  rd_waits   :: "(int \<times> wait_status) list"
  rd_forks   :: "int list"
  rd_event   :: mq_event
  rd_time    :: tm

datatype loop_move = Go_on master | Break_loop int master

definition master_round :: "round \<Rightarrow> master \<Rightarrow> loop_move option" where
  "master_round rd m = do {
     (ws, rs, f) \<leftarrow> minuted_wait True (rd_waits rd) (rd_forks rd) (m_forks m);
     (r, buf, w) \<leftarrow> minuted_mq_receive (rd_time rd) (rd_event rd) (m_msgbuf m) (m_log m);
     let m = m\<lparr>m_forks := f, m_msgbuf := buf, m_log := w\<rparr> in
     if r < 0 then Some (Break_loop (if r < -1 then r else -2) m)
     else if 0 < r then do {
       (l, type, pid) \<leftarrow> minuted_control_unpack buf;
       (rs', m') \<leftarrow> master_message type pid rs m;
       Some (Go_on m')
     }
     else Some (Go_on m)
   }"

text \<open>The loop, over a script of rounds: it ends with a result and the flag for SIGHUP (after a
  \<open>break\<close> the value the next round would have seen), or is still running at the end of the script.\<close>

datatype loop_result = Running master | Left_loop int bool master

fun master_loop :: "round list \<Rightarrow> master \<Rightarrow> loop_result option" where
  "master_loop [] m = Some (Running m)"
| "master_loop (rd # rds) m =
     (if rd_sighup rd \<or> rd_sigterm rd then Some (Left_loop 0 (rd_sighup rd) m)
      else (case master_round rd m of
          None \<Rightarrow> None
        | Some (Go_on m') \<Rightarrow> master_loop rds m'
        | Some (Break_loop res m') \<Rightarrow> Some (Left_loop res (rds \<noteq> [] \<and> rd_sighup (hd rds)) m')))"

text \<open>The shutdown: SIGHUP to every child, then messages until all children are gone or the time is
  over (the end of the script), then SIGTERM to those that are left.\<close>

primrec kill_all :: "int list \<Rightarrow> int \<Rightarrow> master \<Rightarrow> master" where
  "kill_all [] sig m = m"
| "kill_all (p # ps) sig m = kill_all ps sig (kill_child (word_of_int p) sig m)"

fun drain :: "tm \<Rightarrow> (mq_event \<times> (int \<times> wait_status) list) list \<Rightarrow> master \<Rightarrow> master option" where
  "drain tm [] m = Some m"
| "drain tm ((ev, ws) # es) m = do {
     (r, buf, w) \<leftarrow> minuted_mq_receive tm ev (m_msgbuf m) (m_log m);
     let m = m\<lparr>m_msgbuf := buf, m_log := w\<rparr> in
     if r \<le> -1 then Some m
     else do {
       (ws', rs', f) \<leftarrow> (if r = 0 then minuted_wait False ws [] (m_forks m) else Some (ws, [], m_forks m));
       if active f = 0 then Some (m\<lparr>m_forks := f\<rparr>) else drain tm es (m\<lparr>m_forks := f\<rparr>)
     }
   }"

definition master_shutdown ::
    "tm \<Rightarrow> (mq_event \<times> (int \<times> wait_status) list) list \<Rightarrow> master \<Rightarrow> master option" where
  "master_shutdown tm es m =
     (let live = \<lambda>m. take (active (m_forks m)) (pids (m_forks m)) in do {
        m' \<leftarrow> drain tm es (kill_all (live m) SIGHUP m);
        Some (kill_all (live m') SIGTERM m')
      })"

primrec fork_times :: "nat \<Rightarrow> int list \<Rightarrow> minuted_forks \<Rightarrow> (int list \<times> minuted_forks) option" where
  "fork_times 0 rs f = Some (rs, f)"
| "fork_times (Suc n) rs f = do { (r, rs', f') \<leftarrow> minuted_fork rs f; fork_times n rs' f' }"

text \<open>The message block after \<open>calloc\<close>.\<close>

definition first_master :: "nat \<Rightarrow> minuted_forks \<Rightarrow> log_world \<Rightarrow> master" where
  "first_master msgsize f w =
     \<lparr>m_forks = f, m_serving = 0, m_killed = [], m_msgbuf = replicate (msgsize + 1) NUL, m_log = w\<rparr>"

text \<open>\<open>minuted_serve_prefork\<close>, from the creation of the semaphore and the queue on: whether they
  succeed is an argument.  It answers its result, or \<open>None\<close> inside while it is still running.\<close>

definition minuted_serve_prefork ::
    "bool \<Rightarrow> bool \<Rightarrow> nat option \<Rightarrow> int list \<Rightarrow> round list \<Rightarrow> tm
     \<Rightarrow> (mq_event \<times> (int \<times> wait_status) list) list \<Rightarrow> log_world \<Rightarrow> (int \<times> master option) option option" where
  "minuted_serve_prefork sem_opens mq_opens msgsize rs rds tm es w =
     (if \<not> sem_opens \<or> \<not> mq_opens \<or> msgsize = None then Some (Some (-1, None))
      else do {
        (rs', f) \<leftarrow> fork_times init_forks rs \<lparr>npids = max_forks, active = 0, pids = replicate max_forks 0\<rparr>;
        z \<leftarrow> master_loop rds (first_master (the msgsize) f w);
        (case z of
           Running m \<Rightarrow> Some None
         | Left_loop res hup m \<Rightarrow> do {
             m' \<leftarrow> master_shutdown tm es m;
             Some (Some (if hup then SIGHUP else res, Some m'))
           })
      })"

section \<open>The table as a multiset\<close>

definition forks_ok :: "minuted_forks \<Rightarrow> bool" where
  "forks_ok f \<longleftrightarrow> active f \<le> npids f \<and> length (pids f) = npids f
     \<and> (\<forall>p \<in> set (take (active f) (pids f)). 0 < p) \<and> (\<forall>p \<in> set (drop (active f) (pids f)). p = 0)"

definition tracked :: "minuted_forks \<Rightarrow> int multiset" where
  "tracked f = mset (take (active f) (pids f))"

lemma size_tracked: "forks_ok f \<Longrightarrow> size (tracked f) = active f"
  by (simp add: forks_ok_def tracked_def)

text \<open>The same operations on the multiset of the children.\<close>

definition start_child :: "nat \<Rightarrow> int list \<Rightarrow> int multiset \<Rightarrow> int list \<times> int multiset" where
  "start_child n rs M =
     (if n \<le> size M then (rs, M)
      else (case rs of [] \<Rightarrow> ([], M) | p # rs' \<Rightarrow> (rs', if 0 < p then add_mset p M else M)))"

fun reap :: "bool \<Rightarrow> nat \<Rightarrow> (int \<times> wait_status) list \<Rightarrow> int list \<Rightarrow> int multiset
    \<Rightarrow> ((int \<times> wait_status) list \<times> int list \<times> int multiset) option" where
  "reap allow n [] rs M = Some ([], rs, M)"
| "reap allow n ((w, status) # ws) rs M =
     (if M = {#} then Some ((w, status) # ws, rs, M)
      else if w \<le> 0 then Some (ws, rs, M)
      else if w \<in># M then
        (if restarts allow status
         then (case start_child n rs (M - {#w#}) of (rs', M') \<Rightarrow> reap allow n ws rs' M')
         else reap allow n ws rs (M - {#w#}))
      else if WEXITSTATUS status = 0 then reap allow n ws rs M
      else None)"

lemma minuted_fork_refines:
  assumes "forks_ok f"
  shows "\<exists>r f'. minuted_fork rs f = Some (r, fst (start_child (npids f) rs (tracked f)), f') \<and> forks_ok f'
    \<and> npids f' = npids f \<and> tracked f' = snd (start_child (npids f) rs (tracked f))"
proof -
  have l: "length (pids f) = npids f" using assms by (simp add: forks_ok_def)
  show ?thesis
  proof (cases "npids f \<le> active f \<or> rs = [] \<or> hd rs \<le> 0")
    case True
    then show ?thesis
      using assms by (cases rs) (auto simp: minuted_fork_def start_child_def size_tracked)
  next
    case False
    then obtain p rs' where rs: "rs = p # rs'" "0 < p" "active f < npids f" by (cases rs) auto
    let ?f = "f\<lparr>pids := (pids f)[active f := p], active := active f + 1\<rparr>"
    have a: "active f < length (pids f)" using rs(3) l by simp
    have t: "take (Suc (active f)) ((pids f)[active f := p]) = take (active f) (pids f) @ [p]"
      using a by (simp add: take_Suc_conv_app_nth)
    have "drop (Suc (active f)) ((pids f)[active f := p]) = drop (Suc (active f)) (pids f)" by simp
    moreover have "set (drop (Suc (active f)) (pids f)) \<subseteq> set (drop (active f) (pids f))"
      by (rule set_drop_subset_set_drop) simp
    ultimately have "forks_ok ?f" using assms rs t by (auto simp: forks_ok_def)
    moreover have "tracked ?f = add_mset p (tracked f)" using t by (simp add: tracked_def)
    ultimately show ?thesis
      using rs a assms by (auto simp: minuted_fork_def start_child_def size_tracked)
  qed
qed

lemma find_pid_Some: "find_pid w ps = Some i \<Longrightarrow> i < length ps \<and> ps ! i = w"
  by (induction ps arbitrary: i) (auto split: if_splits)

lemma find_pid_None: "find_pid w ps = None \<longleftrightarrow> w \<notin> set ps"
  by (induction ps) auto

lemma remove_pid_refines:
  assumes "forks_ok f" "find_pid w (take (active f) (pids f)) = Some i"
  shows "forks_ok (remove_pid i f)" "npids (remove_pid i f) = npids f" "tracked (remove_pid i f) = tracked f - {#w#}"
proof -
  have l: "length (pids f) = npids f" "active f \<le> npids f" using assms(1) by (auto simp: forks_ok_def)
  have i: "i < active f" "pids f ! i = w" using find_pid_Some [OF assms(2)] l by auto
  let ?a = "active f - 1" and ?ps = "take (active f) (pids f)"
  have a: "?a < length (pids f)" "active f = Suc ?a" using i(1) l by simp_all
  have ps: "?ps = take ?a (pids f) @ [pids f ! ?a]" using a take_Suc_conv_app_nth by metis
  have t: "take ?a ((pids f)[i := pids f ! ?a, ?a := 0]) = (take ?a (pids f))[i := pids f ! ?a]"
    by (simp add: take_update_swap list_update_beyond)
  have m: "mset ((take ?a (pids f))[i := pids f ! ?a]) = mset ?ps - {#w#}"
  proof (cases "i = ?a")
    case True
    then show ?thesis using ps i(2) by (simp add: list_update_beyond)
  next
    case False
    then have "i < length (take ?a (pids f))" "take ?a (pids f) ! i = w" using i a by simp_all
    moreover from this obtain N where "mset (take ?a (pids f)) = add_mset w N"
      by (metis multi_member_split nth_mem set_mset_mset)
    ultimately show ?thesis using ps by (simp add: mset_update add_mset_commute [of w])
  qed
  show "npids (remove_pid i f) = npids f" by (simp add: remove_pid_def Let_def)
  show tr: "tracked (remove_pid i f) = tracked f - {#w#}"
    using t m by (simp add: tracked_def remove_pid_def Let_def)
  have "drop ?a ((pids f)[i := pids f ! ?a, ?a := 0]) = 0 # drop (active f) (pids f)"
    using a i(1) by (cases "i = ?a") (simp_all add: drop_update_swap Cons_nth_drop_Suc [symmetric])
  moreover have "p \<in> set ?ps" if "p \<in> set (take ?a ((pids f)[i := pids f ! ?a, ?a := 0]))" for p
  proof -
    have "p \<in># mset ?ps - {#w#}" using that m t by (metis set_mset_mset)
    then show ?thesis by (metis in_diffD set_mset_mset)
  qed
  ultimately show "forks_ok (remove_pid i f)"
    using assms(1) l by (auto simp: forks_ok_def remove_pid_def Let_def)
qed

section \<open>Properties\<close>

lemma wait_refines_aux:
  assumes "forks_ok f"
  shows "map_option (\<lambda>(ws, rs, f'). (ws, rs, tracked f')) (minuted_wait allow ws rs f)
      = reap allow (npids f) ws rs (tracked f)
    \<and> (case minuted_wait allow ws rs f of None \<Rightarrow> True | Some (ws', rs', f') \<Rightarrow> forks_ok f' \<and> npids f' = npids f)"
  using assms
proof (induction allow ws rs f rule: minuted_wait.induct)
  case (2 allow w status ws rs f)
  have empty: "tracked f = {#} \<longleftrightarrow> active f = 0"
    using size_tracked [OF "2.prems"] by (metis size_eq_0_iff_empty)
  have mem: "w \<in># tracked f \<longleftrightarrow> find_pid w (take (active f) (pids f)) \<noteq> None"
    by (simp add: tracked_def find_pid_None del: not_None_eq)
  show ?case
  proof (cases "active f = 0 \<or> w \<le> 0")
    case True
    then show ?thesis using empty "2.prems" by auto
  next
    case False
    show ?thesis
    proof (cases "find_pid w (take (active f) (pids f))")
      case None
      then show ?thesis using False empty mem "2.IH"(1) [OF _ _ None] "2.prems" by auto
    next
      case (Some i)
      note rem = remove_pid_refines [OF "2.prems" Some]
      show ?thesis
      proof (cases "restarts allow status")
        case True
        obtain r rs' f' where f': "minuted_fork rs (remove_pid i f) = Some (r, rs', f')" "forks_ok f'"
            "npids f' = npids f" "start_child (npids f) rs (tracked f - {#w#}) = (rs', tracked f')"
          using minuted_fork_refines [OF rem(1), of rs] rem(2,3) by (metis prod.collapse)
        have "map_option (\<lambda>(ws, rs, f'). (ws, rs, tracked f')) (minuted_wait allow ws rs' f')
            = reap allow (npids f') ws rs' (tracked f')
          \<and> (case minuted_wait allow ws rs' f' of None \<Rightarrow> True
              | Some (ws', rs'', f'') \<Rightarrow> forks_ok f'' \<and> npids f'' = npids f')"
          using "2.IH"(2) [OF _ _ Some True, of "(r, rs', f')" r "(rs', f')" rs' f'] False f' by auto
        then show ?thesis using False Some True empty mem f' by (auto split: option.splits)
      next
        case no: False
        have "map_option (\<lambda>(ws, rs, f'). (ws, rs, tracked f')) (minuted_wait allow ws rs (remove_pid i f))
            = reap allow (npids f) ws rs (tracked f - {#w#})
          \<and> (case minuted_wait allow ws rs (remove_pid i f) of None \<Rightarrow> True
              | Some (ws', rs'', f'') \<Rightarrow> forks_ok f'' \<and> npids f'' = npids f)"
          using "2.IH"(3) [OF _ _ Some no rem(1), unfolded rem(2,3)] False by simp
        then show ?thesis using False Some no empty mem by (auto split: option.splits)
      qed
    qed
  qed
qed (auto split: option.splits)

text \<open>C22. The table of children is a bag of process ids.  \<open>minuted_wait\<close> implements the reaping of
  children from a bag: every reported child that is in the table is taken out, one that ended
  abnormally is replaced when that is allowed, there is room and \<open>fork\<close> works, and the others
  stay; the table stays well-formed (the live ids in front, zeros behind, never more than its
  size), although a removal moves the last entry into the gap.\<close>
theorem wait_refines:
  assumes "forks_ok f"
  shows "map_option (\<lambda>(ws, rs, f'). (ws, rs, tracked f')) (minuted_wait allow ws rs f)
      = reap allow (npids f) ws rs (tracked f)
    \<and> (case minuted_wait allow ws rs f of None \<Rightarrow> True | Some (ws', rs', f') \<Rightarrow> forks_ok f' \<and> npids f' = npids f)"
  using assms by (rule wait_refines_aux)

lemma wait_refines_witness:
  "map_option (\<lambda>(ws, rs, f'). (ws, rs, tracked f'))
     (minuted_wait True [(7, Signaled 9), (8, Exited 0)] [11] \<lparr>npids = 4, active = 3, pids = [7, 8, 9, 0]\<rparr>)
   = Some ([], [], {#9, 11#})"
proof -
  let ?f = "\<lparr>npids = 4, active = 3, pids = [7, 8, 9, 0 :: int]\<rparr>"
  have f: "forks_ok ?f" "tracked ?f = {#7, 8, 9#}" "npids ?f = 4"
    by (simp_all add: forks_ok_def tracked_def)
  have "reap True 4 [(7, Signaled 9), (8, Exited 0)] [11] {#7, 8, 9#} = Some ([], [], {#9, 11#})"
    by (simp add: restarts_def WEXITSTATUS_def start_child_def add_mset_commute [of 9])
  then show ?thesis
    using wait_refines [OF f(1), of True "[(7, Signaled 9), (8, Exited 0)]" "[11]"] unfolding f(2,3) by simp
qed

section \<open>The loop of the master\<close>

definition master_ok :: "nat \<Rightarrow> master \<Rightarrow> bool" where
  "master_ok msgsize m \<longleftrightarrow> forks_ok (m_forks m) \<and> npids (m_forks m) = max_forks
     \<and> length (m_msgbuf m) = msgsize + 1 \<and> 5 \<le> msgsize"

definition event_ok :: "nat \<Rightarrow> mq_event \<Rightarrow> bool" where
  "event_ok msgsize ev \<longleftrightarrow> (case ev of Mq_message msg \<Rightarrow> length msg \<le> msgsize | _ \<Rightarrow> True)"

definition log_types :: "char set" where
  "log_types = {CHR ''A'', CHR ''F'', CHR ''E'', CHR ''W'', CHR ''I'', CHR ''D''}"

lemma unpack_defined:
  assumes "5 \<le> length buf"
  shows "\<exists>pid. minuted_control_unpack buf = Some (5, buf ! 0, pid)"
  using assms by (auto simp: minuted_control_unpack_def mem_read_def eval_nat_numeral Suc_le_length_iff)

lemma receive_cases:
  assumes "length msgbuf = msgsize + 1" "event_ok msgsize ev"
  shows "\<exists>r buf w'. minuted_mq_receive tm ev msgbuf w = Some (r, buf, w') \<and> length buf = msgsize + 1
    \<and> (0 < r \<longrightarrow> (\<exists>c cs. ev = Mq_message (c # cs) \<and> buf ! 0 = c \<and> c \<notin> log_types))
    \<and> (r \<le> 0 \<longrightarrow> (\<forall>c cs. ev = Mq_message (c # cs) \<longrightarrow> c \<in> log_types))"
proof (cases "\<exists>c cs. ev = Mq_message (c # cs)")
  case True
  then obtain c cs where ev: "ev = Mq_message (c # cs)" by blast
  then have l: "length (c # cs) < length msgbuf" using assms by (simp add: event_ok_def)
  show ?thesis
    using receive_message [OF l, of tm w] assms(1) l
    unfolding ev Let_def log_types_def by (auto simp del: insert_iff split: if_splits)
next
  case False
  then show ?thesis
    using assms by (cases ev) (auto simp: minuted_mq_receive_def neq_Nil_conv Let_def)
qed

definition carries_type :: "char \<Rightarrow> round \<Rightarrow> bool" where
  "carries_type c rd = (case rd_event rd of Mq_message (x # xs) \<Rightarrow> x = c | _ \<Rightarrow> False)"

lemma wait_ok:
  assumes "forks_ok f" "minuted_wait allow ws rs f = Some (ws', rs', f')"
  shows "forks_ok f'" "npids f' = npids f"
  using wait_refines_aux [OF assms(1), of allow ws rs] assms(2) by auto

lemma master_message_ok:
  assumes "master_ok n m"
  shows "\<exists>rs' m'. master_message type pid rs m = Some (rs', m') \<and> master_ok n m'
    \<and> m_serving m' = m_serving m + (if type = CHR ''a'' then 1 else 0) - (if type = CHR ''c'' then 1 else 0)"
proof -
  obtain r f' where f': "minuted_fork rs (m_forks m) = Some (r, fst (start_child (npids (m_forks m)) rs (tracked (m_forks m))), f')"
      "forks_ok f'" "npids f' = npids (m_forks m)"
    using minuted_fork_refines [of "m_forks m" rs] assms by (auto simp: master_ok_def)
  show ?thesis
    using f' assms by (auto simp: master_message_def master_ok_def kill_child_def Let_def)
qed

text \<open>C30. The master keeps its books while it runs.  Over any sequence of rounds, however children
  die and whatever messages come, the table stays well-formed with at most 32 children, the
  message block is never left, and \<open>serving\<close> moves by the number of messages for accepted
  connections less that for closed ones.\<close>
theorem master_loop_counts:
  assumes "master_ok n m" "\<forall>rd \<in> set rds. event_ok n (rd_event rd)" "master_loop rds m = Some (Running m')"
  shows "master_ok n m' \<and> active (m_forks m') \<le> max_forks \<and> m_serving m' = m_serving m
    + int (length (filter (carries_type CHR ''a'') rds)) - int (length (filter (carries_type CHR ''c'') rds))"
  using assms
proof (induction rds arbitrary: m)
  case Nil
  then show ?case by (auto simp: master_ok_def forks_ok_def)
next
  case (Cons rd rds)
  obtain m1 where m1: "master_round rd m = Some (Go_on m1)" "master_loop rds m1 = Some (Running m')"
    using Cons.prems(3) by (auto split: if_splits option.splits loop_move.splits)
  obtain ws rs f where w: "minuted_wait True (rd_waits rd) (rd_forks rd) (m_forks m) = Some (ws, rs, f)"
    using m1(1) by (auto simp: master_round_def bind_eq_Some_conv)
  have f: "forks_ok f" "npids f = max_forks" using wait_ok [OF _ w] Cons.prems(1) by (auto simp: master_ok_def)
  obtain r buf l where r: "minuted_mq_receive (rd_time rd) (rd_event rd) (m_msgbuf m) (m_log m) = Some (r, buf, l)"
      "length buf = n + 1" "0 < r \<longrightarrow> (\<exists>c cs. rd_event rd = Mq_message (c # cs) \<and> buf ! 0 = c \<and> c \<notin> log_types)"
      "r \<le> 0 \<longrightarrow> (\<forall>c cs. rd_event rd = Mq_message (c # cs) \<longrightarrow> c \<in> log_types)"
    using receive_cases [of "m_msgbuf m" n "rd_event rd" "rd_time rd" "m_log m"] Cons.prems(1,2)
    by (auto simp: master_ok_def)
  let ?m = "m\<lparr>m_forks := f, m_msgbuf := buf, m_log := l\<rparr>"
  have ok: "master_ok n ?m" using f r(2) Cons.prems(1) by (simp add: master_ok_def)
  have step: "master_ok n m1 \<and> m_serving m1 = m_serving m
    + (if carries_type CHR ''a'' rd then 1 else 0) - (if carries_type CHR ''c'' rd then 1 else 0)"
  proof (cases "0 < r")
    case True
    then obtain c cs where c: "rd_event rd = Mq_message (c # cs)" "buf ! 0 = c" using r(3) by blast
    obtain pid where pid: "minuted_control_unpack buf = Some (5, c, pid)"
      using unpack_defined [of buf] r(2) Cons.prems(1) c(2) by (auto simp: master_ok_def)
    obtain rs' m2 where "master_message c pid rs ?m = Some (rs', m2)" "master_ok n m2"
      "m_serving m2 = m_serving ?m + (if c = CHR ''a'' then 1 else 0) - (if c = CHR ''c'' then 1 else 0)"
      using master_message_ok [OF ok] by blast
    then show ?thesis
      using m1(1) w r(1) pid True c(1) by (auto simp: master_round_def carries_type_def Let_def)
  next
    case False
    then have "m1 = ?m" using m1(1) w r(1) by (auto simp: master_round_def Let_def split: if_splits)
    then show ?thesis
      using ok r(4) False by (auto simp: carries_type_def log_types_def split: mq_event.splits list.splits)
  qed
  then show ?case using Cons.IH [OF _ _ m1(2)] Cons.prems(2) by auto
qed

definition demo_rounds :: "round list" where
  "demo_rounds =
     [\<lparr>rd_sighup = False, rd_sigterm = False, rd_waits = [(7, Signaled 11)], rd_forks = [12, 13], rd_event = Mq_eintr,
       rd_time = \<lparr>tm_sec = 0, tm_min = 0, tm_hour = 0, tm_mday = 1, tm_mon = 0, tm_year = 70, tm_wday = 4\<rparr>\<rparr>,
      \<lparr>rd_sighup = False, rd_sigterm = False, rd_waits = [], rd_forks = [14], rd_event = Mq_message ''a.....'',
       rd_time = \<lparr>tm_sec = 0, tm_min = 0, tm_hour = 0, tm_mday = 1, tm_mon = 0, tm_year = 70, tm_wday = 4\<rparr>\<rparr>]"

definition demo_master :: master where
  "demo_master = first_master 16
     \<lparr>npids = max_forks, active = 3, pids = [7, 8, 9] @ replicate 29 0\<rparr> \<lparr>lw_stderr = [], lw_queue = [], lw_script = []\<rparr>"

lemma demo_master_ok: "master_ok 16 demo_master" "m_serving demo_master = 0"
  by (simp_all add: master_ok_def demo_master_def first_master_def forks_ok_def max_forks_def)

lemma master_loop_counts_witness:
  "\<exists>m'. master_loop demo_rounds demo_master = Some (Running m') \<and> m_serving m' = 1 \<and> active (m_forks m') \<le> max_forks"
proof -
  have ok: "\<forall>rd \<in> set demo_rounds. event_ok 16 (rd_event rd)" by (simp add: demo_rounds_def event_ok_def)
  have n: "length (filter (carries_type CHR ''a'') demo_rounds) = 1" "length (filter (carries_type CHR ''c'') demo_rounds) = 0"
    by (simp_all add: demo_rounds_def carries_type_def)
  have "(case master_loop demo_rounds demo_master of Some (Running m') \<Rightarrow> True | _ \<Rightarrow> False)"
    by code_simp
  then obtain m' where m': "master_loop demo_rounds demo_master = Some (Running m')"
    by (auto split: option.splits loop_result.splits)
  show ?thesis using master_loop_counts [OF demo_master_ok(1) ok m'] m' n demo_master_ok(2) by auto
qed



section \<open>The shutdown\<close>

abbreviation live :: "master \<Rightarrow> int list" where
  "live m \<equiv> take (active (m_forks m)) (pids (m_forks m))"

lemma kill_all_eq:
  "kill_all ps sig m = m\<lparr>m_killed := m_killed m @ map (\<lambda>p. (word_of_int p, sig)) ps\<rparr>"
  by (induction ps arbitrary: m) (simp_all add: kill_child_def)

text \<open>Reports of children, each at most once.\<close>

lemma reap_reported:
  assumes "mset (map fst ws) \<subseteq># M" "\<forall>w \<in> fst ` set ws. 0 < w"
  shows "reap False n ws rs M = Some ([], rs, M - mset (map fst ws))"
  using assms
proof (induction ws arbitrary: M)
  case (Cons e ws)
  obtain w st where e: "e = (w, st)" by (cases e)
  have w: "w \<in># M" "mset (map fst ws) \<subseteq># M - {#w#}" "0 < w"
    using Cons.prems e by (auto simp: insert_subset_eq_iff)
  moreover have "restarts False st = False" by (simp add: restarts_def split: wait_status.split)
  ultimately show ?case using Cons.IH [of "M - {#w#}"] Cons.prems(2) e by auto
qed simp

lemma drain_ok:
  assumes "master_ok n m" "\<forall>e \<in> set es. event_ok n (fst e)"
    and "mset (concat (map (map fst \<circ> snd) es)) \<subseteq># tracked (m_forks m)"
    and "\<forall>e \<in> set es. \<forall>w \<in> fst ` set (snd e). 0 < w"
  shows "\<exists>m'. drain tm es m = Some m' \<and> m_killed m' = m_killed m \<and> tracked (m_forks m') \<subseteq># tracked (m_forks m)"
  using assms
proof (induction es arbitrary: m)
  case (Cons e es)
  obtain ev ws where e: "e = (ev, ws)" by (cases e)
  obtain r buf l where r: "minuted_mq_receive tm ev (m_msgbuf m) (m_log m) = Some (r, buf, l)" "length buf = n + 1"
    using receive_cases [of "m_msgbuf m" n ev tm "m_log m"] Cons.prems(1,2) e by (auto simp: master_ok_def)
  let ?m = "m\<lparr>m_msgbuf := buf, m_log := l\<rparr>" and ?M = "tracked (m_forks m)"
  have f: "forks_ok (m_forks m)" using Cons.prems(1) by (simp add: master_ok_def)
  obtain C where C: "?M = mset (map fst ws) + mset (concat (map (map fst \<circ> snd) es)) + C"
    using Cons.prems(3) e by (auto simp: mset_subset_eq_exists_conv comp_def)
  have sub: "mset (map fst ws) \<subseteq># ?M" "mset (concat (map (map fst \<circ> snd) es)) \<subseteq># ?M - mset (map fst ws)"
    unfolding C by (simp_all add: add.assoc)
  obtain g where g: "(if r = 0 then minuted_wait False ws [] (m_forks m) else Some (ws, [], m_forks m))
        = Some (if r = 0 then [] else ws, [], g)" "forks_ok g" "npids g = npids (m_forks m)"
      "tracked g = (if r = 0 then ?M - mset (map fst ws) else ?M)"
  proof (cases "r = 0")
    case True
    have "reap False (npids (m_forks m)) ws [] ?M = Some ([], [], ?M - mset (map fst ws))"
      by (rule reap_reported [OF sub(1)]) (use Cons.prems(4) e in auto)
    then obtain g where "minuted_wait False ws [] (m_forks m) = Some ([], [], g)" "tracked g = ?M - mset (map fst ws)"
      using wait_refines_aux [OF f, of False ws "[]"] by auto
    then show ?thesis using that [of g] wait_ok [OF f] True by auto
  next
    case False
    then show ?thesis using that [of "m_forks m"] f by simp
  qed
  have gm: "tracked g \<subseteq># ?M" "mset (concat (map (map fst \<circ> snd) es)) \<subseteq># tracked g"
    using g(4) sub(2) by (auto intro: subset_mset.order_trans [OF _ diff_subset_eq_self])
  have ok: "master_ok n (?m\<lparr>m_forks := g\<rparr>)" using Cons.prems(1) r(2) g(2,3) by (simp add: master_ok_def)
  have p: "\<forall>e \<in> set es. event_ok n (fst e)"
    "mset (concat (map (map fst \<circ> snd) es)) \<subseteq># tracked (m_forks (?m\<lparr>m_forks := g\<rparr>))"
    "\<forall>e \<in> set es. \<forall>w \<in> fst ` set (snd e). 0 < w"
    using Cons.prems(2,4) gm(2) by simp_all
  obtain m' where IH: "drain tm es (?m\<lparr>m_forks := g\<rparr>) = Some m'" "m_killed m' = m_killed m"
      "tracked (m_forks m') \<subseteq># tracked g"
    using Cons.IH [OF ok p] by auto
  have step: "drain tm (e # es) m = (if r \<le> -1 then Some ?m
      else if active g = 0 then Some (?m\<lparr>m_forks := g\<rparr>) else drain tm es (?m\<lparr>m_forks := g\<rparr>))"
    using r(1) g(1) e by (cases "r = 0") (simp_all add: Let_def)
  show ?case
    unfolding step using IH gm(1) by (auto intro: subset_mset.order_trans)
qed simp

text \<open>C29. The shutdown leaves no child behind unasked: every child is sent SIGHUP, those that are
  reported meanwhile leave the table, and every one that is still in it when the five seconds are
  over is sent SIGTERM.  (The kernel reports a child at most once.)\<close>
theorem shutdown_reaches_all:
  assumes "master_ok n m" "\<forall>e \<in> set es. event_ok n (fst e)"
    and "mset (concat (map (map fst \<circ> snd) es)) \<subseteq># tracked (m_forks m)"
    and "\<forall>e \<in> set es. \<forall>w \<in> fst ` set (snd e). 0 < w"
  shows "\<exists>m'. master_shutdown tm es m = Some m' \<and> tracked (m_forks m') \<subseteq># tracked (m_forks m)
    \<and> m_killed m' = m_killed m @ map (\<lambda>p. (word_of_int p, SIGHUP)) (live m)
        @ map (\<lambda>p. (word_of_int p, SIGTERM)) (live m')"
proof -
  let ?m = "kill_all (live m) SIGHUP m"
  have m: "m_forks ?m = m_forks m" "master_ok n ?m" using assms(1) by (simp_all add: kill_all_eq master_ok_def)
  obtain m' where "drain tm es ?m = Some m'" "m_killed m' = m_killed ?m" "tracked (m_forks m') \<subseteq># tracked (m_forks m)"
    using drain_ok [OF m(2) assms(2), of tm] assms(3,4) m(1) by auto
  then show ?thesis by (auto simp: master_shutdown_def kill_all_eq Let_def)
qed

lemma shutdown_reaches_all_witness:
  "\<exists>m'. master_shutdown (rd_time (hd demo_rounds)) [(Mq_eintr, [(8, Exited 0)]), (Mq_etimedout, [])] demo_master = Some m'
     \<and> take 3 (m_killed m') = [(7, SIGHUP), (8, SIGHUP), (9, SIGHUP)]"
proof -
  have live: "live demo_master = [7, 8, 9]" "m_killed demo_master = []"
    by (simp_all add: demo_master_def first_master_def)
  then have t: "tracked (m_forks demo_master) = {#7, 8, 9#}" by (simp add: tracked_def)
  show ?thesis
    using shutdown_reaches_all [OF demo_master_ok(1), of "[(Mq_eintr, [(8, Exited 0)]), (Mq_etimedout, [])]" "rd_time (hd demo_rounds)"] live
    unfolding t by (auto simp: event_ok_def)
qed

end
