(* ===== verification/Tap_Search.thy ===== *)
theory Tap_Search
  imports Http_Headers "HOL-Library.List_Lexorder"
begin

text \<open>
  The look-up of header and command names in \<open>src/minuted/tap.c\<close>: a binary search with
  \<open>strcasecmp\<close>, and what it finds in the two tables of header names.
\<close>

section \<open>The search\<close>

text \<open>\<open>strcasecmp\<close> in the C locale: the difference of the first two bytes that differ, as lower case
  letters; a string ends with a zero byte.\<close>

definition tolower_byte :: "char \<Rightarrow> int" where
  "tolower_byte c = (let n = of_char c in if 65 \<le> n \<and> n \<le> 90 then n + 32 else n)"

fun strcasecmp :: "string \<Rightarrow> string \<Rightarrow> int" where
  "strcasecmp [] [] = 0"
| "strcasecmp [] (d # ds) = - tolower_byte d"
| "strcasecmp (c # cs) [] = tolower_byte c"
| "strcasecmp (c # cs) (d # ds) =
     (if tolower_byte c = tolower_byte d then strcasecmp cs ds else tolower_byte c - tolower_byte d)"

function search_loop :: "string \<Rightarrow> string list \<Rightarrow> nat \<Rightarrow> nat \<Rightarrow> int" where
  "search_loop s ls lo hi =
     (if lo < hi then
        let mid = (hi + lo) div 2; diff = strcasecmp s (ls ! mid) in
        if diff = 0 then int mid
        else if diff < 0 then search_loop s ls lo mid
        else search_loop s ls (mid + 1) hi
      else -1)"
  by pat_completeness auto
termination by (relation "measure (\<lambda>(s, ls, lo, hi). hi - lo)") auto

declare search_loop.simps [simp del]

definition minuted_tap_binary_search :: "string \<Rightarrow> string list \<Rightarrow> nat \<Rightarrow> int" where
  "minuted_tap_binary_search s ls sz = search_loop s ls 0 sz"

definition minuted_tap_response_header :: "string \<Rightarrow> http_response_header" where
  "minuted_tap_response_header name =
     (let h = minuted_tap_binary_search name http_response_header_names (nat http_response_header_names_count)
      in if 0 < h then all_response_headers ! nat h else http_rsp_unknown_header)"

definition minuted_tap_request_header :: "string \<Rightarrow> http_request_header" where
  "minuted_tap_request_header name =
     (let h = minuted_tap_binary_search name http_request_header_names (nat http_request_header_names_count)
      in if 0 < h then all_request_headers ! nat h else http_rq_unknown_header)"

section \<open>The order behind it\<close>

definition folded :: "string \<Rightarrow> int list" where
  "folded s = map tolower_byte s"

text \<open>Strings of C: no zero byte inside.\<close>

definition c_string :: "string \<Rightarrow> bool" where
  "c_string s \<longleftrightarrow> NUL \<notin> set s"

lemma tolower_byte_nonneg: "0 \<le> tolower_byte c"
  using of_char_int_bounds [of c] by (simp add: tolower_byte_def Let_def)

lemma tolower_byte_zero: "tolower_byte c = 0 \<longleftrightarrow> c = NUL"
proof
  assume "tolower_byte c = 0"
  then have "(of_char c :: int) = of_char NUL" by (simp add: tolower_byte_def Let_def split: if_splits)
  then show "c = NUL" by (simp only: of_char_eq_iff)
qed (simp add: tolower_byte_def)

lemma tolower_byte_pos: "c \<noteq> NUL \<Longrightarrow> 0 < tolower_byte c"
  using tolower_byte_nonneg [of c] tolower_byte_zero [of c] by linarith

lemma strcasecmp_folded:
  "c_string s \<Longrightarrow> c_string t \<Longrightarrow> (strcasecmp s t = 0 \<longleftrightarrow> folded s = folded t)
     \<and> (strcasecmp s t < 0 \<longleftrightarrow> folded s < folded t)"
proof (induction s t rule: strcasecmp.induct)
  case (2 d ds)
  then show ?case using tolower_byte_pos [of d] by (auto simp: c_string_def folded_def)
next
  case (3 c cs)
  then show ?case using tolower_byte_pos [of c] by (auto simp: c_string_def folded_def)
qed (auto simp: c_string_def folded_def)

text \<open>What the search finds is there, in any table.\<close>

lemma search_loop_sound:
  assumes "c_string s" "\<forall>t \<in> set ls. c_string t" "hi \<le> length ls"
  shows "search_loop s ls lo hi = -1
    \<or> (\<exists>i. lo \<le> i \<and> i < hi \<and> search_loop s ls lo hi = int i \<and> folded (ls ! i) = folded s)"
  using assms
proof (induction s ls lo hi rule: search_loop.induct)
  case (1 s ls lo hi)
  let ?m = "(hi + lo) div 2"
  show ?case
  proof (cases "lo < hi")
    case True
    then have m: "lo \<le> ?m" "?m < hi" by linarith+
    then have t: "c_string (ls ! ?m)" using "1.prems" by simp
    note c = strcasecmp_folded [OF "1.prems"(1) t]
    consider "strcasecmp s (ls ! ?m) = 0" | "strcasecmp s (ls ! ?m) < 0" | "0 < strcasecmp s (ls ! ?m)"
      by linarith
    then show ?thesis
    proof cases
      case 1
      then show ?thesis using c m True by (auto simp: search_loop.simps [of s ls lo hi] Let_def)
    next
      case 2
      then show ?thesis using "1.IH"(1) [OF True refl refl] "1.prems" m True
        by (auto simp: search_loop.simps [of s ls lo hi] Let_def)
    next
      case 3
      then show ?thesis using "1.IH"(2) [OF True refl refl] "1.prems" m True
        by (auto simp: search_loop.simps [of s ls lo hi] Let_def)
    qed
  qed (simp add: search_loop.simps [of s ls lo hi])
qed

text \<open>In a table that is sorted, from an index on, it finds what is there.\<close>

lemma search_loop_complete:
  assumes "c_string s" "\<forall>t \<in> set ls. c_string t" "hi \<le> length ls"
    and "\<forall>i j. a \<le> i \<longrightarrow> i < j \<longrightarrow> j < length ls \<longrightarrow> folded (ls ! i) < folded (ls ! j)"
    and "lo \<le> i" "a \<le> i" "i < hi" "folded (ls ! i) = folded s" "a \<le> 1"
  shows "search_loop s ls lo hi = int i"
  using assms
proof (induction s ls lo hi rule: search_loop.induct)
  case (1 s ls lo hi)
  let ?m = "(hi + lo) div 2"
  have lh: "lo < hi" and m: "lo \<le> ?m" "?m < hi" using "1.prems"(5,7) by linarith+
  then have t: "c_string (ls ! ?m)" using "1.prems"(2,3) by simp
  note c = strcasecmp_folded [OF "1.prems"(1) t]
  have am: "a \<le> ?m" using "1.prems" by linarith
  consider "i = ?m" | "i < ?m" | "?m < i" by linarith
  then show ?case
  proof cases
    case 1
    then show ?thesis using c "1.prems"(8) lh by (simp add: search_loop.simps [of s ls lo hi] Let_def)
  next
    case 2
    then have "folded s < folded (ls ! ?m)" using "1.prems" m by (metis order.strict_trans2)
    then have "folded s < folded (ls ! ?m)" "folded s \<noteq> folded (ls ! ?m)" by auto
    then show ?thesis using c "1.IH"(1) [OF lh refl refl] "1.prems" m 2 lh
      by (simp add: search_loop.simps [of s ls lo hi] Let_def)
  next
    case 3
    then have "folded (ls ! ?m) < folded s" using "1.prems" m am by (metis order.strict_trans2)
    then have "\<not> folded s < folded (ls ! ?m)" "folded s \<noteq> folded (ls ! ?m)" by auto
    then show ?thesis using c "1.IH"(2) [OF lh refl refl] "1.prems" 3 lh
      by (simp add: search_loop.simps [of s ls lo hi] Let_def)
  qed
qed


section \<open>Properties\<close>

text \<open>Names that differ in letter case only are the same header.\<close>

definition same_name :: "string \<Rightarrow> string \<Rightarrow> bool" where
  "same_name s t \<longleftrightarrow> folded s = folded t"

lemma request_names:
  "\<forall>t \<in> set http_request_header_names. c_string t"
  "length http_request_header_names = 37" "length all_request_headers = 37"
  by (simp_all add: http_request_header_names_def c_string_def all_request_headers_def)

lemma response_names:
  "\<forall>t \<in> set http_response_header_names. c_string t"
  "length http_response_header_names = 34" "length all_response_headers = 34"
  by (simp_all add: http_response_header_names_def c_string_def all_response_headers_def)

lemma request_sorted: "sorted_wrt (<) (map folded (tl http_request_header_names))"
  by code_simp

lemma nth_map_eqI: "map f xs = map g ys \<Longrightarrow> i < length xs \<Longrightarrow> f (xs ! i) = g (ys ! i)"
  by (metis length_map nth_map)

lemma request_table:
  assumes "i < 37"
  shows "rq_code (all_request_headers ! i) = int i"
proof -
  have "map rq_code all_request_headers = map int [0..<37]" by code_simp
  then show ?thesis using nth_map_eqI [of rq_code all_request_headers int "[0..<37]" i] assms
    by (simp add: request_names)
qed

lemma response_table:
  assumes "i < 34"
  shows "rsp_code (all_response_headers ! i) = int i"
proof -
  have "map rsp_code all_response_headers = map int [0..<34]" by code_simp
  then show ?thesis using nth_map_eqI [of rsp_code all_response_headers int "[0..<34]" i] assms
    by (simp add: response_names)
qed

lemma strcasecmp_cong: "folded s = folded s' \<Longrightarrow> strcasecmp s t = strcasecmp s' t"
proof (induction s t arbitrary: s' rule: strcasecmp.induct)
  case (3 c cs)
  then show ?case by (cases s') (auto simp: folded_def)
next
  case (4 c cs d ds)
  then show ?case by (cases s') (auto simp: folded_def)
qed (auto simp: folded_def)

lemma search_cong: "folded s = folded s' \<Longrightarrow> search_loop s ls lo hi = search_loop s' ls lo hi"
proof (induction s ls lo hi rule: search_loop.induct)
  case (1 s ls lo hi)
  then show ?case using strcasecmp_cong [OF "1.prems"]
    by (simp add: search_loop.simps [of s ls lo hi] search_loop.simps [of s' ls lo hi] Let_def)
qed


lemma request_found: "0 < i \<Longrightarrow> i < 37 \<Longrightarrow> search_loop (http_request_header_names ! i) http_request_header_names 0 37 = int i"
proof (rule search_loop_complete [where a = 1])
  show "\<forall>i j. 1 \<le> i \<longrightarrow> i < j \<longrightarrow> j < length http_request_header_names
      \<longrightarrow> folded (http_request_header_names ! i) < folded (http_request_header_names ! j)"
  proof (intro allI impI)
    fix i j
    assume ij: "1 \<le> i" "i < j" "j < length http_request_header_names"
    then show "folded (http_request_header_names ! i) < folded (http_request_header_names ! j)"
      using sorted_wrt_nth_less [OF request_sorted, of "i - 1" "j - 1"] by (simp add: nth_tl request_names)
  qed
qed (simp_all add: request_names)

lemma response_found:
  assumes "0 < i" "i < 34" "i \<notin> {9, 10, 11}"
  shows "search_loop (http_response_header_names ! i) http_response_header_names 0 34 = int i"
proof -
  have "\<forall>i \<in> set [1..<34]. i \<notin> {9, 10, 11} \<longrightarrow>
      search_loop (http_response_header_names ! i) http_response_header_names 0 34 = int i"
    by code_simp
  then show ?thesis using assms by auto
qed

lemma response_lost:
  "search_loop (http_response_header_names ! 9) http_response_header_names 0 34 = -1"
  "search_loop (http_response_header_names ! 10) http_response_header_names 0 34 = -1"
  "search_loop (http_response_header_names ! 11) http_response_header_names 0 34 = -1"
  by code_simp+

text \<open>The search in a table of headers, and the two tables.\<close>

lemma request_search:
  assumes "c_string name"
  shows "minuted_tap_request_header name = http_rq_unknown_header
        \<and> (\<forall>i. 0 < i \<longrightarrow> i < 37 \<longrightarrow> \<not> same_name name (http_request_header_names ! i))
    \<or> (\<exists>i. 0 < i \<and> i < 37 \<and> minuted_tap_request_header name = all_request_headers ! i
        \<and> same_name name (http_request_header_names ! i))"
proof -
  let ?z = "search_loop name http_request_header_names 0 37"
  have r: "minuted_tap_request_header name
      = (if 0 < ?z then all_request_headers ! nat ?z else http_rq_unknown_header)"
    by (simp add: minuted_tap_request_header_def minuted_tap_binary_search_def header_name_counts Let_def)
  have found: "?z = int i" if "0 < i" "i < 37" "same_name name (http_request_header_names ! i)" for i
    using request_found [OF that(1,2)] search_cong [of name "http_request_header_names ! i"] that(3)
    by (simp add: same_name_def)
  show ?thesis
  proof (cases "0 < ?z")
    case True
    then obtain i where "?z = int i" "i < 37" "folded (http_request_header_names ! i) = folded name"
      using search_loop_sound [OF assms request_names(1), of 37 0] by (auto simp: request_names)
    then show ?thesis using r True by (auto simp: same_name_def)
  next
    case False
    then show ?thesis using r found by (metis of_nat_0_less_iff)
  qed
qed

lemma response_search:
  assumes "c_string name"
  shows "minuted_tap_response_header name = http_rsp_unknown_header
        \<and> (\<forall>i. 0 < i \<longrightarrow> i < 34 \<longrightarrow> i \<notin> {9, 10, 11} \<longrightarrow> \<not> same_name name (http_response_header_names ! i))
    \<or> (\<exists>i. 0 < i \<and> i < 34 \<and> i \<notin> {9, 10, 11} \<and> minuted_tap_response_header name = all_response_headers ! i
        \<and> same_name name (http_response_header_names ! i))"
proof -
  let ?z = "search_loop name http_response_header_names 0 34"
  have r: "minuted_tap_response_header name
      = (if 0 < ?z then all_response_headers ! nat ?z else http_rsp_unknown_header)"
    by (simp add: minuted_tap_response_header_def minuted_tap_binary_search_def header_name_counts Let_def)
  have found: "?z = int i"
    if "0 < i" "i < 34" "i \<notin> {9, 10, 11}" "same_name name (http_response_header_names ! i)" for i
    using response_found [OF that(1-3)] search_cong [of name "http_response_header_names ! i"] that(4)
    by (simp add: same_name_def)
  have lost: "?z = -1" if "i \<in> {9, 10, 11}" "same_name name (http_response_header_names ! i)" for i
    using response_lost search_cong [of name "http_response_header_names ! i"] that
    by (auto simp: same_name_def)
  show ?thesis
  proof (cases "0 < ?z")
    case True
    then obtain i where i: "?z = int i" "i < 34" "same_name name (http_response_header_names ! i)"
      using search_loop_sound [OF assms response_names(1), of 34 0] by (auto simp: response_names same_name_def)
    then have "i \<notin> {9, 10, 11}" using lost [of i] True by auto
    then show ?thesis using r True i by auto
  next
    case False
    then show ?thesis using r found by (metis of_nat_0_less_iff)
  qed
qed

lemma request_names_distinct: "distinct (map folded http_request_header_names)"
  "distinct (map folded http_response_header_names)"
  by code_simp+

lemma code_inject:
  "rq_code h = rq_code h' \<longleftrightarrow> h = h'" "rsp_code k = rsp_code k' \<longleftrightarrow> k = k'"
  by (metis rq_of_code_code option.inject) (metis rsp_of_code_code option.inject)

lemma nat_code_less: "nat (rq_code h) < 37" "nat (rsp_code k) < 34"
  using rq_code_range [of h] rsp_code_range [of k] by (simp_all add: header_name_counts nat_less_iff)

lemma header_index:
  "request_header_name h = http_request_header_names ! nat (rq_code h)"
  "response_header_name k = http_response_header_names ! nat (rsp_code k)"
  "all_request_headers ! nat (rq_code h) = h" "all_response_headers ! nat (rsp_code k) = k"
proof -
  show "all_request_headers ! nat (rq_code h) = h"
    using request_table [OF nat_code_less(1)] rq_code_range [of h] by (simp flip: code_inject(1))
  show "all_response_headers ! nat (rsp_code k) = k"
    using response_table [OF nat_code_less(2)] rsp_code_range [of k] by (simp flip: code_inject(2))
qed (simp_all add: request_header_name_def response_header_name_def)

lemma same_name_unique:
  assumes "i < 37" "same_name name (http_request_header_names ! i)" "same_name name (request_header_name h)"
  shows "all_request_headers ! i = h"
proof -
  have "i = nat (rq_code h)"
    using assms nth_eq_iff_index_eq [OF request_names_distinct(1), of i "nat (rq_code h)"] rq_code_range [of h]
    by (auto simp: same_name_def header_index request_names header_name_counts nat_less_iff)
  then show ?thesis by (simp add: header_index)
qed

lemma same_name_unique_response:
  assumes "i < 34" "same_name name (http_response_header_names ! i)" "same_name name (response_header_name k)"
  shows "all_response_headers ! i = k"
proof -
  have "i = nat (rsp_code k)"
    using assms nth_eq_iff_index_eq [OF request_names_distinct(2), of i "nat (rsp_code k)"] rsp_code_range [of k]
    by (auto simp: same_name_def header_index response_names header_name_counts nat_less_iff)
  then show ?thesis by (simp add: header_index)
qed

text \<open>C26. An application names the headers of a request in any letter case: the search answers
  exactly the header with that name, and the unknown header for every other name.\<close>
theorem request_header_found:
  assumes "c_string name" "h \<noteq> http_rq_unknown_header"
  shows "minuted_tap_request_header name = h \<longleftrightarrow> same_name name (request_header_name h)"
  using request_search [OF assms(1)]
proof (elim disjE exE conjE)
  assume "minuted_tap_request_header name = http_rq_unknown_header"
    "\<forall>i. 0 < i \<longrightarrow> i < 37 \<longrightarrow> \<not> same_name name (http_request_header_names ! i)"
  moreover have "rq_code h \<noteq> 0" using assms(2) by (cases h) simp_all
  ultimately show ?thesis
    using rq_code_range [of h] assms(2) by (force simp: header_index header_name_counts)
next
  fix i
  assume i: "i < 37" "minuted_tap_request_header name = all_request_headers ! i"
    "same_name name (http_request_header_names ! i)"
  then show ?thesis using same_name_unique [OF i(1,3)] request_table [OF i(1)]
    by (auto simp: header_index)
qed

lemma request_header_found_witness:
  "minuted_tap_request_header ''user-AGENT'' = http_rq_user_agent"
  by (subst request_header_found) (simp_all add: c_string_def same_name_def folded_def tolower_byte_def
      request_header_name_def http_request_header_names_def)

text \<open>C25. The table of the response headers is not in order, and three headers are lost for it: an
  application can set every other header, in any letter case, but \<open>Content-Location\<close>,
  \<open>Content-MD5\<close> and \<open>Content-Disposition\<close> are answered as unknown.\<close>
theorem response_header_found:
  assumes "c_string name" "h \<noteq> http_rsp_unknown_header"
  shows "minuted_tap_response_header name = h \<longleftrightarrow> same_name name (response_header_name h)
    \<and> h \<notin> {http_rsp_content_location, http_rsp_content_md5, http_rsp_content_disposition}"
proof -
  have lost: "nat (rsp_code h) \<in> {9, 10, 11}
      \<longleftrightarrow> h \<in> {http_rsp_content_location, http_rsp_content_md5, http_rsp_content_disposition}"
    by (cases h) simp_all
  have pos: "rsp_code h \<noteq> 0" using assms(2) by (cases h) simp_all
  show ?thesis
    using response_search [OF assms(1)]
  proof (elim disjE exE conjE)
    assume "minuted_tap_response_header name = http_rsp_unknown_header"
      "\<forall>i. 0 < i \<longrightarrow> i < 34 \<longrightarrow> i \<notin> {9, 10, 11} \<longrightarrow> \<not> same_name name (http_response_header_names ! i)"
    moreover have "0 < nat (rsp_code h)" "nat (rsp_code h) < 34"
      using rsp_code_range [of h] pos nat_code_less(2) by simp_all
    ultimately show ?thesis using assms(2) lost unfolding header_index by metis
  next
    fix i
    assume i: "i < 34" "i \<notin> {9, 10, 11}" "minuted_tap_response_header name = all_response_headers ! i"
      "same_name name (http_response_header_names ! i)"
    then have "i = nat (rsp_code h)" if "all_response_headers ! i = h"
      using that response_table [OF i(1)] by simp
    then show ?thesis using same_name_unique_response [OF i(1,4)] i lost by (auto simp: header_index)
  qed
qed

lemma response_header_found_witness:
  "minuted_tap_response_header ''etag'' = http_rsp_etag
   \<and> minuted_tap_response_header ''Content-Location'' \<noteq> http_rsp_content_location"
proof (rule conjI)
  show "minuted_tap_response_header ''etag'' = http_rsp_etag"
    by (subst response_header_found) (simp_all add: c_string_def same_name_def folded_def tolower_byte_def
        response_header_name_def http_response_header_names_def)
  show "minuted_tap_response_header ''Content-Location'' \<noteq> http_rsp_content_location"
    by (subst response_header_found) (simp_all add: c_string_def)
qed

end
