(* ===== verification/Tap.thy ===== *)
theory Tap
  imports Httpd Tap_Search
begin

text \<open>
  The Tcl application of \<open>src/minuted/tap.c\<close>: which virtual host a request goes to, the procedures
  of the application with the command and the channel they are given, and the loop over the
  requests of a connection.  The Tcl interpreter is not part of the repository: its operations on
  values are the record \<open>tcl\<close>, an argument, and a procedure is what it does to its surroundings,
  a tree of calls.  Reference counts are left out.
\<close>

section \<open>The interpreter\<close>

text \<open>Operations on values (\<open>Tcl_Obj\<close>).  The outer option of a result is an error of the
  interpreter, the inner one a null pointer for something that is not there.\<close>

record 'o tcl =
  Tcl_GetString     :: "'o \<Rightarrow> string"
  Tcl_NewStringObj  :: "string \<Rightarrow> 'o"
  Tcl_NewIntObj     :: "int \<Rightarrow> 'o"
  Tcl_NewListObj    :: "'o list \<Rightarrow> 'o"
  Tcl_NewDictObj    :: 'o
  Tcl_GetIntFromObj :: "'o \<Rightarrow> int option"
  Tcl_ListObjLength :: "'o \<Rightarrow> nat option"
  Tcl_ListObjIndex  :: "'o \<Rightarrow> nat \<Rightarrow> 'o option option"
  Tcl_DictObjGet    :: "'o \<Rightarrow> 'o \<Rightarrow> 'o option option"
  Tcl_DictObjPut    :: "'o \<Rightarrow> 'o \<Rightarrow> 'o \<Rightarrow> 'o option"
  Tcl_DictObjAll    :: "'o \<Rightarrow> ('o \<times> 'o) list option"

text \<open>The entries of a dictionary, in order, are found by the string of their key.\<close>

fun entries_get :: "('o \<Rightarrow> string) \<Rightarrow> string \<Rightarrow> ('o \<times> 'o) list \<Rightarrow> 'o option" where
  "entries_get str k [] = None"
| "entries_get str k ((k', v) # es) = (if str k' = k then Some v else entries_get str k es)"

fun entries_put :: "('o \<Rightarrow> string) \<Rightarrow> 'o \<Rightarrow> 'o \<Rightarrow> ('o \<times> 'o) list \<Rightarrow> ('o \<times> 'o) list" where
  "entries_put str k v [] = [(k, v)]"
| "entries_put str k v ((k', v') # es) =
     (if str k' = str k then (k', v) # es else (k', v') # entries_put str k v es)"

text \<open>What is documented of strings, integers and dictionaries.\<close>

definition tcl_laws :: "'o tcl \<Rightarrow> bool" where
  "tcl_laws T \<longleftrightarrow> (\<forall>s. Tcl_GetString T (Tcl_NewStringObj T s) = s)
     \<and> (\<forall>i. -(2 ^ 31) \<le> i \<longrightarrow> i < 2 ^ 31 \<longrightarrow> Tcl_GetIntFromObj T (Tcl_NewIntObj T i) = Some i)
     \<and> Tcl_DictObjAll T (Tcl_NewDictObj T) = Some []
     \<and> (\<forall>d k. Tcl_DictObjGet T d k
          = map_option (entries_get (Tcl_GetString T) (Tcl_GetString T k)) (Tcl_DictObjAll T d))
     \<and> (\<forall>d es k v. Tcl_DictObjAll T d = Some es \<longrightarrow> (\<exists>d'. Tcl_DictObjPut T d k v = Some d'
          \<and> Tcl_DictObjAll T d' = Some (entries_put (Tcl_GetString T) k v es)))"

definition TCL_OK :: int where "TCL_OK = 0"
definition TCL_ERROR :: int where "TCL_ERROR = 1"

text \<open>A procedure running: it ends with a result code, a result and its interpreter's new state,
  or calls its command (with all words; the answer is a code and the result it sets, if any), or
  uses the driver of its channel.\<close>

datatype ('o, 's) tcl_run =
    Tcl_done int 'o 's
  | Tcl_command "'o list" "int \<times> 'o option \<Rightarrow> ('o, 's) tcl_run"
  | Tcl_input nat "int \<times> bytes \<Rightarrow> ('o, 's) tcl_run"
  | Tcl_output bytes "int \<Rightarrow> ('o, 's) tcl_run"

type_synonym ('o, 's) tcl_proc = "'o list \<Rightarrow> 's \<Rightarrow> ('o, 's) tcl_run"

text \<open>What the procedure is given: the command, and the two directions of the channel's driver.\<close>

record 'o tcl_world =
  tw_command :: "'o list \<Rightarrow> httpd_response \<Rightarrow> (int \<times> 'o option \<times> httpd_response) c_loop"
  tw_input   :: "nat \<Rightarrow> httpd_response \<Rightarrow> (int \<times> bytes \<times> httpd_response) c_loop"
  tw_output  :: "bytes \<Rightarrow> httpd_response \<Rightarrow> (int \<times> httpd_response) c_loop"

primrec tcl_exec ::
    "'o tcl_world \<Rightarrow> ('o, 's) tcl_run \<Rightarrow> httpd_response \<Rightarrow> (int \<times> 'o \<times> 's \<times> httpd_response) c_loop" where
  "tcl_exec W (Tcl_done code res s) r = Some (Some (code, res, s, r))"
| "tcl_exec W (Tcl_command objv k) r =
     c_bind (tw_command W objv r) (\<lambda>(code, res, r). tcl_exec W (k (code, res)) r)"
| "tcl_exec W (Tcl_input n k) r = c_bind (tw_input W n r) (\<lambda>(i, xs, r). tcl_exec W (k (i, xs)) r)"
| "tcl_exec W (Tcl_output xs k) r = c_bind (tw_output W xs r) (\<lambda>(i, r). tcl_exec W (k i) r)"

section \<open>State\<close>

definition TAP_NO_PAYLOAD :: unsigned where "TAP_NO_PAYLOAD = 0x01"

record ('o, 's) tap_vhost =
  v_tcl      :: 's
  v_flags    :: unsigned
  v_headers  :: "('o, 's) tcl_proc"
  v_payload  :: "('o, 's) tcl_proc"
  v_response :: "('o, 's) tcl_proc"

record ('o, 's) tap_runtime =
  tr_vhostMap    :: 'o
  tr_vhostListen :: "'o list"
  tr_v           :: "('o, 's) tap_vhost list"
  tr_nv          :: int

text \<open>\<open>tap_rq_data\<close>, with the counter of command names and the log, which are global in the
  program.\<close>

record ('o, 's) tap_rq_data =
  d_rs       :: "('o, 's) tap_runtime"
  d_listenId :: nat
  d_vhost    :: "nat option"
  d_path     :: "'o option"
  d_query    :: "'o option"
  d_host     :: "'o option"
  d_method   :: http_method
  d_status   :: "'o option"
  d_code     :: int
  d_cmdno    :: unsigned
  d_log      :: "(char \<times> string) list"

definition say :: "char \<Rightarrow> string \<Rightarrow> ('o, 's) tap_rq_data \<Rightarrow> ('o, 's) tap_rq_data" where
  "say type text d = d\<lparr>d_log := d_log d @ [(type, text)]\<rparr>"

definition minuted_tap_reset :: "('o, 's) tap_rq_data \<Rightarrow> ('o, 's) tap_rq_data" where
  "minuted_tap_reset d =
     d\<lparr>d_vhost := None, d_method := http_unknown_method, d_code := 0,
       d_status := None, d_path := None, d_query := None, d_host := None\<rparr>"

section \<open>The channel\<close>

definition minuted_tap_close_proc :: "httpd_response \<Rightarrow> httpd_response c_loop" where
  "minuted_tap_close_proc r = minute_httpd_flush r"

definition minuted_tap_inputclose_proc :: "httpd_response \<Rightarrow> httpd_response c_loop" where
  "minuted_tap_inputclose_proc r = Some (Some r)"

definition minuted_tap_input_proc :: "nat \<Rightarrow> httpd_response \<Rightarrow> (int \<times> bytes \<times> httpd_response) c_loop" where
  "minuted_tap_input_proc toWrite r =
     c_bind (minute_httpd_in_read (Some (replicate toWrite NUL)) (of_nat toWrite) r) (\<lambda>(n, buf, r).
       Some (Some (n, take (nat n) (case buf of None \<Rightarrow> [] | Some d \<Rightarrow> d), r)))"

definition minuted_tap_output_proc :: "bytes \<Rightarrow> httpd_response \<Rightarrow> (int \<times> httpd_response) c_loop" where
  "minuted_tap_output_proc buf r = minute_httpd_write buf (of_nat (length buf)) r"

definition minuted_tap_no_out_proc :: "bytes \<Rightarrow> httpd_response \<Rightarrow> (int \<times> httpd_response) c_loop" where
  "minuted_tap_no_out_proc buf r = Some (Some (-1, r))"

text \<open>Without a channel the driver is never reached.\<close>

definition no_input :: "nat \<Rightarrow> httpd_response \<Rightarrow> (int \<times> bytes \<times> httpd_response) c_loop" where
  "no_input n r = Some (Some (-1, [], r))"

section \<open>The command\<close>

text \<open>The string a \<open>textint\<close> offset points to.\<close>

definition text_at :: "int \<Rightarrow> textint \<Rightarrow> string option" where
  "text_at off t = do { p \<leftarrow> minute_textint_gets off t; c_string_at (ti_data t) p }"

function get_header_loop :: "int \<Rightarrow> int \<Rightarrow> int \<Rightarrow> textint \<Rightarrow> string option option" where
  "get_header_loop h i ints t =
     (if i < ints then do {
        x \<leftarrow> minute_textint_geti i t;
        if x = h then do {
          off \<leftarrow> minute_textint_geti (i + 1) t;
          s \<leftarrow> text_at off t;
          Some (Some s)
        }
        else get_header_loop h (i + 2) ints t
      }
      else Some None)"
  by pat_completeness auto
termination by (relation "measure (\<lambda>(h, i, ints, t). nat (ints - i))") auto

declare get_header_loop.simps [simp del]

definition tap_tcl_add_header ::
    "'o tcl \<Rightarrow> 'o \<Rightarrow> 'o \<Rightarrow> httpd_response \<Rightarrow> (int \<times> 'o option \<times> httpd_response) c_loop" where
  "tap_tcl_add_header T header val r =
     (let h = minuted_tap_response_header (Tcl_GetString T header) in
      if h = http_rsp_unknown_header then Some (Some (TCL_ERROR, None, r))
      else c_bind (minute_httpd_header h (Tcl_GetString T val) r) (\<lambda>r. Some (Some (TCL_OK, None, r))))"

text \<open>The answer to \<open>get-header\<close>: the code, and the result it sets.\<close>

definition header_value ::
    "'o tcl \<Rightarrow> 'o \<Rightarrow> minute_http_rq \<Rightarrow> textint \<Rightarrow> (int \<times> 'o option) option" where
  "header_value T header rq text =
     (let h = minuted_tap_request_header (Tcl_GetString T header) in
      if h = http_rq_unknown_header then Some (TCL_ERROR, None)
      else if h = http_rq_content_length then
        Some (TCL_OK, if flag_set (rq_flags rq) http_content_length
                      then Some (Tcl_NewIntObj T (sint (rq_content_length rq))) else None)
      else if h = http_rq_transfer_encoding then
        Some (TCL_OK, if flag_set (rq_flags rq) http_transfer_chunked
                      then Some (Tcl_NewStringObj T ''chunked'') else None)
      else do {
        s \<leftarrow> get_header_loop (rq_code h) 0 (sint (minute_textint_intsize text)) text;
        Some (TCL_OK, map_option (Tcl_NewStringObj T) s)
      })"

definition tap_tcl_get_header ::
    "'o tcl \<Rightarrow> 'o \<Rightarrow> httpd_response \<Rightarrow> (int \<times> 'o option \<times> httpd_response) c_loop" where
  "tap_tcl_get_header T header r =
     c_bind (c_step (header_value T header (r_rq r) (r_text r))) (\<lambda>(code, res). Some (Some (code, res, r)))"

definition tap_tcl_headers_meta ::
    "'o tcl \<Rightarrow> 'o list \<Rightarrow> httpd_response \<Rightarrow> (int \<times> 'o option \<times> httpd_response) c_loop" where
  "tap_tcl_headers_meta T objv r =
     (if length objv < 2 then Some (Some (TCL_ERROR, None, r))
      else let cmdno = minuted_tap_binary_search (Tcl_GetString T (objv ! 1)) [''add-header'', ''get-header''] 2 in
        if cmdno = 0 then
          if length objv \<noteq> 4 then Some (Some (TCL_ERROR, None, r))
          else tap_tcl_add_header T (objv ! 2) (objv ! 3) r
        else if cmdno = 1 then
          if length objv \<noteq> 3 then Some (Some (TCL_ERROR, None, r))
          else tap_tcl_get_header T (objv ! 2) r
        else Some (Some (TCL_OK, None, r)))"

definition tap_tcl_response_meta ::
    "'o tcl \<Rightarrow> 'o list \<Rightarrow> httpd_response \<Rightarrow> (int \<times> 'o option \<times> httpd_response) c_loop" where
  "tap_tcl_response_meta T objv r =
     (if length objv < 2 then Some (Some (TCL_ERROR, None, r))
      else let cmdno = minuted_tap_binary_search (Tcl_GetString T (objv ! 1)) [''get-header''] 1 in
        if cmdno = 0 then
          if length objv \<noteq> 3 then Some (Some (TCL_ERROR, None, r))
          else tap_tcl_get_header T (objv ! 2) r
        else Some (Some (TCL_OK, None, r)))"

definition tap_create_meta :: "'o tcl \<Rightarrow> ('o, 's) tap_rq_data \<Rightarrow> 'o \<times> ('o, 's) tap_rq_data" where
  "tap_create_meta T d =
     (let cmdno = d_cmdno d + 1
      in (Tcl_NewStringObj T (take 15 (''mm'' @ fmt_d (uint cmdno))), d\<lparr>d_cmdno := cmdno\<rparr>))"

section \<open>The callbacks\<close>

definition minuted_tap_status ::
    "'o tcl \<Rightarrow> 'o \<Rightarrow> ('o, 's) tap_rq_data \<Rightarrow> (int \<times> ('o, 's) tap_rq_data) option" where
  "minuted_tap_status T resObj d =
     do {
       (res, d) \<leftarrow> (case Tcl_ListObjLength T resObj of
           None \<Rightarrow> Some (500, say CHR ''E'' ''Status processing yielded non-list result.'' d)
         | Some n \<Rightarrow> (case Tcl_ListObjIndex T resObj 0 of
             None \<Rightarrow> Some (500, say CHR ''E'' ''Status unable to get status object.'' d)
           | Some None \<Rightarrow> None
           | Some (Some statusObj) \<Rightarrow> (case Tcl_GetIntFromObj T statusObj of
               None \<Rightarrow> Some (500, say CHR ''E'' ''Status processing yielded non-integer status.'' d)
             | Some i \<Rightarrow> Some (i, d))));
       Some (res, d\<lparr>d_status := Some resObj\<rparr>)
     }"

text \<open>The value of the last Host header.\<close>

function host_loop :: "int \<Rightarrow> int \<Rightarrow> textint \<Rightarrow> string \<Rightarrow> string option" where
  "host_loop i ints t host =
     (if i < ints then do {
        x \<leftarrow> minute_textint_geti i t;
        if x = rq_code http_rq_host then do {
          off \<leftarrow> minute_textint_geti (i + 1) t;
          s \<leftarrow> text_at off t;
          host_loop (i + 2) ints t s
        }
        else host_loop (i + 2) ints t host
      }
      else Some host)"
  by pat_completeness auto
termination by (relation "measure (\<lambda>(i, ints, t, host). nat (ints - i))") auto

declare host_loop.simps [simp del]

definition s_default :: string where "s_default = ''default''"
definition s_head :: string where "s_head = ''head''"
definition s_payload :: string where "s_payload = ''payload''"
definition s_response :: string where "s_response = ''response''"
definition s_tap_io :: string where "s_tap_io = ''tap-io''"

text \<open>The three look-ups: the virtual host for the name or for the default, and its number.\<close>

datatype 'o host_choice =
    Lookup_failed string 'o
  | Chosen "'o option" "'o option" 'o

definition choose_host :: "'o tcl \<Rightarrow> 'o \<Rightarrow> 'o \<Rightarrow> 'o \<Rightarrow> 'o \<Rightarrow> 'o host_choice" where
  "choose_host T vhosts vhostMap host defhost =
     (let number = \<lambda>vhost acthost.
        (case Tcl_DictObjGet T vhostMap acthost of
           None \<Rightarrow> Lookup_failed ''Internal vhostMap failure'' acthost
         | Some num \<Rightarrow> Chosen vhost num acthost)
      in case Tcl_DictObjGet T vhosts host of
           None \<Rightarrow> Lookup_failed ''Internal vhostListen failure'' host
         | Some (Some vhost) \<Rightarrow> number (Some vhost) host
         | Some None \<Rightarrow>
             (case Tcl_DictObjGet T vhosts defhost of
                None \<Rightarrow> Lookup_failed ''Internal default vhostListen failure'' defhost
              | Some vhost \<Rightarrow> number vhost defhost))"

text \<open>The number of the virtual host, or the status the request gets without one.\<close>

definition host_number ::
    "'o tcl \<Rightarrow> 'o host_choice \<Rightarrow> ('o, 's) tap_rq_data \<Rightarrow> (int + nat) \<times> ('o, 's) tap_rq_data" where
  "host_number T choice d = (case choice of
       Lookup_failed text host \<Rightarrow> (Inl 500, say CHR ''E'' text d)
     | Chosen None num host \<Rightarrow> (Inl 410, say CHR ''I'' ''Attempted to access unknown vhost'' d)
     | Chosen (Some vhost) None host \<Rightarrow> (Inl 500, say CHR ''E'' ''Internal vhost id failure'' d)
     | Chosen (Some vhost) (Some num) host \<Rightarrow> (case Tcl_GetIntFromObj T num of
         None \<Rightarrow> (Inl 500, say CHR ''E'' ''Internal vhost id not an int'' d)
       | Some i \<Rightarrow>
           if i < 0 \<or> tr_nv (d_rs d) < i
           then (Inl 500, say CHR ''E'' ''Internal vhost id out of range'' d)
           else (Inr (nat i), d)))"

definition act_host :: "'o host_choice \<Rightarrow> 'o" where
  "act_host choice = (case choice of Lookup_failed text host \<Rightarrow> host | Chosen vhost num host \<Rightarrow> host)"

definition set_interp :: "nat \<Rightarrow> 's \<Rightarrow> ('o, 's) tap_rq_data \<Rightarrow> ('o, 's) tap_rq_data" where
  "set_interp i s d =
     d\<lparr>d_rs := (d_rs d)\<lparr>tr_v := (tr_v (d_rs d))[i := (tr_v (d_rs d) ! i)\<lparr>v_tcl := s\<rparr>]\<rparr>\<rparr>"

text \<open>Running one of the procedures of virtual host \<open>i\<close>: the answer is its code, its result, and
  the new state of its interpreter stored.\<close>

definition run_proc ::
    "'o tcl_world \<Rightarrow> nat \<Rightarrow> (('o, 's) tap_vhost \<Rightarrow> ('o, 's) tcl_proc) \<Rightarrow> 'o list
     \<Rightarrow> httpd_response \<Rightarrow> ('o, 's) tap_rq_data \<Rightarrow> (int \<times> 'o \<times> httpd_response \<times> ('o, 's) tap_rq_data) c_loop" where
  "run_proc W i proc objv r d =
     (if i < length (tr_v (d_rs d)) then
        let v = tr_v (d_rs d) ! i in
        c_bind (tcl_exec W (proc v objv (v_tcl v)) r) (\<lambda>(code, res, s, r).
          Some (Some (code, res, r, set_interp i s d)))
      else Some None)"

text \<open>The part of \<open>minuted_tap_head\<close> before the procedure is called, and the part behind it.\<close>

definition head_request ::
    "'o tcl \<Rightarrow> minute_http_rq \<Rightarrow> textint \<Rightarrow> ('o, 's) tap_rq_data \<Rightarrow> ((int + nat) \<times> ('o, 's) tap_rq_data) option" where
  "head_request T rq text d = do {
     path \<leftarrow> (if rq_path rq \<noteq> 0 then text_at (sint (rq_path rq)) text else Some []);
     query \<leftarrow> (if rq_query rq \<noteq> 0 then text_at (sint (rq_query rq)) text else Some []);
     host_header \<leftarrow> host_loop 0 (sint (minute_textint_intsize text)) text s_default;
     vhosts \<leftarrow> (if d_listenId d < length (tr_vhostListen (d_rs d))
                then Some (tr_vhostListen (d_rs d) ! d_listenId d) else None);
     let choice = choose_host T vhosts (tr_vhostMap (d_rs d))
                    (Tcl_NewStringObj T host_header) (Tcl_NewStringObj T s_default) in
     Some (host_number T choice
       (d\<lparr>d_host := Some (act_host choice), d_path := Some (Tcl_NewStringObj T path),
          d_query := Some (Tcl_NewStringObj T query)\<rparr>))
   }"

definition head_result ::
    "'o tcl \<Rightarrow> int \<Rightarrow> 'o \<Rightarrow> ('o, 's) tap_rq_data \<Rightarrow> (int \<times> ('o, 's) tap_rq_data) option" where
  "head_result T code res d =
     (if code \<noteq> TCL_OK then Some (500, say CHR ''E'' (''Head processing failed: '' @ Tcl_GetString T res) d)
      else minuted_tap_status T res d)"

definition head_objv :: "'o tcl \<Rightarrow> 'o \<Rightarrow> ('o, 's) tap_rq_data \<Rightarrow> 'o list" where
  "head_objv T o_meta d = [Tcl_NewStringObj T s_head, the (d_path d), the (d_query d), o_meta]"

definition head_done :: "minute_http_rq \<Rightarrow> int \<Rightarrow> ('o, 's) tap_rq_data \<Rightarrow> ('o, 's) tap_rq_data" where
  "head_done rq res d = d\<lparr>d_method := rq_request_method rq, d_code := res\<rparr>"

definition minuted_tap_head ::
    "'o tcl \<Rightarrow> httpd_response \<Rightarrow> ('o, 's) tap_rq_data \<Rightarrow> (int \<times> httpd_response \<times> ('o, 's) tap_rq_data) c_loop" where
  "minuted_tap_head T r d =
     c_bind (c_step (head_request T (r_rq r) (r_text r) d)) (\<lambda>(choice, d). case choice of
         Inl res \<Rightarrow> Some (Some (res, r, head_done (r_rq r) res d))
       | Inr i \<Rightarrow>
           (case tap_create_meta T (d\<lparr>d_vhost := Some i\<rparr>) of (o_meta, d) \<Rightarrow>
             c_bind (run_proc \<lparr>tw_command = tap_tcl_headers_meta T, tw_input = no_input, tw_output = minuted_tap_no_out_proc\<rparr>
                 i v_headers (head_objv T o_meta d) r d) (\<lambda>(code, res, r, d).
               c_bind (c_step (head_result T code res d)) (\<lambda>(status, d).
                 Some (Some (status, r, head_done (r_rq r) status d))))))"

text \<open>\<open>payload\<close> and \<open>response\<close> run behind a head that has chosen a virtual host; without what it
  has set they would follow null pointers.\<close>

definition payload_objv :: "'o tcl \<Rightarrow> string \<Rightarrow> 'o \<Rightarrow> ('o, 's) tap_rq_data \<Rightarrow> 'o list option" where
  "payload_objv T proc o_meta d =
     do { path \<leftarrow> d_path d; query \<leftarrow> d_query d; status \<leftarrow> d_status d;
          Some [Tcl_NewStringObj T proc, path, query, o_meta, Tcl_NewStringObj T s_tap_io, status] }"

definition payload_result ::
    "'o tcl \<Rightarrow> int \<Rightarrow> 'o \<Rightarrow> ('o, 's) tap_rq_data \<Rightarrow> (int \<times> ('o, 's) tap_rq_data) option" where
  "payload_result T code res d =
     do { (status, d) \<leftarrow>
            (if code \<noteq> TCL_OK then Some (500, say CHR ''E'' (''Payload processing failed: '' @ Tcl_GetString T res) d)
             else minuted_tap_status T res d);
          Some (status, d\<lparr>d_code := status\<rparr>) }"

definition minuted_tap_payload ::
    "'o tcl \<Rightarrow> httpd_response \<Rightarrow> ('o, 's) tap_rq_data \<Rightarrow> (int \<times> httpd_response \<times> ('o, 's) tap_rq_data) c_loop" where
  "minuted_tap_payload T r d =
     (case d_vhost d of
        None \<Rightarrow> Some None
      | Some i \<Rightarrow>
          if length (tr_v (d_rs d)) \<le> i then Some None
          else if flag_set (v_flags (tr_v (d_rs d) ! i)) TAP_NO_PAYLOAD then Some (Some (500, r, d\<lparr>d_code := 500\<rparr>))
          else
            (case tap_create_meta T d of (o_meta, d) \<Rightarrow>
              c_bind (c_step (payload_objv T s_payload o_meta d)) (\<lambda>objv.
              c_bind (run_proc \<lparr>tw_command = tap_tcl_headers_meta T, tw_input = minuted_tap_input_proc,
                                tw_output = minuted_tap_no_out_proc\<rparr> i v_payload objv r d) (\<lambda>(code, res, r, d).
              c_bind (minuted_tap_inputclose_proc r) (\<lambda>r.
              c_bind (c_step (payload_result T code res d)) (\<lambda>(status, d). Some (Some (status, r, d))))))))"

definition response_result ::
    "'o tcl \<Rightarrow> int \<Rightarrow> 'o \<Rightarrow> ('o, 's) tap_rq_data \<Rightarrow> int \<times> ('o, 's) tap_rq_data" where
  "response_result T code res d =
     (if code \<noteq> TCL_OK then (1, say CHR ''E'' (''Response processing failed: '' @ Tcl_GetString T res) d) else (0, d))"

definition minuted_tap_response ::
    "'o tcl \<Rightarrow> int \<Rightarrow> httpd_response \<Rightarrow> ('o, 's) tap_rq_data \<Rightarrow> (int \<times> httpd_response \<times> ('o, 's) tap_rq_data) c_loop" where
  "minuted_tap_response T status r d =
     (case d_vhost d of
        None \<Rightarrow> Some (Some (1, r, d))
      | Some i \<Rightarrow>
          (case tap_create_meta T d of (o_meta, d) \<Rightarrow>
            c_bind (c_step (payload_objv T s_response o_meta d)) (\<lambda>objv.
            c_bind (run_proc \<lparr>tw_command = tap_tcl_response_meta T, tw_input = minuted_tap_input_proc,
                              tw_output = minuted_tap_output_proc\<rparr> i v_response objv r d) (\<lambda>(code, res, r, d).
            c_bind (minuted_tap_close_proc r) (\<lambda>r.
              case response_result T code res d of (k, d) \<Rightarrow> Some (Some (k, r, d)))))))"

definition minuted_tap_error :: "minute_http_rq \<Rightarrow> int \<Rightarrow> ('o, 's) tap_rq_data \<Rightarrow> ('o, 's) tap_rq_data" where
  "minuted_tap_error rq status d =
     say CHR ''E'' (''Read failure: '' @ fmt_d status @ '' '' @ minute_http_response_text status) d"

section \<open>A connection\<close>

definition minuted_tap_method_name :: "http_method \<Rightarrow> string" where
  "minuted_tap_method_name m = (case m of
       http_get \<Rightarrow> ''GET'' | http_post \<Rightarrow> ''POST'' | http_put \<Rightarrow> ''PUT'' | http_delete \<Rightarrow> ''DELETE''
     | http_head \<Rightarrow> ''HEAD'' | http_options \<Rightarrow> ''OPTIONS'' | http_trace \<Rightarrow> ''TRACE'' | http_connect \<Rightarrow> ''CONNECT''
     | _ \<Rightarrow> ''???'')"

text \<open>The line of the access log; the address of the socket, as \<open>inet_ntop\<close> writes it, is an
  argument.\<close>

definition minuted_tap_access :: "'o tcl \<Rightarrow> string \<Rightarrow> ('o, 's) tap_rq_data \<Rightarrow> ('o, 's) tap_rq_data" where
  "minuted_tap_access T addr d =
     (let query = (case d_query d of Some q \<Rightarrow> Tcl_GetString T q | None \<Rightarrow> []) in
      say CHR ''A'' (addr @ '' '' @ (case d_host d of Some h \<Rightarrow> Tcl_GetString T h | None \<Rightarrow> ''unknown'') @ '' ''
        @ minuted_tap_method_name (d_method d) @ '' ''
        @ (case d_path d of Some p \<Rightarrow> Tcl_GetString T p | None \<Rightarrow> ''<none>'')
        @ (if query \<noteq> [] then ''?'' else []) @ query @ '' '' @ fmt_d (d_code d)) d)"

definition minuted_tap_app :: "'o tcl \<Rightarrow> ('o, 's) tap_rq_data minute_httpd_app" where
  "minuted_tap_app T =
     \<lparr>app_header = minuted_tap_head T, app_payload = minuted_tap_payload T,
      app_response = minuted_tap_response T, app_error = minuted_tap_error\<rparr>"

text \<open>What follows one call of \<open>minute_httpd_handle\<close> in the loop.\<close>

definition tap_handled :: "'o tcl \<Rightarrow> string \<Rightarrow> int \<Rightarrow> ('o, 's) tap_rq_data \<Rightarrow> int \<times> ('o, 's) tap_rq_data" where
  "tap_handled T addr r d =
     (case if r < 0 then (httpd_client_ok_close, d\<lparr>d_code := - r\<rparr>) else (r, d) of (r, d) \<Rightarrow>
        (r, minuted_tap_reset
              (if r = httpd_client_ok_open \<or> r = httpd_client_ok_close then minuted_tap_access T addr d else d)))"

text \<open>The requests of a connection, at the times \<open>clock\<close> tells.\<close>

partial_function (option) tap_loop ::
    "'o tcl \<Rightarrow> (int \<Rightarrow> tm) \<Rightarrow> (nat \<Rightarrow> unsigned) \<Rightarrow> string \<Rightarrow> nat \<Rightarrow> minute_httpd_state \<Rightarrow> world
     \<Rightarrow> ('o, 's) tap_rq_data \<Rightarrow> (int \<times> world \<times> ('o, 's) tap_rq_data) c_loop" where
  "tap_loop T gmtime clock addr k st w d =
     c_bind (minute_httpd_handle (minuted_tap_app T) gmtime (clock k) st w d) (\<lambda>(r, st, w, d).
       case tap_handled T addr r d of (r, d) \<Rightarrow>
         if r = httpd_client_ok_open then tap_loop T gmtime clock addr (Suc k) st w d
         else Some (Some (r, w, d)))"

declare tap_loop.simps [code]

definition fresh_data :: "('o, 's) tap_runtime \<Rightarrow> nat \<Rightarrow> unsigned \<Rightarrow> ('o, 's) tap_rq_data" where
  "fresh_data tr listenId cmdno =
     \<lparr>d_rs = tr, d_listenId = listenId, d_vhost = None, d_path = None, d_query = None, d_host = None,
      d_method = http_unknown_method, d_status = None, d_code = 0, d_cmdno = cmdno, d_log = []\<rparr>"

text \<open>The three buffers of the connection come from the stack.\<close>

definition minuted_tap_handle ::
    "'o tcl \<Rightarrow> (int \<Rightarrow> tm) \<Rightarrow> (nat \<Rightarrow> unsigned) \<Rightarrow> string \<Rightarrow> bytes \<Rightarrow> bytes \<Rightarrow> bytes \<Rightarrow> int \<Rightarrow> nat
     \<Rightarrow> ('o, 's) tap_runtime \<Rightarrow> unsigned \<Rightarrow> world \<Rightarrow> (int \<times> world \<times> ('o, 's) tap_rq_data) c_loop" where
  "minuted_tap_handle T gmtime clock addr inbuf outbuf textbuf sock listenId tr cmdno w =
     tap_loop T gmtime clock addr 0
       (minute_httpd_init sock sock (minute_iobuf_init 0x100 inbuf) (minute_iobuf_init 0x400 outbuf)
          (minute_textint_init 0x400 textbuf)) w
       (minuted_tap_reset (fresh_data tr listenId cmdno))"


section \<open>Values as data\<close>

text \<open>An instance of \<open>tcl\<close> for examples: values are data, compared by their string.\<close>

datatype tcl_value =
    V_string string
  | V_int int
  | V_list "tcl_value list"
  | V_dict "(tcl_value \<times> tcl_value) list"

fun value_string :: "tcl_value \<Rightarrow> string" where
  "value_string (V_string s) = s"
| "value_string (V_int i) = fmt_d i"
| "value_string (V_list []) = []"
| "value_string (V_list [v]) = value_string v"
| "value_string (V_list (v # vs)) = value_string v @ '' '' @ value_string (V_list vs)"
| "value_string (V_dict es) = []"

definition data_tcl :: "tcl_value tcl" where
  "data_tcl =
     \<lparr>Tcl_GetString = value_string, Tcl_NewStringObj = V_string, Tcl_NewIntObj = V_int, Tcl_NewListObj = V_list,
      Tcl_NewDictObj = V_dict [],
      Tcl_GetIntFromObj = (\<lambda>v. case v of V_int i \<Rightarrow> Some i | V_list [V_int i] \<Rightarrow> Some i | _ \<Rightarrow> None),
      Tcl_ListObjLength = (\<lambda>v. case v of V_list vs \<Rightarrow> Some (length vs) | V_dict es \<Rightarrow> None | _ \<Rightarrow> Some 1),
      Tcl_ListObjIndex = (\<lambda>v i. case v of V_list vs \<Rightarrow> Some (if i < length vs then Some (vs ! i) else None)
                              | V_dict es \<Rightarrow> None | v \<Rightarrow> Some (if i = 0 then Some v else None)),
      Tcl_DictObjGet = (\<lambda>v k. case v of V_dict es \<Rightarrow> Some (entries_get value_string (value_string k) es) | _ \<Rightarrow> None),
      Tcl_DictObjPut = (\<lambda>v k x. case v of V_dict es \<Rightarrow> Some (V_dict (entries_put value_string k x es)) | _ \<Rightarrow> None),
      Tcl_DictObjAll = (\<lambda>v. case v of V_dict es \<Rightarrow> Some es | _ \<Rightarrow> None)\<rparr>"

text \<open>One virtual host, the default of one listener, that sets a header and writes a word.\<close>

definition demo_vhost :: "(tcl_value, unit) tap_vhost" where
  "demo_vhost =
     \<lparr>v_tcl = (), v_flags = TAP_NO_PAYLOAD,
      v_headers = (\<lambda>objv s. Tcl_command [objv ! 3, V_string ''add-header'', V_string ''content-type'', V_string ''text/plain'']
                      (\<lambda>a. Tcl_done TCL_OK (V_list [V_int 200]) s)),
      v_payload = (\<lambda>objv s. Tcl_done TCL_ERROR (V_string []) s),
      v_response = (\<lambda>objv s. Tcl_output ''hello'' (\<lambda>n. Tcl_done TCL_OK (V_string []) s))\<rparr>"

definition demo_runtime :: "(tcl_value, unit) tap_runtime" where
  "demo_runtime =
     \<lparr>tr_vhostMap = V_dict [(V_string ''default'', V_int 0)],
      tr_vhostListen = [V_dict [(V_string ''default'', V_dict [])]], tr_v = [demo_vhost], tr_nv = 1\<rparr>"


lemma data_tcl_laws: "tcl_laws data_tcl"
  by (auto simp: tcl_laws_def data_tcl_def split: tcl_value.split)


section \<open>The choice of a virtual host\<close>

lemma host_number_Inr:
  assumes "host_number T choice d = (Inr i, d')"
  obtains vhost num host where "choice = Chosen (Some vhost) (Some num) host" "d' = d"
    "Tcl_GetIntFromObj T num = Some (int i)" "int i \<le> tr_nv (d_rs d)"
  using assms
  by (cases choice rule: host_choice.exhaust) (auto simp: host_number_def split: option.splits if_splits)

lemma head_request_Inr:
  assumes "head_request T rq text d = Some (Inr i, d')"
  obtains path query host vhost num acthost where
    "host_loop 0 (sint (minute_textint_intsize text)) text s_default = Some host"
    "d_listenId d < length (tr_vhostListen (d_rs d))"
    "choose_host T (tr_vhostListen (d_rs d) ! d_listenId d) (tr_vhostMap (d_rs d))
       (Tcl_NewStringObj T host) (Tcl_NewStringObj T s_default) = Chosen (Some vhost) (Some num) acthost"
    "Tcl_GetIntFromObj T num = Some (int i)" "int i \<le> tr_nv (d_rs d)"
    "d' = d\<lparr>d_host := Some acthost, d_path := Some path, d_query := Some query\<rparr>"
proof -
  obtain path query host where 1:
      "host_loop 0 (sint (minute_textint_intsize text)) text s_default = Some host"
      "d_listenId d < length (tr_vhostListen (d_rs d))"
      "host_number T (choose_host T (tr_vhostListen (d_rs d) ! d_listenId d) (tr_vhostMap (d_rs d))
         (Tcl_NewStringObj T host) (Tcl_NewStringObj T s_default))
        (d\<lparr>d_host := Some (act_host (choose_host T (tr_vhostListen (d_rs d) ! d_listenId d) (tr_vhostMap (d_rs d))
             (Tcl_NewStringObj T host) (Tcl_NewStringObj T s_default))),
           d_path := Some (Tcl_NewStringObj T path), d_query := Some (Tcl_NewStringObj T query)\<rparr>) = (Inr i, d')"
    using assms by (auto simp: head_request_def Let_def bind_eq_Some_conv split: if_split_asm)
  from 1(3) show ?thesis by (rule host_number_Inr) (use 1(1,2) that in \<open>auto simp: act_host_def\<close>)
qed

end
