(* ===== verification/Tap_Acts.thy ===== *)
theory Tap_Acts
  imports Tap Httpd_Serve
begin

text \<open>
  The effect of a Tcl application's procedures (\<open>src/minuted/tap.c\<close>) without a connection: the
  headers they set, the status, the pieces they write, and what they may read of the payload; and
  that running them on a connection has this effect.
\<close>

section \<open>Sending leaves the request alone\<close>

definition same_request :: "httpd_response \<Rightarrow> httpd_response \<Rightarrow> bool" where
  "same_request r r' \<longleftrightarrow> r_rq r' = r_rq r \<and> r_text r' = r_text r"

lemma same_request_simps [simp]:
  "same_request r r" "same_request r (put_out io r') = same_request r r'"
  "same_request r (hang_up r') = same_request r r'" "same_request r (r'\<lparr>r_world := w\<rparr>) = same_request r r'"
  by (simp_all add: same_request_def put_out_def hang_up_def)

lemma same_request_trans: "same_request r r' \<Longrightarrow> same_request r' r'' \<Longrightarrow> same_request r r''"
  by (simp add: same_request_def)

lemma send_out_request: "send_out xs r = (n, r') \<Longrightarrow> same_request r r'"
  by (auto simp: send_out_def split: prod.splits)

lemma chunk_request:
  assumes "minute_httpd_chunk buf cnt chunked r = Some (Some (n, r'))"
  shows "same_request r r'"
proof -
  have "case z of Some (n, r') \<Rightarrow> same_request r r' | None \<Rightarrow> True"
    if "minute_httpd_chunk buf cnt chunked r = Some z" for buf cnt chunked r z
  proof (rule minute_httpd_chunk.raw_induct [OF _ that])
    fix f buf cnt chunked r z
    assume f: "\<And>buf cnt chunked r z. f buf cnt chunked r = Some z
        \<Longrightarrow> case z of Some (n, r') \<Rightarrow> same_request r r' | None \<Rightarrow> True"
      and z: "(let used = minute_iobuf_used (r_out r); tot = used + cnt;
          prefix = of_nat (length (chunk_prefix chunked tot))
      in if tot = 0 then Some (Some (0, r))
         else c_bind (c_step (chunk_vector buf cnt chunked (r_out r))) (\<lambda>v.
           case send_out v r of (n, r1) \<Rightarrow>
             if 0 < n then
               if word_of_int n < prefix then Some (Some (-1, r1))
               else
                 let taken = (if word_of_int n < prefix + used then word_of_int n - prefix else used);
                     cwritten = (if word_of_int n < prefix + used then 0 else word_of_int n - prefix - used);
                     r2 = put_out ((r_out r1)\<lparr>io_read := io_read (r_out r1) + taken\<rparr>) r1
                 in if word_of_int n < tot then
                      c_bind (f (drop (unat cwritten) buf) (cnt - cwritten) False r2)
                        (\<lambda>(rr, r3). if rr < 1 then Some (Some (rr, r3)) else Some (Some (n + rr, r3)))
                    else Some (Some (n, r2))
             else Some (Some (n, hang_up r1)))) = Some z"
    show "case z of Some (n, r') \<Rightarrow> same_request r r' | None \<Rightarrow> True"
    proof (cases z)
      case (Some a)
      obtain n q where a: "z = Some (n, q)" using Some by (cases a) auto
      have g: "f b' c' h' r1 = Some (Some (n', q')) \<Longrightarrow> same_request r1 q'" for b' c' h' r1 n' q' using f by fastforce
      show ?thesis
        using z unfolding a Let_def
        by (auto simp: c_step_Some elim!: c_bindE split: if_split_asm prod.split_asm
            dest!: g send_out_request) (auto simp: same_request_def put_out_def)
    qed simp
  qed
  then show ?thesis using assms by fastforce
qed

lemma output_request:
  assumes "minute_httpd_output buf cnt chunked r = Some (Some (n, r'))"
  shows "same_request r r'" "n = sint cnt"
  using assms by (auto simp: minute_httpd_output_def c_step_Some elim!: c_bindE split: if_split_asm dest: chunk_request)

lemma header_request:
  assumes "minute_httpd_header h v r = Some (Some r')"
  shows "same_request r r'"
  using assms by (auto simp: minute_httpd_header_def minute_httpd_print_def elim!: c_bindE
      dest!: output_request(1) intro: same_request_trans)

lemma header_all_request: "header_all hs r = Some (Some r') \<Longrightarrow> same_request r r'"
  by (induction hs arbitrary: r) (auto elim!: c_bindE dest!: header_request intro: same_request_trans)

lemma c_bind_cong_result:
  assumes "\<And>a. m = Some (Some a) \<Longrightarrow> f a = g a"
  shows "c_bind m f = c_bind m g"
  using assms by (cases m) (auto simp: c_bind_def split: option.splits)

section \<open>What a procedure does\<close>

text \<open>A call of the command in the head: the headers it sets, its code and its result.\<close>

definition command_acts ::
    "'o tcl \<Rightarrow> minute_http_rq \<Rightarrow> textint \<Rightarrow> 'o list
     \<Rightarrow> ((http_response_header \<times> string) list \<times> int \<times> 'o option) option" where
  "command_acts T rq text objv =
     (if length objv < 2 then Some ([], TCL_ERROR, None)
      else let cmdno = minuted_tap_binary_search (Tcl_GetString T (objv ! 1)) [''add-header'', ''get-header''] 2 in
        if cmdno = 0 then
          if length objv \<noteq> 4 then Some ([], TCL_ERROR, None)
          else let h = minuted_tap_response_header (Tcl_GetString T (objv ! 2)) in
            if h = http_rsp_unknown_header then Some ([], TCL_ERROR, None)
            else Some ([(h, Tcl_GetString T (objv ! 3))], TCL_OK, None)
        else if cmdno = 1 then
          if length objv \<noteq> 3 then Some ([], TCL_ERROR, None)
          else map_option (Pair []) (header_value T (objv ! 2) rq text)
        else Some ([], TCL_OK, None))"

primrec head_acts ::
    "'o tcl \<Rightarrow> minute_http_rq \<Rightarrow> textint \<Rightarrow> ('o, 's) tcl_run
     \<Rightarrow> ((http_response_header \<times> string) list \<times> int \<times> 'o \<times> 's) option" where
  "head_acts T rq text (Tcl_done code res s) = Some ([], code, res, s)"
| "head_acts T rq text (Tcl_command objv k) =
     (case command_acts T rq text objv of
        None \<Rightarrow> None
      | Some (hs, a) \<Rightarrow> map_option (\<lambda>(hs', z). (hs @ hs', z)) (head_acts T rq text (k a)))"
| "head_acts T rq text (Tcl_input n k) = None"
| "head_acts T rq text (Tcl_output xs k) = None"

text \<open>In the response: \<open>get-header\<close>, and the pieces written.\<close>

definition response_command ::
    "'o tcl \<Rightarrow> minute_http_rq \<Rightarrow> textint \<Rightarrow> 'o list \<Rightarrow> (int \<times> 'o option) option" where
  "response_command T rq text objv =
     (if length objv < 2 then Some (TCL_ERROR, None)
      else if minuted_tap_binary_search (Tcl_GetString T (objv ! 1)) [''get-header''] 1 = 0 then
        if length objv \<noteq> 3 then Some (TCL_ERROR, None) else header_value T (objv ! 2) rq text
      else Some (TCL_OK, None))"

primrec body_acts ::
    "'o tcl \<Rightarrow> minute_http_rq \<Rightarrow> textint \<Rightarrow> ('o, 's) tcl_run \<Rightarrow> (bytes list \<times> int \<times> 'o \<times> 's) option" where
  "body_acts T rq text (Tcl_done code res s) = Some ([], code, res, s)"
| "body_acts T rq text (Tcl_command objv k) =
     (case response_command T rq text objv of None \<Rightarrow> None | Some a \<Rightarrow> body_acts T rq text (k a))"
| "body_acts T rq text (Tcl_input n k) = None"
| "body_acts T rq text (Tcl_output xs k) =
     map_option (\<lambda>(bs, z). (xs # bs, z)) (body_acts T rq text (k (sint (of_nat (length xs) :: unsigned))))"

lemma command_acts_exec:
  assumes "command_acts T (r_rq r) (r_text r) objv = Some (hs, code, res)"
  shows "tap_tcl_headers_meta T objv r = c_bind (header_all hs r) (\<lambda>r. Some (Some (code, res, r)))"
  using assms
  by (auto simp: command_acts_def tap_tcl_headers_meta_def tap_tcl_add_header_def tap_tcl_get_header_def
      Let_def c_bind_assoc split: if_splits)

lemma head_acts_exec:
  assumes "tw_command W = tap_tcl_headers_meta T"
  shows "head_acts T (r_rq r) (r_text r) t = Some (hs, code, res, s)
    \<Longrightarrow> tcl_exec W t r = c_bind (header_all hs r) (\<lambda>r. Some (Some (code, res, s, r)))"
proof (induction t arbitrary: r hs)
  case (Tcl_command objv k)
  obtain hs1 c a hs2 where 1: "command_acts T (r_rq r) (r_text r) objv = Some (hs1, c, a)"
      "head_acts T (r_rq r) (r_text r) (k (c, a)) = Some (hs2, code, res, s)" "hs = hs1 @ hs2"
    using Tcl_command.prems by (auto split: option.splits)
  have "tcl_exec W (k (c, a)) r1 = c_bind (header_all hs2 r1) (\<lambda>r. Some (Some (code, res, s, r)))"
    if "header_all hs1 r = Some (Some r1)" for r1
    using Tcl_command.IH [of "k (c, a)" r1 hs2] header_all_request [OF that] 1(2)
    by (auto simp: same_request_def)
  then have "c_bind (header_all hs1 r) (\<lambda>r1. tcl_exec W (k (c, a)) r1)
      = c_bind (header_all hs1 r) (\<lambda>r1. c_bind (header_all hs2 r1) (\<lambda>r. Some (Some (code, res, s, r))))"
    by (rule c_bind_cong_result)
  then show ?case
    using command_acts_exec [OF 1(1)] 1(3) assms by (simp add: header_all_append c_bind_assoc)
qed auto


lemma response_command_exec:
  assumes "response_command T (r_rq r) (r_text r) objv = Some (code, res)"
  shows "tap_tcl_response_meta T objv r = Some (Some (code, res, r))"
  using assms
  by (auto simp: response_command_def tap_tcl_response_meta_def tap_tcl_get_header_def Let_def split: if_splits)

lemma body_acts_exec:
  assumes "tw_command W = tap_tcl_response_meta T" "tw_output W = minuted_tap_output_proc"
  shows "body_acts T (r_rq r) (r_text r) t = Some (bs, code, res, s)
    \<Longrightarrow> tcl_exec W t r = c_bind (write_all bs r) (\<lambda>r. Some (Some (code, res, s, r)))"
proof (induction t arbitrary: r bs)
  case (Tcl_command objv k)
  then obtain a where "response_command T (r_rq r) (r_text r) objv = Some a"
      "body_acts T (r_rq r) (r_text r) (k a) = Some (bs, code, res, s)"
    by (auto split: option.splits)
  then show ?case
    using Tcl_command.IH [of "k a" r bs] response_command_exec [of T r objv "fst a" "snd a"] assms(1) by simp
next
  case (Tcl_output xs k)
  let ?n = "of_nat (length xs) :: unsigned"
  obtain bs' where 1: "body_acts T (r_rq r) (r_text r) (k (sint ?n)) = Some (bs', code, res, s)" "bs = xs # bs'"
    using Tcl_output.prems by auto
  have "tcl_exec W (k n) r1 = c_bind (write_all bs' r1) (\<lambda>r. Some (Some (code, res, s, r)))"
    if "minute_httpd_write xs ?n r = Some (Some (n, r1))" for n r1
  proof -
    have "same_request r r1" "n = sint ?n" using that output_request unfolding minute_httpd_write_def by blast+
    then show ?thesis using Tcl_output.IH [of "k n" r1 bs'] 1(1) by (auto simp: same_request_def)
  qed
  then have "c_bind (minute_httpd_write xs ?n r) (\<lambda>z. tcl_exec W (k (fst z)) (snd z))
      = c_bind (minute_httpd_write xs ?n r) (\<lambda>z. c_bind (write_all bs' (snd z)) (\<lambda>r. Some (Some (code, res, s, r))))"
    by (intro c_bind_cong_result) (auto simp: split_paired_all)
  then show ?case
    using 1(2) assms(2) by (simp add: c_bind_assoc minuted_tap_output_proc_def case_prod_unfold)
qed auto


section \<open>The answer of an application\<close>

text \<open>The head of the answer, without a connection: the headers, the status and the new data.\<close>

definition tap_head_acts ::
    "'o tcl \<Rightarrow> minute_http_rq \<Rightarrow> textint \<Rightarrow> ('o, 's) tap_rq_data
     \<Rightarrow> ((http_response_header \<times> string) list \<times> int \<times> ('o, 's) tap_rq_data) option" where
  "tap_head_acts T rq text d = do {
     (choice, d) \<leftarrow> head_request T rq text d;
     (case choice of
        Inl res \<Rightarrow> Some ([], res, head_done rq res d)
      | Inr i \<Rightarrow>
          (case tap_create_meta T (d\<lparr>d_vhost := Some i\<rparr>) of (o_meta, d) \<Rightarrow>
             if i < length (tr_v (d_rs d)) then do {
               (hs, code, res, s) \<leftarrow> head_acts T rq text
                 (v_headers (tr_v (d_rs d) ! i) (head_objv T o_meta d) (v_tcl (tr_v (d_rs d) ! i)));
               (status, d) \<leftarrow> head_result T code res (set_interp i s d);
               Some (hs, status, head_done rq status d)
             }
             else None))
   }"

text \<open>The body: without a virtual host, and when the procedure fails before it has written
  anything, it is the standard one.\<close>

definition tap_body_acts ::
    "'o tcl \<Rightarrow> minute_http_rq \<Rightarrow> textint \<Rightarrow> int \<Rightarrow> ('o, 's) tap_rq_data
     \<Rightarrow> (bytes list \<times> bool \<times> ('o, 's) tap_rq_data) option" where
  "tap_body_acts T rq text status d =
     (case d_vhost d of
        None \<Rightarrow> Some ([], True, d)
      | Some i \<Rightarrow>
          (case tap_create_meta T d of (o_meta, d) \<Rightarrow>
             if i < length (tr_v (d_rs d)) then do {
               objv \<leftarrow> payload_objv T s_response o_meta d;
               (bs, code, res, s) \<leftarrow> body_acts T rq text
                 (v_response (tr_v (d_rs d) ! i) objv (v_tcl (tr_v (d_rs d) ! i)));
               (case response_result T code res (set_interp i s d) of (k, d) \<Rightarrow> Some (bs, k \<noteq> 0, d))
             }
             else None))"

lemma c_step_bind: "c_bind (c_step m) f = (case m of None \<Rightarrow> Some None | Some a \<Rightarrow> f a)"
  by (cases m) simp_all

lemma tap_head_acts_exec:
  assumes "tap_head_acts T (r_rq r) (r_text r) d = Some (hs, status, d')"
  shows "minuted_tap_head T r d = c_bind (header_all hs r) (\<lambda>r. Some (Some (status, r, d')))"
proof -
  obtain choice d1 where 1: "head_request T (r_rq r) (r_text r) d = Some (choice, d1)"
    using assms by (auto simp: tap_head_acts_def bind_eq_Some_conv)
  show ?thesis
  proof (cases choice)
    case (Inl res)
    then show ?thesis using assms 1 by (auto simp: tap_head_acts_def minuted_tap_head_def)
  next
    case (Inr i)
    obtain o_meta d2 where 2: "tap_create_meta T (d1\<lparr>d_vhost := Some i\<rparr>) = (o_meta, d2)"
      by (cases "tap_create_meta T (d1\<lparr>d_vhost := Some i\<rparr>)")
    obtain code res s d3 where 3: "i < length (tr_v (d_rs d2))"
        "head_acts T (r_rq r) (r_text r)
           (v_headers (tr_v (d_rs d2) ! i) (head_objv T o_meta d2) (v_tcl (tr_v (d_rs d2) ! i))) = Some (hs, code, res, s)"
        "head_result T code res (set_interp i s d2) = Some (status, d3)" "d' = head_done (r_rq r) status d3"
      using assms 1 2 Inr by (auto simp: tap_head_acts_def bind_eq_Some_conv split: if_splits)
    have rq: "header_all hs r = Some (Some r1) \<Longrightarrow> r_rq r1 = r_rq r" for r1
      using header_all_request [of hs r r1] by (simp add: same_request_def)
    have "c_bind (header_all hs r) (\<lambda>r1. Some (Some (status, r1, head_done (r_rq r1) status d3)))
        = c_bind (header_all hs r) (\<lambda>r1. Some (Some (status, r1, d')))"
      by (rule c_bind_cong_result) (simp add: rq 3(4))
    then show ?thesis
      using 1 2 3(1,3) Inr head_acts_exec [OF _ 3(2)]
      by (simp add: minuted_tap_head_def run_proc_def c_bind_assoc Let_def)
  qed
qed

section \<open>Reading the payload\<close>

text \<open>In the payload procedure: headers as in the head, and reads.  A read takes what has arrived,
  any number of the bytes that are left up to what it asks for, and at least one while there are
  any.  The channel cannot be written to.\<close>

inductive payload_acts ::
    "'o tcl \<Rightarrow> minute_http_rq \<Rightarrow> textint \<Rightarrow> ('o, 's) tcl_run \<Rightarrow> bytes
     \<Rightarrow> (http_response_header \<times> string) list \<Rightarrow> int \<times> 'o \<times> 's \<Rightarrow> bool"
  for T :: "'o tcl" and rq :: minute_http_rq and tx :: textint where
  acts_done: "payload_acts T rq tx (Tcl_done code res s) p [] (code, res, s)"
| acts_command: "command_acts T rq tx objv = Some (hs, a) \<Longrightarrow> payload_acts T rq tx (k a) p hs' z
    \<Longrightarrow> payload_acts T rq tx (Tcl_command objv k) p (hs @ hs') z"
| acts_input: "j \<le> n \<Longrightarrow> j \<le> length p \<Longrightarrow> p \<noteq> [] \<longrightarrow> 0 < j
    \<Longrightarrow> payload_acts T rq tx (k (int j, take j p)) (drop j p) hs z
    \<Longrightarrow> payload_acts T rq tx (Tcl_input n k) p hs z"
| acts_output: "payload_acts T rq tx (k (-1)) p hs z \<Longrightarrow> payload_acts T rq tx (Tcl_output xs k) p hs z"

text \<open>A procedure that stays within the model however its reads are cut: its headers have values,
  and no read may find the ring of \<open>room\<close> bytes completely full.\<close>

primrec payload_fine ::
    "'o tcl \<Rightarrow> minute_http_rq \<Rightarrow> textint \<Rightarrow> nat \<Rightarrow> ('o, 's) tcl_run \<Rightarrow> bytes \<Rightarrow> bool" where
  "payload_fine T rq text room (Tcl_done code res s) p \<longleftrightarrow> True"
| "payload_fine T rq text room (Tcl_command objv k) p \<longleftrightarrow> (case command_acts T rq text objv of
       None \<Rightarrow> False
     | Some (hs, a) \<Rightarrow> [] \<notin> snd ` set hs \<and> payload_fine T rq text room (k a) p)"
| "payload_fine T rq text room (Tcl_input n k) p \<longleftrightarrow> 0 < n \<and> n < 2 ^ 31 \<and> min n (length p) < room
     \<and> (\<forall>j \<in> set [0..<Suc (min n (length p))]. (p \<noteq> [] \<longrightarrow> 0 < j)
          \<longrightarrow> payload_fine T rq text room (k (int j, take j p)) (drop j p))"
| "payload_fine T rq text room (Tcl_output xs k) p \<longleftrightarrow> payload_fine T rq text room (k (-1)) p"

text \<open>All of its runs, as a list.\<close>

primrec payload_runs ::
    "'o tcl \<Rightarrow> minute_http_rq \<Rightarrow> textint \<Rightarrow> ('o, 's) tcl_run \<Rightarrow> bytes
     \<Rightarrow> ((http_response_header \<times> string) list \<times> int \<times> 'o \<times> 's) list" where
  "payload_runs T rq text (Tcl_done code res s) p = [([], code, res, s)]"
| "payload_runs T rq text (Tcl_command objv k) p = (case command_acts T rq text objv of
       None \<Rightarrow> []
     | Some (hs, a) \<Rightarrow> map (\<lambda>(hs', z). (hs @ hs', z)) (payload_runs T rq text (k a) p))"
| "payload_runs T rq text (Tcl_input n k) p =
     concat (map (\<lambda>j. payload_runs T rq text (k (int j, take j p)) (drop j p))
       [if p = [] then 0 else 1..<Suc (min n (length p))])"
| "payload_runs T rq text (Tcl_output xs k) p = payload_runs T rq text (k (-1)) p"

lemma payload_acts_runs:
  "payload_acts T rq text t p hs z \<Longrightarrow> (hs, z) \<in> set (payload_runs T rq text t p)"
  by (induction rule: payload_acts.induct) (auto simp del: upt_Suc simp: less_Suc_eq_le Suc_le_eq)

lemma payload_fine_acts: "payload_fine T rq text room t p \<Longrightarrow> \<exists>hs z. payload_acts T rq text t p hs z"
proof (induction t arbitrary: p)
  case (Tcl_command objv k)
  then show ?case by (fastforce split: option.splits intro: acts_command)
next
  case (Tcl_input n k)
  let ?j = "min n (length p)"
  have "payload_fine T rq text room (k (int ?j, take ?j p)) (drop ?j p)"
    using Tcl_input.prems by (auto simp: min_def)
  then obtain hs z where "payload_acts T rq text (k (int ?j, take ?j p)) (drop ?j p) hs z"
    using Tcl_input.IH by blast
  then have "payload_acts T rq text (Tcl_input n k) p hs z"
    by (rule acts_input [rotated 3]) (use Tcl_input.prems in auto)
  then show ?case by blast
qed (fastforce intro: acts_done acts_output)+

text \<open>A read of the channel.\<close>

lemma input_proc_takes:
  assumes "owes p r" "0 < m" "m < 2 ^ 31" "min m (length p) < iobuf_size (r_in r)"
  obtains j r1 where "minuted_tap_input_proc m r = Some (Some (int j, take j p, r1))" "takes p j r r1"
    "same_output r r1" "iobuf_size (r_in r1) = iobuf_size (r_in r)" "j \<le> m" "j \<le> length p" "p \<noteq> [] \<longrightarrow> 0 < j"
proof -
  have u: "unat (of_nat m :: unsigned) = m" using assms(3) by (intro unat_of_nat_small) simp
  have "nat (r_pending r) \<le> length p" using assms(1) by (auto simp: owes_def PENDING_EOF_def)
  then have ro: "read_ok (Some (replicate m NUL)) (of_nat m) r"
    using assms(4) by (auto simp: read_ok_def u)
  obtain j r1 where 1: "minute_httpd_in_read (Some (replicate m NUL)) (of_nat m) r = Some (Some (int j,
        map_option (\<lambda>d. take j p @ drop j d) (Some (replicate m NUL)), r1))"
      "takes p j r r1" "same_output r r1" "io_mask (r_in r1) = io_mask (r_in r)" "j \<le> m" "p \<noteq> [] \<longrightarrow> 0 < j"
    using in_read_owes [OF assms(1) ro] assms(2,3) u by (auto simp del: option.map_sel)
  moreover have "j \<le> length p" using 1(2) by (simp add: takes_def)
  then have "minuted_tap_input_proc m r = Some (Some (int j, take j p, r1))"
    using 1(1) by (simp add: minuted_tap_input_proc_def)
  ultimately show ?thesis using that \<open>j \<le> length p\<close> by (simp add: iobuf_size_def)
qed

lemma payload_exec:
  assumes "tw_command W = tap_tcl_headers_meta T" "tw_input W = minuted_tap_input_proc"
    "tw_output W = minuted_tap_no_out_proc"
  shows "payload_fine T (r_rq r) (r_text r) (iobuf_size (r_in r)) t p \<Longrightarrow> owes p r
    \<Longrightarrow> \<forall>hs z. payload_acts T (r_rq r) (r_text r) t p hs z \<longrightarrow> length (header_lines hs) \<le> H
    \<Longrightarrow> length (outb r) + H \<le> iobuf_size (r_out r) \<Longrightarrow> iobuf_size (r_out r) < 2 ^ 30 \<Longrightarrow> out_ok (n + H) r
    \<Longrightarrow> \<exists>hs code res s r' k. tcl_exec W t r = Some (Some (code, res, s, r'))
          \<and> payload_acts T (r_rq r) (r_text r) t p hs (code, res, s)
          \<and> adds_lines [] (header_lines hs) r r' \<and> takes p k r r' \<and> out_ok n r'"
proof (induction t arbitrary: r p H)
  case (Tcl_done code res s)
  have "out_ok n r" using Tcl_done.prems(6) by (rule out_ok_mono) simp
  moreover have "adds_lines [] (header_lines []) r r" by (simp add: adds_lines_def header_lines_def)
  ultimately show ?case
    using takes_none [OF Tcl_done.prems(2)] acts_done
    by (intro exI [of _ "[]"] exI [of _ code] exI [of _ res] exI [of _ s] exI [of _ r] exI [of _ 0]) simp
next
  case (Tcl_command objv k)
  let ?rq = "r_rq r" and ?text = "r_text r" and ?room = "iobuf_size (r_in r)"
  obtain hs c a where 1: "command_acts T ?rq ?text objv = Some (hs, c, a)" "[] \<notin> snd ` set hs"
      "payload_fine T ?rq ?text ?room (k (c, a)) p"
    using Tcl_command.prems(1) by (auto split: option.splits)
  have H: "length (header_lines hs) + length (header_lines hs') \<le> H"
    if "payload_acts T ?rq ?text (k (c, a)) p hs' z" for hs' z
    using Tcl_command.prems(3) acts_command [OF 1(1), where k = k, OF that] header_lines_append [of hs hs']
    by (metis length_append)
  obtain hs0 z0 where "payload_acts T ?rq ?text (k (c, a)) p hs0 z0" using payload_fine_acts [OF 1(3)] by blast
  then have le: "length (header_lines hs) \<le> H" using H by fastforce
  let ?H = "H - length (header_lines hs)"
  have o: "out_ok ((n + ?H) + length (header_lines hs)) r"
    using Tcl_command.prems(6) by (rule out_ok_mono) (use le in simp)
  obtain r1 where 2: "header_all hs r = Some (Some r1)" "adds_lines [] (header_lines hs) r r1" "out_ok (n + ?H) r1"
      "same_but_out r r1"
    using header_all_adds [OF o 1(2)] le Tcl_command.prems(4,5) by auto
  have s: "r_rq r1 = ?rq" "r_text r1 = ?text" "iobuf_size (r_in r1) = ?room" "iobuf_size (r_out r1) = iobuf_size (r_out r)"
    using 2(4) by (simp_all add: same_but_out_def)
  have "\<exists>hs' code res s r' j. tcl_exec W (k (c, a)) r1 = Some (Some (code, res, s, r'))
      \<and> payload_acts T (r_rq r1) (r_text r1) (k (c, a)) p hs' (code, res, s)
      \<and> adds_lines [] (header_lines hs') r1 r' \<and> takes p j r1 r' \<and> out_ok n r'"
  proof (rule Tcl_command.IH [of "k (c, a)"])
    show "\<forall>hs z. payload_acts T (r_rq r1) (r_text r1) (k (c, a)) p hs z \<longrightarrow> length (header_lines hs) \<le> ?H"
      using H unfolding s by fastforce
    show "length (outb r1) + ?H \<le> iobuf_size (r_out r1)"
      using 2(2) le Tcl_command.prems(4) unfolding s by (simp add: adds_lines_def)
  qed (use 1(3) 2 Tcl_command.prems(2,5) owes_same_out [OF 2(4)] in \<open>simp_all add: s\<close>)
  then obtain hs' code res st r' j where 3: "tcl_exec W (k (c, a)) r1 = Some (Some (code, res, st, r'))"
      "payload_acts T ?rq ?text (k (c, a)) p hs' (code, res, st)" "adds_lines [] (header_lines hs') r1 r'"
      "takes p j r1 r'" "out_ok n r'" unfolding s by blast
  have "tcl_exec W (Tcl_command objv k) r = Some (Some (code, res, st, r'))"
    using command_acts_exec [OF 1(1)] 2(1) 3(1) assms(1) by simp
  moreover have "payload_acts T ?rq ?text (Tcl_command objv k) p (hs @ hs') (code, res, st)"
    using acts_command [OF 1(1), where k = k, OF 3(2)] .
  moreover have "adds_lines [] (header_lines (hs @ hs')) r r'"
    using adds_lines_trans [OF 2(2) 3(3)] by (simp add: header_lines_append)
  moreover have "takes p j r r'" using 3(4) 2(4) by (simp add: takes_def same_but_out_def conn_bytes_def)
  ultimately show ?case using 3(5) by blast
next
  case (Tcl_input m k)
  let ?rq = "r_rq r" and ?text = "r_text r" and ?room = "iobuf_size (r_in r)"
  have m: "0 < m" "m < 2 ^ 31" "min m (length p) < ?room" using Tcl_input.prems(1) by simp_all
  obtain j r1 where in': "minuted_tap_input_proc m r = Some (Some (int j, take j p, r1))" and
      1: "takes p j r r1" "same_output r r1" "iobuf_size (r_in r1) = ?room" "j \<le> m" "j \<le> length p" "p \<noteq> [] \<longrightarrow> 0 < j"
    by (rule input_proc_takes [OF Tcl_input.prems(2) m]) blast
  have s: "r_rq r1 = ?rq" "r_text r1 = ?text" "iobuf_size (r_in r1) = ?room" "r_out r1 = r_out r" "sent r1 = sent r"
    "r_flags r1 = r_flags r" "owes (drop j p) r1"
    using 1(1-3) by (simp_all add: takes_def same_output_def)
  have fine: "payload_fine T ?rq ?text ?room (k (int j, take j p)) (drop j p)"
    using Tcl_input.prems(1) 1(4-6) by (simp del: upt_Suc)
  have ok1: "out_ok (n + H) r1" using Tcl_input.prems(6) 1(2) by (simp add: out_ok_def same_output_def)
  have "\<exists>hs code res s r' i. tcl_exec W (k (int j, take j p)) r1 = Some (Some (code, res, s, r'))
      \<and> payload_acts T (r_rq r1) (r_text r1) (k (int j, take j p)) (drop j p) hs (code, res, s)
      \<and> adds_lines [] (header_lines hs) r1 r' \<and> takes (drop j p) i r1 r' \<and> out_ok n r'"
  proof (rule Tcl_input.IH [of "k (int j, take j p)"])
    show "\<forall>hs z. payload_acts T (r_rq r1) (r_text r1) (k (int j, take j p)) (drop j p) hs z \<longrightarrow> length (header_lines hs) \<le> H"
      using Tcl_input.prems(3) acts_input [OF 1(4-6), where k = k] unfolding s by blast
  qed (use fine ok1 Tcl_input.prems(4,5) in \<open>simp_all add: s\<close>)
  then obtain hs code res st r' i where 2: "tcl_exec W (k (int j, take j p)) r1 = Some (Some (code, res, st, r'))"
      "payload_acts T ?rq ?text (k (int j, take j p)) (drop j p) hs (code, res, st)"
      "adds_lines [] (header_lines hs) r1 r'" "takes (drop j p) i r1 r'" "out_ok n r'" unfolding s by blast
  have "tcl_exec W (Tcl_input m k) r = Some (Some (code, res, st, r'))" using 2(1) in' assms(2) by simp
  moreover have "adds_lines [] (header_lines hs) r r'" using 2(3) by (simp add: adds_lines_def s)
  ultimately show ?case
    using acts_input [OF 1(4-6), where k = k, OF 2(2)] takes_trans [OF 1(1) 2(4)] 2(5) by blast
next
  case (Tcl_output xs k)
  have "\<forall>hs z. payload_acts T (r_rq r) (r_text r) (k (-1)) p hs z \<longrightarrow> length (header_lines hs) \<le> H"
    using Tcl_output.prems(3) acts_output by blast
  then obtain hs code res s r' i where "tcl_exec W (k (-1)) r = Some (Some (code, res, s, r'))"
      "payload_acts T (r_rq r) (r_text r) (k (-1)) p hs (code, res, s)"
      "adds_lines [] (header_lines hs) r r'" "takes p i r r'" "out_ok n r'"
    using Tcl_output.IH [of "k (-1)" r p H] Tcl_output.prems by auto
  then show ?case using acts_output assms(3) by (fastforce simp: minuted_tap_no_out_proc_def)
qed

end
