(* ===== verification/Tap_Serve.thy ===== *)
theory Tap_Serve
  imports Tap_Acts
begin

text \<open>
  What a Tcl application promises the client, as an instance of the contract of applications: the
  effects of its procedures (\<open>Tap_Acts\<close>) as an answer, and the answer \<open>minute_httpd_handle\<close>
  gives with the callbacks of \<open>src/minuted/tap.c\<close>.
\<close>

section \<open>The body\<close>

text \<open>The driver's channel is closed with a flush.\<close>

lemma flush_sends:
  assumes "out_ok n r" "iobuf_size (r_out r) < 2 ^ 19"
  shows "\<exists>r'. minute_httpd_flush r = Some (Some r') \<and> sends (flag_set (r_flags r) httpd_te_chunked) r [] r'
    \<and> out_ok n r' \<and> outb r' = []"
proof -
  have l: "length (outb r) < 2 ^ 19"
    using assms ring.contents_bound [of "r_out r"] by (auto simp: out_ok_def)
  then have "length (outb r) < chunk_limit (flag_set (r_flags r) httpd_te_chunked)" by (simp add: chunk_limit_def)
  from flush_delivers [OF assms(1) this] obtain r' where
    r': "minute_httpd_flush r = Some (Some r')" "same_but_out r r'" "out_ok n r'" "outb r' = []"
      "sent r' = sent r @ frame (flag_set (r_flags r) httpd_te_chunked) (outb r)" by blast
  let ?fs = "if outb r = [] then [] else [outb r]"
  have "[] \<notin> set ?fs" "frame c (outb r) = concat (map (frame c) ?fs)" "concat ?fs = outb r" for c
    by (simp_all add: frame_def)
  then show ?thesis using r' unfolding sends_def
    by (intro exI [of _ r'] conjI exI [of _ ?fs]) auto
qed

lemma sends_trans:
  assumes "sends c r xs r'" "sends c r' ys r''"
  shows "sends c r (xs @ ys) r''"
proof -
  obtain fs where fs: "[] \<notin> set fs" "sent r' = sent r @ concat (map (frame c) fs)"
      "concat fs @ outb r' = outb r @ xs" using assms(1) by (auto simp: sends_def)
  obtain gs where gs: "[] \<notin> set gs" "sent r'' = sent r' @ concat (map (frame c) gs)"
      "concat gs @ outb r'' = outb r' @ ys" using assms(2) by (auto simp: sends_def)
  have "concat (fs @ gs) @ outb r'' = outb r @ xs @ ys"
    using fs(3) gs(3) by (metis append.assoc concat_append)
  then show ?thesis
    using assms same_trans fs(1,2) gs(1,2) unfolding sends_def by (intro conjI exI [of _ "fs @ gs"]) auto
qed


definition pieces_ok :: "bytes list \<Rightarrow> bool" where
  "pieces_ok bs \<longleftrightarrow> [] \<notin> set bs \<and> (\<forall>b \<in> set bs. length b < 2 ^ 19)"

text \<open>The body of an answer that is not the empty one.\<close>

lemma standard_body_sends:
  assumes "out_ok (n + length (standard_body_text status)) r" "0 \<le> status" "status < 1000"
    and "outb r = []" "134 \<le> iobuf_size (r_out r)"
  shows "\<exists>r'. minute_httpd_standard_body status r = Some (Some r')
    \<and> sends c r (standard_body_text status) r' \<and> out_ok n r'"
proof -
  obtain r' where "minute_httpd_standard_body status r = Some (Some r')" "same_but_out r r'" "out_ok n r'"
      "sent r' = sent r" "outb r' = outb r @ standard_body_text status"
    using standard_body_delivers [OF assms(1-3)] assms(4,5) by auto
  then show ?thesis unfolding sends_def by (intro exI [of _ r'] conjI exI [of _ "[]"]) simp_all
qed

text \<open>What follows the callback.\<close>

lemma body_tail_sends:
  assumes "out_ok (n + length (if failed then standard_body_text status else [])) r" "0 \<le> status" "status < 1000"
    and "outb r = []" "134 \<le> iobuf_size (r_out r)"
  shows "\<exists>r'. (if failed then c_bind (minute_httpd_standard_body status r) (\<lambda>r. Some (Some (r, d))) else Some (Some (r, d)))
        = Some (Some (r', d))
    \<and> sends c r (if failed then standard_body_text status else []) r' \<and> out_ok n r'"
proof (cases failed)
  case True
  then show ?thesis using standard_body_sends [of n status r c] assms by auto
next
  case False
  then show ?thesis using assms(1) delivers_sends [OF delivers_nil] by auto
qed

lemma tap_body_sends:
  assumes "tap_body_acts T (r_rq r) (r_text r) status d = Some (bs, failed, d')" "pieces_ok bs"
    and "body = concat bs @ (if failed then standard_body_text status else [])"
    and "\<not> bodyless (r_rq r) status" "out_ok (n + length body) r" "outb r = []"
    and "0 \<le> status" "status < 1000" "134 \<le> iobuf_size (r_out r)" "iobuf_size (r_out r) < 2 ^ 19"
  shows "\<exists>r'. handle_body (minuted_tap_app T) status r d = Some (Some (r', d'))
    \<and> sends (flag_set (r_flags r) httpd_te_chunked) r body r' \<and> out_ok n r'"
proof -
  let ?tail = "if failed then standard_body_text status else []" and ?c = "flag_set (r_flags r) httpd_te_chunked"
  have o: "out_ok ((n + length ?tail) + length (concat bs)) r" using assms(5) unfolding assms(3) by (simp add: ac_simps)
  obtain q where q: "minuted_tap_response T status r d = Some (Some (if failed then 1 else 0, q, d'))"
      "sends ?c r (concat bs) q" "out_ok (n + length ?tail) q" "outb q = []"
  proof (cases "d_vhost d")
    case None
    then have "bs = []" "failed" "d' = d" using assms(1) by (simp_all add: tap_body_acts_def)
    then show ?thesis
      using that [of r] None o assms(6) delivers_sends [OF delivers_nil] by (simp add: minuted_tap_response_def)
  next
    case (Some i)
    obtain o_meta d1 where 1: "tap_create_meta T d = (o_meta, d1)" by (cases "tap_create_meta T d")
    obtain objv code res s where 2: "i < length (tr_v (d_rs d1))" "payload_objv T s_response o_meta d1 = Some objv"
        "body_acts T (r_rq r) (r_text r) (v_response (tr_v (d_rs d1) ! i) objv (v_tcl (tr_v (d_rs d1) ! i))) = Some (bs, code, res, s)"
        "response_result T code res (set_interp i s d1) = (if failed then 1 else 0, d')"
      using assms(1) Some 1
      by (auto simp: tap_body_acts_def response_result_def bind_eq_Some_conv split: if_splits)
    obtain r1 where 3: "write_all bs r = Some (Some r1)" "delivers ?c r (concat bs) r1" "out_ok (n + length ?tail) r1"
      using write_all_sends [OF o] assms(2,10) by (auto simp: pieces_ok_def)
    have s1: "iobuf_size (r_out r1) = iobuf_size (r_out r)" "r_flags r1 = r_flags r"
      using 3(2) by (simp_all add: delivers_def same_but_out_def)
    obtain q where 4: "minute_httpd_flush r1 = Some (Some q)" "sends ?c r1 [] q" "out_ok (n + length ?tail) q" "outb q = []"
      using flush_sends [OF 3(3)] s1 assms(10) by auto
    have "minuted_tap_response T status r d = Some (Some (if failed then 1 else 0, q, d'))"
      using Some 1 2 3(1) 4(1) body_acts_exec [OF _ _ 2(3)]
      by (simp add: minuted_tap_response_def run_proc_def minuted_tap_close_proc_def Let_def)
    then show ?thesis
      using that [of q] sends_trans [OF delivers_sends [OF 3(2)] 4(2)] 4(3,4) by simp
  qed
  have sz: "iobuf_size (r_out q) = iobuf_size (r_out r)" using q(2) by (simp add: sends_def same_but_out_def)
  obtain r' where r': "(if failed then c_bind (minute_httpd_standard_body status q) (\<lambda>r. Some (Some (r, d'))) else Some (Some (q, d')))
        = Some (Some (r', d'))" "sends ?c q ?tail r'" "out_ok n r'"
    using body_tail_sends [OF q(3) assms(7,8) q(4), where d = d' and c = ?c] sz assms(9) by auto
  have "handle_body (minuted_tap_app T) status r d = Some (Some (r', d'))"
    using assms(4) q(1) r'(1) by (cases failed) (simp_all add: handle_body_def bodyless_def minuted_tap_app_def Let_def)
  then show ?thesis using r'(3) sends_trans [OF q(2) r'(2)] unfolding assms(3) by blast
qed

section \<open>The head and the payload\<close>

text \<open>The payload callback before its procedure is called: undefined, refused, or the virtual host,
  its procedure's run and the data.\<close>

definition tap_payload_starts ::
    "'o tcl \<Rightarrow> ('o, 's) tap_rq_data \<Rightarrow> (nat \<times> ('o, 's) tcl_run \<times> ('o, 's) tap_rq_data) option option" where
  "tap_payload_starts T d = do {
     i \<leftarrow> d_vhost d;
     if length (tr_v (d_rs d)) \<le> i then None
     else if flag_set (v_flags (tr_v (d_rs d) ! i)) TAP_NO_PAYLOAD then Some None
     else (case tap_create_meta T d of (o_meta, d) \<Rightarrow> do {
       objv \<leftarrow> payload_objv T s_payload o_meta d;
       Some (Some (i, v_payload (tr_v (d_rs d) ! i) objv (v_tcl (tr_v (d_rs d) ! i)), d))
     })
   }"

text \<open>What the two callbacks may come to: the interim response, the headers, the status and the
  data.\<close>

inductive tap_status_acts ::
    "'o tcl \<Rightarrow> ('o, 's) tap_rq_data visit \<Rightarrow> bytes \<Rightarrow> (http_response_header \<times> string) list \<Rightarrow> int
     \<Rightarrow> ('o, 's) tap_rq_data \<Rightarrow> bool"
  for T :: "'o tcl" and v :: "('o, 's) tap_rq_data visit" where
  head_alone: "tap_head_acts T (vis_rq v) (vis_text v) (vis_data v) = Some (hs, status, d) \<Longrightarrow> status \<noteq> 100
    \<Longrightarrow> tap_status_acts T v [] hs status d"
| payload_refused: "tap_head_acts T (vis_rq v) (vis_text v) (vis_data v) = Some (hs, 100, d)
    \<Longrightarrow> tap_payload_starts T d = Some None
    \<Longrightarrow> tap_status_acts T v (interim_line (vis_rq v)) hs 500 (d\<lparr>d_code := 500\<rparr>)"
| payload_read: "tap_head_acts T (vis_rq v) (vis_text v) (vis_data v) = Some (hs, 100, d)
    \<Longrightarrow> tap_payload_starts T d = Some (Some (i, t, d1))
    \<Longrightarrow> payload_acts T (vis_rq v) (vis_text v) t (vis_payload v) hs' (code, res, s)
    \<Longrightarrow> payload_result T code res (set_interp i s d1) = Some (status, d2)
    \<Longrightarrow> tap_status_acts T v (interim_line (vis_rq v)) (hs @ hs') status d2"

lemma tap_payload_exec:
  assumes "tap_payload_starts T d = Some (Some (i, t, d1))"
  shows "minuted_tap_payload T r d =
    c_bind (tcl_exec \<lparr>tw_command = tap_tcl_headers_meta T, tw_input = minuted_tap_input_proc,
                      tw_output = minuted_tap_no_out_proc\<rparr> t r) (\<lambda>(code, res, s, r).
      c_bind (c_step (payload_result T code res (set_interp i s d1))) (\<lambda>(status, d). Some (Some (status, r, d))))"
  using assms
  by (auto simp: tap_payload_starts_def minuted_tap_payload_def bind_eq_Some_conv run_proc_def c_bind_assoc Let_def
      tap_create_meta_def minuted_tap_inputclose_proc_def case_prod_unfold split: if_splits)

lemma tap_payload_refused:
  assumes "tap_payload_starts T d = Some None"
  shows "minuted_tap_payload T r d = Some (Some (500, r, d\<lparr>d_code := 500\<rparr>))"
  using assms
  by (auto simp: tap_payload_starts_def minuted_tap_payload_def bind_eq_Some_conv split: if_splits prod.splits)

section \<open>The answer of an application\<close>

definition tap_body ::
    "'o tcl \<Rightarrow> ('o, 's) tap_rq_data visit \<Rightarrow> int \<Rightarrow> ('o, 's) tap_rq_data \<Rightarrow> (bytes \<times> ('o, 's) tap_rq_data) option" where
  "tap_body T v status d =
     (if bodyless (vis_rq v) status then Some ([], d)
      else do {
        (bs, failed, d2) \<leftarrow> tap_body_acts T (vis_rq v) (vis_text v) status d;
        if pieces_ok bs then Some (concat bs @ (if failed then standard_body_text status else []), d2) else None
      })"

text \<open>The procedures stay within the model, whatever the cuts of the payload: each status that may be
  chosen is one of three digits, and has a body, of pieces below half a megabyte.\<close>

definition tap_promises :: "'o tcl \<Rightarrow> ('o, 's) tap_rq_data visit \<Rightarrow> bool" where
  "tap_promises T v \<longleftrightarrow> 134 \<le> vis_room v \<and> vis_room v < 2 ^ 19
     \<and> (\<exists>hs status d. tap_head_acts T (vis_rq v) (vis_text v) (vis_data v) = Some (hs, status, d)
          \<and> [] \<notin> snd ` set hs
          \<and> (status = 100 \<longrightarrow> (case tap_payload_starts T d of None \<Rightarrow> False | Some None \<Rightarrow> True
               | Some (Some (i, t, d1)) \<Rightarrow>
                   payload_fine T (vis_rq v) (vis_text v) (vis_in_room v) t (vis_payload v)
                   \<and> (\<forall>hs code res s. payload_acts T (vis_rq v) (vis_text v) t (vis_payload v) hs (code, res, s)
                        \<longrightarrow> payload_result T code res (set_interp i s d1) \<noteq> None))))
     \<and> (\<forall>I hs status d. tap_status_acts T v I hs status d
          \<longrightarrow> 0 \<le> status \<and> status < 1000 \<and> tap_body T v status d \<noteq> None)"

definition tap_answers :: "'o tcl \<Rightarrow> ('o, 's) tap_rq_data visit \<Rightarrow> ('o, 's) tap_rq_data answer set" where
  "tap_answers T v =
     (if tap_promises T v then
        {A. tap_status_acts T v (an_interim A) (an_headers A) (an_status A) (an_data A)
            \<and> tap_body T v (an_status A) (an_data A) = Some (an_body A, an_final A)}
      else {})"

lemma tap_outcome:
  assumes "tap_promises T v" "tap_status_acts T v I hs status d"
  obtains A where "A \<in> tap_answers T v" "an_interim A = I" "an_headers A = hs" "an_status A = status" "an_data A = d"
proof -
  obtain body d2 where "tap_body T v status d = Some (body, d2)"
    using assms unfolding tap_promises_def by fastforce
  then show ?thesis
    using that [of "\<lparr>an_interim = I, an_headers = hs, an_status = status, an_data = d, an_body = body, an_final = d2\<rparr>"]
      assms by (simp add: tap_answers_def)
qed

lemma tap_promisesE:
  assumes "tap_promises T v"
  obtains hs status d where "tap_head_acts T (vis_rq v) (vis_text v) (vis_data v) = Some (hs, status, d)"
      "[] \<notin> snd ` set hs" "status \<noteq> 100"
  | (refused) hs d where "tap_head_acts T (vis_rq v) (vis_text v) (vis_data v) = Some (hs, 100, d)"
      "[] \<notin> snd ` set hs" "tap_payload_starts T d = Some None"
  | (read) hs d i t d1 where "tap_head_acts T (vis_rq v) (vis_text v) (vis_data v) = Some (hs, 100, d)"
      "[] \<notin> snd ` set hs" "tap_payload_starts T d = Some (Some (i, t, d1))"
      "payload_fine T (vis_rq v) (vis_text v) (vis_in_room v) t (vis_payload v)"
      "\<forall>hs code res s. payload_acts T (vis_rq v) (vis_text v) t (vis_payload v) hs (code, res, s)
         \<longrightarrow> payload_result T code res (set_interp i s d1) \<noteq> None"
proof -
  obtain hs status d where 1: "tap_head_acts T (vis_rq v) (vis_text v) (vis_data v) = Some (hs, status, d)"
      "[] \<notin> snd ` set hs"
      "status = 100 \<longrightarrow> (case tap_payload_starts T d of None \<Rightarrow> False | Some None \<Rightarrow> True
         | Some (Some (i, t, d1)) \<Rightarrow>
             payload_fine T (vis_rq v) (vis_text v) (vis_in_room v) t (vis_payload v)
             \<and> (\<forall>hs code res s. payload_acts T (vis_rq v) (vis_text v) t (vis_payload v) hs (code, res, s)
                  \<longrightarrow> payload_result T code res (set_interp i s d1) \<noteq> None))"
    using assms unfolding tap_promises_def by blast
  show ?thesis
  proof (cases "status = 100")
    case False
    then show ?thesis using that(1) 1(1,2) by blast
  next
    case True
    then obtain z where z: "tap_payload_starts T d = Some z" using 1(3) by (cases "tap_payload_starts T d") auto
    show ?thesis
    proof (cases z)
      case None
      then show ?thesis using that(2) 1(1,2) z True by blast
    next
      case (Some a)
      then show ?thesis using that(3) [of hs d "fst a" "fst (snd a)" "snd (snd a)"] 1 z True by (auto split: prod.splits)
    qed
  qed
qed

text \<open>The three ways of the status, on a connection.\<close>

lemma tap_app_sel [simp]:
  "app_header (minuted_tap_app T) = minuted_tap_head T" "app_payload (minuted_tap_app T) = minuted_tap_payload T"
  "app_response (minuted_tap_app T) = minuted_tap_response T" "app_error (minuted_tap_app T) = minuted_tap_error"
  by (simp_all add: minuted_tap_app_def)

definition status_done ::
    "'o tcl \<Rightarrow> ('o, 's) tap_rq_data visit \<Rightarrow> nat \<Rightarrow> httpd_response \<Rightarrow> bytes \<Rightarrow> (http_response_header \<times> string) list
     \<Rightarrow> int \<Rightarrow> ('o, 's) tap_rq_data \<Rightarrow> bool" where
  "status_done T v n r I hs status d \<longleftrightarrow>
     (\<exists>r' k. handle_status (minuted_tap_app T) r (vis_data v) = Some (Some (status, r', d))
        \<and> adds_lines I (header_lines hs) r r' \<and> takes (vis_payload v) k r r' \<and> out_ok n r')"

lemma tap_head_adds:
  assumes "visits v r" "tap_head_acts T (vis_rq v) (vis_text v) d = Some (hs, status, d1)" "[] \<notin> snd ` set hs"
    and "length (header_lines hs) \<le> H" "length (outb r) + H \<le> vis_room v" "vis_room v < 2 ^ 30" "out_ok (n + H) r"
  obtains q where "minuted_tap_head T r d = Some (Some (status, q, d1))" "adds_lines [] (header_lines hs) r q"
    "out_ok (n + (H - length (header_lines hs))) q" "same_but_out r q"
proof -
  have rq: "r_rq r = vis_rq v" "r_text r = vis_text v" "iobuf_size (r_out r) = vis_room v"
    using assms(1) by (simp_all add: visits_def)
  have o: "out_ok ((n + (H - length (header_lines hs))) + length (header_lines hs)) r"
    using assms(7) by (rule out_ok_mono) (use assms(4) in simp)
  have "length (outb r) + length (header_lines hs) \<le> iobuf_size (r_out r)" "iobuf_size (r_out r) < 2 ^ 30"
    using assms(4-6) by (simp_all add: rq)
  from header_all_adds [OF o assms(3) this] obtain q where "header_all hs r = Some (Some q)"
      "adds_lines [] (header_lines hs) r q" "out_ok (n + (H - length (header_lines hs))) q" "same_but_out r q" by blast
  then show ?thesis using that tap_head_acts_exec [of T r d hs status d1] assms(2) by (simp add: rq)
qed

lemma tap_status_head:
  assumes "minuted_tap_head T r (vis_data v) = Some (Some (status, q, d))" "adds_lines [] (header_lines hs) r q"
    "out_ok n q" "same_but_out r q" "owes (vis_payload v) r" "status \<noteq> 100"
  shows "status_done T v n r [] hs status d"
  using assms takes_none_out [OF assms(5,4)] by (auto simp: status_done_def handle_status_def)

lemma tap_status_refused:
  assumes "minuted_tap_head T r (vis_data v) = Some (Some (100, q, d))" "adds_lines [] (header_lines hs) r q"
    "out_ok n q" "same_but_out r q" "owes (vis_payload v) r" "r_rq r = vis_rq v" "tap_payload_starts T d = Some None"
  shows "status_done T v n r (interim_line (vis_rq v)) hs 500 (d\<lparr>d_code := 500\<rparr>)"
proof -
  let ?q = "add_sent (interim_line (vis_rq v)) q"
  have rq: "r_rq q = vis_rq v" using assms(4,6) by (simp add: same_but_out_def)
  have "handle_status (minuted_tap_app T) r (vis_data v) = Some (Some (500, ?q, d\<lparr>d_code := 500\<rparr>))"
    using assms(1) interim_sent [OF assms(3)] tap_payload_refused [OF assms(7)] by (simp add: handle_status_def rq)
  moreover have "takes (vis_payload v) 0 r ?q"
    using assms(4) by (intro takes_none_out [OF assms(5)]) (simp add: same_but_out_def)
  moreover have "adds_lines (interim_line (vis_rq v)) (header_lines hs) r ?q" using assms(2) by (simp add: adds_lines_def)
  ultimately show ?thesis using assms(3) by (auto simp: status_done_def)
qed

lemma tap_status_read:
  assumes "minuted_tap_head T r (vis_data v) = Some (Some (100, q, d))" "adds_lines [] (header_lines hs) r q"
    "out_ok (n + H) q" "same_but_out r q" "owes (vis_payload v) r" "visits v r"
    and start: "tap_payload_starts T d = Some (Some (i, t, d1))"
      "payload_fine T (vis_rq v) (vis_text v) (vis_in_room v) t (vis_payload v)"
    and run: "\<And>hs' code res s. payload_acts T (vis_rq v) (vis_text v) t (vis_payload v) hs' (code, res, s)
        \<Longrightarrow> length (header_lines hs') \<le> H \<and> payload_result T code res (set_interp i s d1) \<noteq> None"
    and "length (outb q) + H \<le> vis_room v" "vis_room v < 2 ^ 30"
  obtains hs' code res s status d2 where
    "payload_acts T (vis_rq v) (vis_text v) t (vis_payload v) hs' (code, res, s)"
    "payload_result T code res (set_interp i s d1) = Some (status, d2)"
    "status_done T v n r (interim_line (vis_rq v)) (hs @ hs') status d2"
proof -
  let ?q = "add_sent (interim_line (vis_rq v)) q"
  let ?W = "\<lparr>tw_command = tap_tcl_headers_meta T, tw_input = minuted_tap_input_proc, tw_output = minuted_tap_no_out_proc\<rparr>"
  have s: "same_but_out r ?q" using assms(4) by (simp add: same_but_out_def)
  have v: "r_rq ?q = vis_rq v" "r_text ?q = vis_text v" "iobuf_size (r_out ?q) = vis_room v"
    "iobuf_size (r_in ?q) = vis_in_room v" using s assms(6) by (simp_all add: same_but_out_def visits_def)
  have "\<exists>hs' code res s r' k. tcl_exec ?W t ?q = Some (Some (code, res, s, r'))
      \<and> payload_acts T (r_rq ?q) (r_text ?q) t (vis_payload v) hs' (code, res, s)
      \<and> adds_lines [] (header_lines hs') ?q r' \<and> takes (vis_payload v) k ?q r' \<and> out_ok n r'"
  proof (rule payload_exec)
    show "\<forall>hs' z. payload_acts T (r_rq ?q) (r_text ?q) t (vis_payload v) hs' z \<longrightarrow> length (header_lines hs') \<le> H"
      using run unfolding v by auto
  qed (use assms start owes_same_out [OF s] in \<open>simp_all add: v [simplified]\<close>)
  then obtain hs' code res st r' k where p: "tcl_exec ?W t ?q = Some (Some (code, res, st, r'))"
      "payload_acts T (vis_rq v) (vis_text v) t (vis_payload v) hs' (code, res, st)"
      "adds_lines [] (header_lines hs') ?q r'" "takes (vis_payload v) k ?q r'" "out_ok n r'"
    unfolding v by blast
  obtain status d2 where d2: "payload_result T code res (set_interp i st d1) = Some (status, d2)"
    using run [OF p(2)] by auto
  have "handle_status (minuted_tap_app T) r (vis_data v) = Some (Some (status, r', d2))"
    using assms(1) interim_sent [OF assms(3)] tap_payload_exec [OF start(1), of ?q] p(1) d2 v(1)
    by (simp add: handle_status_def)
  moreover have "adds_lines (interim_line (vis_rq v)) (header_lines (hs @ hs')) r r'"
    using assms(2) p(3) by (simp add: adds_lines_def header_lines_append)
  moreover have "takes (vis_payload v) k r r'"
    using p(4) s by (simp add: takes_def same_but_out_def conn_bytes_def)
  ultimately have "status_done T v n r (interim_line (vis_rq v)) (hs @ hs') status d2"
    using p(5) by (auto simp: status_done_def)
  then show ?thesis using that p(2) d2 by blast
qed

lemma tap_status_outcome:
  assumes "tap_promises T v" "visits v r" "owes (vis_payload v) r" "length (outb r) + H \<le> vis_room v" "out_ok (n + H) r"
    and len: "\<And>I hs status d. tap_status_acts T v I hs status d \<Longrightarrow> length (header_lines hs) \<le> H"
  shows "\<exists>I hs status d. tap_status_acts T v I hs status d \<and> status_done T v n r I hs status d"
proof -
  have rq: "r_rq r = vis_rq v" using assms(2) by (simp add: visits_def)
  have room: "vis_room v < 2 ^ 30" using assms(1) by (simp add: tap_promises_def)
  from assms(1) show ?thesis
  proof (cases rule: tap_promisesE)
    case (1 hs status d)
    have acts: "tap_status_acts T v [] hs status d" using 1(1,3) by (rule head_alone)
    obtain q where q: "minuted_tap_head T r (vis_data v) = Some (Some (status, q, d))"
        "adds_lines [] (header_lines hs) r q" "out_ok (n + (H - length (header_lines hs))) q" "same_but_out r q"
      by (rule tap_head_adds [OF assms(2) 1(1,2) len [OF acts] assms(4) room assms(5)])
    have "out_ok n q" using q(3) by (rule out_ok_mono) simp
    then show ?thesis using acts tap_status_head [OF q(1,2) _ q(4) assms(3) 1(3)] by blast
  next
    case (refused hs d)
    have acts: "tap_status_acts T v (interim_line (vis_rq v)) hs 500 (d\<lparr>d_code := 500\<rparr>)"
      using refused(1,3) by (rule payload_refused)
    obtain q where q: "minuted_tap_head T r (vis_data v) = Some (Some (100, q, d))"
        "adds_lines [] (header_lines hs) r q" "out_ok (n + (H - length (header_lines hs))) q" "same_but_out r q"
      by (rule tap_head_adds [OF assms(2) refused(1,2) len [OF acts] assms(4) room assms(5)])
    have "out_ok n q" using q(3) by (rule out_ok_mono) simp
    then show ?thesis using acts tap_status_refused [OF q(1,2) _ q(4) assms(3) rq refused(3)] by blast
  next
    case (read hs d i t d1)
    let ?run = "payload_acts T (vis_rq v) (vis_text v) t (vis_payload v)"
    have acts: "tap_status_acts T v (interim_line (vis_rq v)) (hs @ hs') status d2"
      if "?run hs' (code, res, s)" "payload_result T code res (set_interp i s d1) = Some (status, d2)"
      for hs' code res s status d2
      using read(1,3) that by (rule payload_read)
    have le: "length (header_lines hs) + length (header_lines hs') \<le> H"
      if h: "?run hs' (code, res, s)" for hs' code res s
    proof -
      obtain status d2 where "payload_result T code res (set_interp i s d1) = Some (status, d2)"
        using read(5) [rule_format, OF h] by auto
      from len [OF acts [OF h this]] show ?thesis by (simp add: header_lines_append)
    qed
    obtain hs0 z where "?run hs0 z" using payload_fine_acts [OF read(4)] by blast
    then obtain code res s where "?run hs0 (code, res, s)" by (cases z) blast
    then have lh: "length (header_lines hs) \<le> H" using le [of hs0 code res s] by simp
    obtain q where q: "minuted_tap_head T r (vis_data v) = Some (Some (100, q, d))"
        "adds_lines [] (header_lines hs) r q" "out_ok (n + (H - length (header_lines hs))) q" "same_but_out r q"
      by (rule tap_head_adds [OF assms(2) read(1,2) lh assms(4) room assms(5)])
    have fits: "length (outb q) + (H - length (header_lines hs)) \<le> vis_room v"
      using q(2) assms(4) lh by (simp add: adds_lines_def)
    have run: "length (header_lines hs') \<le> H - length (header_lines hs)
        \<and> payload_result T code res (set_interp i s d1) \<noteq> None" if "?run hs' (code, res, s)" for hs' code res s
      using le [OF that] read(5) [rule_format, OF that] by simp
    obtain hs' code res s status d2 where "?run hs' (code, res, s)"
        "payload_result T code res (set_interp i s d1) = Some (status, d2)"
        "status_done T v n r (interim_line (vis_rq v)) (hs @ hs') status d2"
      by (rule tap_status_read [OF q assms(3,2) read(3,4) run fits room])
    then show ?thesis using acts by blast
  qed
qed

lemma tap_prepares:
  assumes "tap_promises T v"
  shows "prepares (minuted_tap_app T) v (tap_answers T v)"
  unfolding prepares_def
proof (intro allI impI)
  fix r n H
  assume r: "visits v r" "owes (vis_payload v) r"
    "\<forall>A \<in> tap_answers T v. length (header_lines (an_headers A)) \<le> H" "length (outb r) + H \<le> vis_room v" "out_ok (n + H) r"
  have "length (header_lines hs) \<le> H" if "tap_status_acts T v I hs status d" for I hs status d
    using tap_outcome [OF assms that] r(3) by metis
  then obtain I hs status d where o: "tap_status_acts T v I hs status d" "status_done T v n r I hs status d"
    using tap_status_outcome [OF assms r(1,2,4,5)] by blast
  obtain A where "A \<in> tap_answers T v" "an_interim A = I" "an_headers A = hs" "an_status A = status" "an_data A = d"
    using tap_outcome [OF assms o(1)] by blast
  then show "\<exists>A \<in> tap_answers T v. \<exists>r' k.
      handle_status (minuted_tap_app T) r (vis_data v) = Some (Some (an_status A, r', an_data A))
      \<and> adds_lines (an_interim A) (header_lines (an_headers A)) r r' \<and> takes (vis_payload v) k r r' \<and> out_ok n r'"
    using o(2) unfolding status_done_def by blast
qed

lemma tap_writes:
  assumes "A \<in> tap_answers T v"
  shows "writes_body (minuted_tap_app T) v A"
  unfolding writes_body_def
proof (intro allI impI)
  fix r n
  assume r: "r_rq r = vis_rq v" "r_text r = vis_text v" "iobuf_size (r_out r) = vis_room v" "outb r = []"
    "out_ok (n + length (an_body A)) r"
  have A: "tap_promises T v" "tap_status_acts T v (an_interim A) (an_headers A) (an_status A) (an_data A)"
    "tap_body T v (an_status A) (an_data A) = Some (an_body A, an_final A)"
    using assms by (auto simp: tap_answers_def split: if_splits)
  have range: "0 \<le> an_status A" "an_status A < 1000" "134 \<le> vis_room v" "vis_room v < 2 ^ 19"
    using A(1,2) unfolding tap_promises_def by blast+
  show "\<exists>r'. handle_body (minuted_tap_app T) (an_status A) r (an_data A) = Some (Some (r', an_final A))
      \<and> sends (flag_set (r_flags r) httpd_te_chunked) r (an_body A) r' \<and> out_ok n r'"
  proof (cases "bodyless (vis_rq v) (an_status A)")
    case True
    then show ?thesis
      using r A(3) delivers_sends [OF delivers_nil] by (auto simp: tap_body_def handle_body_def bodyless_def)
  next
    case False
    then obtain bs failed where "tap_body_acts T (vis_rq v) (vis_text v) (an_status A) (an_data A) = Some (bs, failed, an_final A)"
        "pieces_ok bs" "an_body A = concat bs @ (if failed then standard_body_text (an_status A) else [])"
      using A(3) by (auto simp: tap_body_def bind_eq_Some_conv split: if_splits)
    then show ?thesis
      using tap_body_sends [of T r "an_status A" "an_data A" bs failed "an_final A" "an_body A" n] False r range by auto
  qed
qed

interpretation tap: http_application "minuted_tap_app T" "tap_answers T" for T
proof (unfold_locales)
  fix v :: "('a, 'b) tap_rq_data visit"
  assume "tap_answers T v \<noteq> {}"
  then have "tap_promises T v" by (auto simp: tap_answers_def split: if_splits)
  then show "answers (minuted_tap_app T) v (tap_answers T v)"
    using tap_prepares tap_writes unfolding answers_def by blast
qed

lemma tap_answers_nonempty:
  assumes "tap_promises T v"
  shows "tap_answers T v \<noteq> {}"
proof -
  have "\<exists>I hs status d. tap_status_acts T v I hs status d"
    using assms
  proof (cases rule: tap_promisesE)
    case (read hs d i t d1)
    obtain hs' z where "payload_acts T (vis_rq v) (vis_text v) t (vis_payload v) hs' z"
      using payload_fine_acts [OF read(4)] by blast
    moreover obtain code res s where "z = (code, res, s)" by (cases z)
    ultimately show ?thesis using payload_read [OF read(1,3)] read(5) by fastforce
  qed (blast intro: head_alone payload_refused)+
  then show ?thesis using tap_outcome [OF assms] by (metis empty_iff)
qed

text \<open>The same as a list, to check the promises on an example.\<close>

definition tap_outcomes ::
    "'o tcl \<Rightarrow> ('o, 's) tap_rq_data visit
     \<Rightarrow> ((http_response_header \<times> string) list \<times> int \<times> ('o, 's) tap_rq_data) option list" where
  "tap_outcomes T v =
     (case tap_head_acts T (vis_rq v) (vis_text v) (vis_data v) of
        None \<Rightarrow> [None]
      | Some (hs, status, d) \<Rightarrow>
          if status \<noteq> 100 then [Some (hs, status, d)]
          else (case tap_payload_starts T d of
              None \<Rightarrow> [None]
            | Some None \<Rightarrow> [Some (hs, 500, d\<lparr>d_code := 500\<rparr>)]
            | Some (Some (i, t, d1)) \<Rightarrow>
                if payload_fine T (vis_rq v) (vis_text v) (vis_in_room v) t (vis_payload v) then
                  map (\<lambda>(hs', code, res, s). map_option (\<lambda>(status, d). (hs @ hs', status, d))
                                           (payload_result T code res (set_interp i s d1)))
                    (payload_runs T (vis_rq v) (vis_text v) t (vis_payload v))
                else [None]))"

lemma tap_status_outcomes:
  assumes "tap_status_acts T v I hs status d" "None \<notin> set (tap_outcomes T v)"
  shows "Some (hs, status, d) \<in> set (tap_outcomes T v) \<and> I \<in> {[], interim_line (vis_rq v)}"
  using assms
proof (cases rule: tap_status_acts.cases)
  case (payload_read hs0 d0 i t d1 hs' code res s)
  then show ?thesis
    using assms(2) payload_acts_runs [OF payload_read(5)]
    by (fastforce simp: tap_outcomes_def split: if_splits intro: rev_image_eqI)
qed (auto simp: tap_outcomes_def)

lemma tap_promisesI:
  assumes "134 \<le> vis_room v" "vis_room v < 2 ^ 19" "None \<notin> set (tap_outcomes T v)"
    and head: "\<And>hs status d. tap_head_acts T (vis_rq v) (vis_text v) (vis_data v) = Some (hs, status, d)
        \<Longrightarrow> [] \<notin> snd ` set hs"
    and body: "\<And>hs status d. Some (hs, status, d) \<in> set (tap_outcomes T v)
        \<Longrightarrow> 0 \<le> status \<and> status < 1000 \<and> tap_body T v status d \<noteq> None"
  shows "tap_promises T v"
proof -
  obtain hs status d where 1: "tap_head_acts T (vis_rq v) (vis_text v) (vis_data v) = Some (hs, status, d)"
    using assms(3) by (cases "tap_head_acts T (vis_rq v) (vis_text v) (vis_data v)") (auto simp: tap_outcomes_def)
  have fine: "payload_fine T (vis_rq v) (vis_text v) (vis_in_room v) t (vis_payload v)"
    if "status = 100" "tap_payload_starts T d = Some (Some (i, t, d1))" for i t d1
    using assms(3) 1 that by (simp add: tap_outcomes_def split: if_splits)
  have res: "payload_result T code res (set_interp i s d1) \<noteq> None"
    if "status = 100" "tap_payload_starts T d = Some (Some (i, t, d1))"
      "payload_acts T (vis_rq v) (vis_text v) t (vis_payload v) hs' (code, res, s)" for i t d1 hs' code res s
  proof
    assume "payload_result T code res (set_interp i s d1) = None"
    then have "None \<in> set (tap_outcomes T v)"
      using 1 that(1,2) fine [OF that(1,2)] payload_acts_runs [OF that(3)]
      by (auto simp: tap_outcomes_def intro!: rev_image_eqI)
    then show False using assms(3) by simp
  qed
  have "case tap_payload_starts T d of None \<Rightarrow> False | Some None \<Rightarrow> True
      | Some (Some (i, t, d1)) \<Rightarrow>
          payload_fine T (vis_rq v) (vis_text v) (vis_in_room v) t (vis_payload v)
          \<and> (\<forall>hs code res s. payload_acts T (vis_rq v) (vis_text v) t (vis_payload v) hs (code, res, s)
               \<longrightarrow> payload_result T code res (set_interp i s d1) \<noteq> None)" if h: "status = 100"
    using assms(3) 1 h fine [OF h] res [OF h]
    by (cases "tap_payload_starts T d") (auto simp: tap_outcomes_def split: option.splits)
  then show ?thesis
    using assms(1,2) 1 head body tap_status_outcomes [OF _ assms(3)] unfolding tap_promises_def by blast
qed

section \<open>Properties\<close>

text \<open>C7. A request to a Tcl application is answered completely.  The procedures' effects, run on the
  parsed request and its payload without a connection, are one of the \<open>tap_answers\<close>: an interim
  line (only when the client expects it and the head procedure has answered 100), the headers, the
  status, the body and the application's new data.  The client receives exactly that: the head
  with these headers and the bytes in order, followed by the standard body when there is no
  virtual host for the request (410) or the procedure has failed.  However much of the payload the
  procedures have read, what they leave on the connection is the next request.\<close>
theorem tap_serves:
  assumes "request_received st w y rest" "v = visit_of st y rest d" "tap_promises T v"
    and "\<forall>A \<in> tap_answers T v. answer_ok gmtime now (iobuf_size (st_out st)) (an_status A) (an_headers A) (an_body A)"
  shows "\<exists>code st' w' d'. minute_httpd_handle (minuted_tap_app T) gmtime now st w d = Some (Some (code, st', w', d'))
    \<and> ((\<exists>A \<in> tap_answers T v. \<exists>fs. code = (if keeps_open (c_rq y) then httpd_client_ok_open else httpd_client_ok_close)
          \<and> d' = an_final A \<and> [] \<notin> set fs \<and> concat fs = an_body A
          \<and> w_sent w' = w_sent w @ an_interim A
              @ static_wire gmtime now (c_rq y) (an_status A) (an_headers A) fs
          \<and> state_bytes st' w' = drop (nat (payload_length (c_rq y))) rest)
       \<or> code = -414 \<and> iobuf_size (st_in st) \<le> length (state_bytes st w) \<and> (\<exists>rq. d' = minuted_tap_error rq 414 d))"
  using assms tap_answers_nonempty [OF assms(3)]
  by (intro tap.request_answered [unfolded tap_app_sel]) simp_all

end
