(* ===== verification/Tap_Echo.thy ===== *)
theory Tap_Echo
  imports Tap_Serve
begin

text \<open>
  An example for \<open>Tap_Serve\<close>: an application whose payload procedure reads, and a request with a
  payload, from the bytes of the request to the two answers it may get.
\<close>

section \<open>The request and the application\<close>

text \<open>A request with a payload of two bytes, and an application that sends back what its payload
  procedure has read at once.\<close>

definition demo_post_request :: bytes where
  "demo_post_request = ''POST / HTTP/1.0'' @ NL @ ''Content-Length: 2'' @ NL @ NL @ ''ok''"

definition demo_post :: minute_httpd_state where
  "demo_post = demo_server\<lparr>st_in := \<lparr>io_read = 0, io_write = 40, io_mask = 63, io_flags = 0,
     io_data = demo_post_request @ replicate 24 NUL\<rparr>\<rparr>"

definition echo_vhost :: "(tcl_value, bytes) tap_vhost" where
  "echo_vhost =
     \<lparr>v_tcl = [], v_flags = 0,
      v_headers = (\<lambda>objv s. Tcl_done TCL_OK (V_list [V_int 100]) s),
      v_payload = (\<lambda>objv s. Tcl_input 4096 (\<lambda>(n, xs). Tcl_done TCL_OK (V_list [V_int 200]) xs)),
      v_response = (\<lambda>objv s. Tcl_output s (\<lambda>n. Tcl_done TCL_OK (V_string []) s))\<rparr>"

definition echo_data :: "(tcl_value, bytes) tap_rq_data" where
  "echo_data = fresh_data
     \<lparr>tr_vhostMap = V_dict [(V_string ''default'', V_int 0)],
      tr_vhostListen = [V_dict [(V_string ''default'', V_dict [])]], tr_v = [echo_vhost], tr_nv = 1\<rparr> 0 0"

lemma demo_post_ok:
  "state_ok demo_post demo_world" "state_bytes demo_post demo_world = demo_post_request"
  "iobuf_size (st_out demo_post) = 256" "iobuf_size (st_in demo_post) = 64"
proof -
  have out: "st_out demo_post = st_out demo_server" "st_text demo_post = st_text demo_server"
    "st_outfd demo_post = st_outfd demo_server" by (simp_all add: demo_post_def)
  then show "iobuf_size (st_out demo_post) = 256" by (simp add: demo_server_ok)
  show size: "iobuf_size (st_in demo_post) = 64" by code_simp
  show "state_bytes demo_post demo_world = demo_post_request" by code_simp
  have f: "iobuf_unwrapped (st_in demo_post)" "unat (io_write (st_in demo_post)) = 40" "\<not> at_eof (st_in demo_post)"
    "unat (minute_iobuf_used (st_in demo_post)) = 40" "length (io_data (st_in demo_post)) = 64" by code_simp+
  have "\<exists>k < 31. (64 :: nat) = 2 ^ k" by (intro exI [of _ 6]) simp
  then have "iobuf_ok (st_in demo_post)" using f(4,5) unfolding iobuf_ok_def size by simp
  then show "state_ok demo_post demo_world"
    using demo_server_ok(1) f(1-3) out unfolding state_ok_def by (simp add: demo_world_def)
qed

text \<open>What the parser makes of it.\<close>

definition demo_post_visit :: "(tcl_value, bytes) tap_rq_data visit" where
  "demo_post_visit =
     \<lparr>vis_rq = \<lparr>rq_flags = http_content_length, rq_server_protocol = http_1_0, rq_request_method = http_post, rq_path = 1,
        rq_query = 0, rq_content_length = 2\<rparr>,
      vis_text = \<lparr>ti_text = 3, ti_ints = 16, ti_size = 16, ti_data = [NUL, CHR 0x2F] @ replicate 14 NUL\<rparr>,
      vis_payload = ''ok'', vis_room = 256, vis_in_room = 64, vis_data = echo_data\<rparr>"

lemma demo_post_scan:
  obtains y where "request_received demo_post demo_world y ''ok''" "visit_of demo_post y ''ok'' echo_data = demo_post_visit"
proof -
  let ?scan = "http_scan False demo_post_request (request_ctx demo_post)"
  have "(case ?scan of Done k y \<Rightarrow> k = 0 \<and> c_rq y = vis_rq demo_post_visit \<and> c_text y = vis_text demo_post_visit
      | _ \<Rightarrow> False)" by code_simp
  then obtain y where y: "?scan = Done 0 y" "c_rq y = vis_rq demo_post_visit" "c_text y = vis_text demo_post_visit"
    by (auto split: verdict.splits)
  have r: "scan_rest demo_post_request (request_ctx demo_post) = ''ok''" by code_simp
  have f: "payload_length (vis_rq demo_post_visit) = 2"
    "\<not> flag_set (rq_flags (vis_rq demo_post_visit)) http_transfer_chunked" "unfolded False demo_post_request" by code_simp+
  then have "request_received demo_post demo_world y ''ok''"
    using y r by (simp add: request_received_def demo_post_ok)
  moreover have "visit_of demo_post y ''ok'' echo_data = demo_post_visit"
    using y f(1) by (simp add: visit_of_def demo_post_ok demo_post_visit_def)
  ultimately show ?thesis using that by blast
qed

text \<open>Running a head procedure replaces nothing of a virtual host but its interpreter.\<close>

definition vhost_procs :: "('o, 's) tap_rq_data \<Rightarrow> (unsigned \<times> ('o, 's) tcl_proc \<times> ('o, 's) tcl_proc) list" where
  "vhost_procs d = map (\<lambda>v. (v_flags v, v_payload v, v_response v)) (tr_v (d_rs d))"

lemma vhost_procs_nth:
  assumes "vhost_procs d = [(f, p, q)]"
  shows "length (tr_v (d_rs d)) = 1" "v_flags (tr_v (d_rs d) ! 0) = f" "v_payload (tr_v (d_rs d) ! 0) = p"
    "v_response (tr_v (d_rs d) ! 0) = q"
  using assms by (auto simp: vhost_procs_def)

lemma vhost_procs_simps [simp]:
  "vhost_procs (head_done rq n d) = vhost_procs d" "vhost_procs (say c x d) = vhost_procs d"
  "vhost_procs (d\<lparr>d_vhost := x1\<rparr>) = vhost_procs d" "vhost_procs (d\<lparr>d_cmdno := x2\<rparr>) = vhost_procs d"
  "vhost_procs (d\<lparr>d_status := x3\<rparr>) = vhost_procs d" "vhost_procs (d\<lparr>d_code := x4\<rparr>) = vhost_procs d"
  "vhost_procs (d\<lparr>d_host := x5, d_path := x5, d_query := x6\<rparr>) = vhost_procs d"
  by (simp_all add: vhost_procs_def head_done_def say_def)

lemma vhost_procs_interp [simp]: "vhost_procs (set_interp i s d) = vhost_procs d"
proof (cases "i < length (tr_v (d_rs d))")
  case True
  then show ?thesis by (simp add: vhost_procs_def set_interp_def map_update list_update_same_conv)
qed (simp add: vhost_procs_def set_interp_def list_update_beyond)

lemma vhost_procs_parts:
  "host_number T choice d = (z, d') \<Longrightarrow> vhost_procs d' = vhost_procs d"
  "tap_create_meta T d = (o_meta, d') \<Longrightarrow> vhost_procs d' = vhost_procs d"
  "head_result T code res d = Some (n, d') \<Longrightarrow> vhost_procs d' = vhost_procs d"
  by (auto simp: host_number_def tap_create_meta_def head_result_def minuted_tap_status_def bind_eq_Some_conv Let_def
      split: host_choice.splits option.splits if_splits)

lemma head_request_procs: "head_request T rq text d = Some (z, d') \<Longrightarrow> vhost_procs d' = vhost_procs d"
  by (auto simp: head_request_def bind_eq_Some_conv Let_def vhost_procs_def dest!: vhost_procs_parts(1) split: if_splits)

lemma tap_head_acts_procs:
  assumes "tap_head_acts T rq text d = Some (hs, status, d')"
  shows "vhost_procs d' = vhost_procs d"
proof -
  obtain z d1 where z: "head_request T rq text d = Some (z, d1)"
    using assms by (auto simp: tap_head_acts_def bind_eq_Some_conv)
  show ?thesis
  proof (cases z)
    case (Inl res)
    then show ?thesis using assms z head_request_procs [OF z] by (auto simp: tap_head_acts_def)
  next
    case (Inr i)
    then show ?thesis
      using assms z head_request_procs [OF z]
      by (auto simp: tap_head_acts_def bind_eq_Some_conv split: if_splits prod.splits dest!: vhost_procs_parts)
  qed
qed

lemma echo_head:
  obtains d where "tap_head_acts data_tcl (vis_rq demo_post_visit) (vis_text demo_post_visit) echo_data = Some ([], 100, d)"
    "d_vhost d = Some 0" "d_path d \<noteq> None" "d_query d \<noteq> None" "d_status d \<noteq> None"
    "vhost_procs d = [(0, v_payload echo_vhost, v_response echo_vhost)]"
proof -
  let ?head = "tap_head_acts data_tcl (vis_rq demo_post_visit) (vis_text demo_post_visit) echo_data"
  have "(case ?head of None \<Rightarrow> False | Some (hs, status, d) \<Rightarrow>
      hs = [] \<and> status = 100 \<and> d_vhost d = Some 0 \<and> d_path d \<noteq> None \<and> d_query d \<noteq> None \<and> d_status d \<noteq> None)"
    by code_simp
  then obtain d where d: "?head = Some ([], 100, d)" "d_vhost d = Some 0" "d_path d \<noteq> None" "d_query d \<noteq> None" "d_status d \<noteq> None"
    by (auto split: option.splits)
  have "vhost_procs echo_data = [(0, v_payload echo_vhost, v_response echo_vhost)]"
    by (simp add: vhost_procs_def echo_data_def fresh_data_def echo_vhost_def)
  then show ?thesis using that d tap_head_acts_procs [OF d(1)] by simp
qed

lemma echo_body:
  assumes "d_vhost d = Some 0" "d_path d \<noteq> None" "d_query d \<noteq> None" "d_status d \<noteq> None"
    and "vhost_procs d = [(0, v_payload echo_vhost, v_response echo_vhost)]" "v_tcl (tr_v (d_rs d) ! 0) = s"
    and "s \<noteq> []" "length s < 2 ^ 19" "\<not> bodyless (vis_rq v) 200"
  shows "\<exists>x. tap_body data_tcl v 200 d = Some (s, x)"
proof -
  let ?d = "d\<lparr>d_cmdno := d_cmdno d + 1\<rparr>"
  obtain m where m: "tap_create_meta data_tcl d = (m, ?d)" by (simp add: tap_create_meta_def Let_def)
  obtain objv where objv: "payload_objv data_tcl s_response m ?d = Some objv"
    using assms(2-4) by (auto simp: payload_objv_def)
  have v: "length (tr_v (d_rs d)) = 1" "v_response (tr_v (d_rs d) ! 0) = v_response echo_vhost"
    using vhost_procs_nth [OF assms(5)] by simp_all
  have "body_acts data_tcl (vis_rq v) (vis_text v) (v_response echo_vhost objv s)
      = Some ([s], TCL_OK, V_string [], s)" by (simp add: echo_vhost_def)
  then have "tap_body_acts data_tcl (vis_rq v) (vis_text v) 200 d = Some ([s], False, set_interp 0 s ?d)"
    using assms(1,6) m objv v by (auto simp: tap_body_acts_def response_result_def)
  then show ?thesis using assms(7-9) by (simp add: tap_body_def pieces_ok_def)
qed

text \<open>The application's two answers, for a read of one byte and for one of both.\<close>

lemma echo_promises:
  "tap_promises data_tcl demo_post_visit"
  "A \<in> tap_answers data_tcl demo_post_visit \<Longrightarrow> answer_ok demo_clock 0 256 (an_status A) (an_headers A) (an_body A)"
proof -
  let ?v = demo_post_visit and ?T = data_tcl
  let ?rq = "vis_rq ?v" and ?text = "vis_text ?v"
  have v: "vis_data ?v = echo_data" "vis_payload ?v = ''ok''" "vis_in_room ?v = 64" "vis_room ?v = 256"
    by (simp_all add: demo_post_visit_def)
  obtain d where d: "tap_head_acts ?T ?rq ?text echo_data = Some ([], 100, d)" "d_vhost d = Some 0"
      "d_path d \<noteq> None" "d_query d \<noteq> None" "d_status d \<noteq> None"
      "vhost_procs d = [(0, v_payload echo_vhost, v_response echo_vhost)]" by (rule echo_head)
  let ?k = "\<lambda>(n :: int, xs). Tcl_done TCL_OK (V_list [V_int 200]) xs" and ?d1 = "d\<lparr>d_cmdno := d_cmdno d + 1\<rparr>"
  let ?run = "Tcl_input 4096 ?k :: (tcl_value, bytes) tcl_run"
  have start: "tap_payload_starts ?T d = Some (Some (0, ?run, ?d1))"
    using d(2-5) vhost_procs_nth [OF d(6)]
    by (auto simp: tap_payload_starts_def tap_create_meta_def payload_objv_def echo_vhost_def flag_set_def Let_def)
  have fine: "payload_fine ?T ?rq ?text 64 ?run ''ok''" by (simp add: upt_rec)
  let ?d2 = "\<lambda>s. (set_interp 0 s ?d1)\<lparr>d_status := Some (V_list [V_int 200]), d_code := 200\<rparr>"
  have res: "payload_result ?T TCL_OK (V_list [V_int 200]) (set_interp 0 s ?d1) = Some (200, ?d2 s)" for s
    by (simp add: payload_result_def minuted_tap_status_def data_tcl_def TCL_OK_def)
  have o: "tap_outcomes ?T ?v = [Some ([], 200, ?d2 ''o''), Some ([], 200, ?d2 ''ok'')]"
    using d(1) start fine by (simp add: tap_outcomes_def v res upt_rec)
  have post: "\<not> bodyless ?rq 200" by code_simp
  have body: "\<exists>x. tap_body ?T ?v 200 (?d2 s) = Some (s, x)" if "s \<in> {''o'', ''ok''}" for s
  proof (rule echo_body [OF _ _ _ _ _ _ _ _ post])
    have "length (tr_v (d_rs d)) = 1" using vhost_procs_nth(1) [OF d(6)] .
    then show "v_tcl (tr_v (d_rs (?d2 s)) ! 0) = s" by (simp add: set_interp_def)
    show "vhost_procs (?d2 s) = [(0, v_payload echo_vhost, v_response echo_vhost)]" using d(6) by simp
    show "d_vhost (?d2 s) = Some 0" "d_path (?d2 s) \<noteq> None" "d_query (?d2 s) \<noteq> None" "d_status (?d2 s) \<noteq> None"
      using d(2-4) by (simp_all add: set_interp_def)
    show "s \<noteq> []" "length s < 2 ^ 19" using that by auto
  qed
  have n: "None \<notin> set (tap_outcomes ?T ?v)" by (simp add: o)
  show p: "tap_promises ?T ?v"
  proof (rule tap_promisesI [OF _ _ n])
    show "[] \<notin> snd ` set hs" if "tap_head_acts ?T ?rq ?text (vis_data ?v) = Some (hs, status, d)" for hs status d
      using that d(1) by (simp add: v)
    show "0 \<le> status \<and> status < 1000 \<and> tap_body ?T ?v status d \<noteq> None"
      if "Some (hs, status, d) \<in> set (tap_outcomes ?T ?v)" for hs status d
      using that body [of "''o''"] body [of "''ok''"] by (auto simp: o)
  qed (simp_all add: v)
  assume A: "A \<in> tap_answers ?T ?v"
  then have s: "tap_status_acts ?T ?v (an_interim A) (an_headers A) (an_status A) (an_data A)"
    "tap_body ?T ?v (an_status A) (an_data A) = Some (an_body A, an_final A)"
    using p by (simp_all add: tap_answers_def)
  have "an_headers A = []" "an_status A = 200" "an_body A = ''o'' \<or> an_body A = ''ok''"
    using tap_status_outcomes [OF s(1) n] s(2) body [of "''o''"] body [of "''ok''"] by (auto simp: o)
  moreover from this(3) have "length (an_body A) \<le> 2" by auto
  ultimately show "answer_ok demo_clock 0 256 (an_status A) (an_headers A) (an_body A)"
    using standard_lines_length [of demo_clock 0] by (simp add: answer_ok_def header_lines_def)
qed


lemma tap_serves_witness:
  "\<exists>code st' w' d'. minute_httpd_handle (minuted_tap_app data_tcl) demo_clock 0 demo_post demo_world echo_data
     = Some (Some (code, st', w', d')) \<and> code = httpd_client_ok_close"
proof -
  obtain y where y: "request_received demo_post demo_world y ''ok''"
      "visit_of demo_post y ''ok'' echo_data = demo_post_visit" by (rule demo_post_scan)
  have "length demo_post_request = 40" "\<not> keeps_open (vis_rq demo_post_visit)" by code_simp+
  moreover have "c_rq y = vis_rq demo_post_visit" unfolding y(2) [symmetric] by (simp add: visit_of_def)
  moreover note tap_serves [OF y(1) y(2) [symmetric] echo_promises(1), of demo_clock 0]
  ultimately show ?thesis
    using echo_promises(2) demo_post_ok by auto
qed

end
