(* ===== verification/Tap_Session.thy ===== *)
theory Tap_Session
  imports Tap_Echo
begin

text \<open>
  A connection of \<open>minuted_tap_handle\<close> (\<open>src/minuted/tap.c\<close>) over its requests: nothing of a
  request is left for the next one, every answered request has one line in the access log, and what
  becomes of a request whose head procedure fails.
\<close>

section \<open>What the callbacks keep\<close>

text \<open>A property of the application's state that every callback keeps, and so
  \<open>minute_httpd_handle\<close> does.\<close>

locale app_invariant =
  fixes app :: "'u minute_httpd_app" and P :: "'u \<Rightarrow> bool"
  assumes header_keeps: "app_header app r u = Some (Some (n, r', u')) \<Longrightarrow> P u \<Longrightarrow> P u'"
    and payload_keeps: "app_payload app r u = Some (Some (n, r', u')) \<Longrightarrow> P u \<Longrightarrow> P u'"
    and response_keeps: "app_response app k r u = Some (Some (n, r', u')) \<Longrightarrow> P u \<Longrightarrow> P u'"
    and error_keeps: "P u \<Longrightarrow> P (app_error app rq k u)"
begin

lemma status_keeps: "handle_status app r u = Some (Some (n, r', u')) \<Longrightarrow> P u \<Longrightarrow> P u'"
  unfolding handle_status_def
  by (auto elim!: c_bindE split: if_split_asm) (blast intro: header_keeps payload_keeps)+

lemma body_keeps: "handle_body app k r u = Some (Some (r', u')) \<Longrightarrow> P u \<Longrightarrow> P u'"
  unfolding handle_body_def Let_def by (auto elim!: c_bindE split: if_split_asm dest: response_keeps)

lemma request_keeps: "handle_request app gmtime now r u = Some (Some (code, r', u')) \<Longrightarrow> P u \<Longrightarrow> P u'"
  unfolding handle_request_def Let_def by (auto elim!: c_bindE dest: status_keeps body_keeps)

lemma handle_keeps:
  "minute_httpd_handle app gmtime now st w u = Some (Some (code, st', w', u')) \<Longrightarrow> P u \<Longrightarrow> P u'"
  unfolding minute_httpd_handle_def Let_def
  by (auto elim!: c_bindE split: if_split_asm dest: request_keeps error_keeps)

end

section \<open>The access log\<close>

definition access_lines :: "('o, 's) tap_rq_data \<Rightarrow> string list" where
  "access_lines d = map snd (filter (\<lambda>l. fst l = CHR ''A'') (d_log d))"

text \<open>What a request may not change: the listener and the access log.\<close>

definition keeps_log :: "string list \<Rightarrow> nat \<Rightarrow> ('o, 's) tap_rq_data \<Rightarrow> bool" where
  "keeps_log ls i d \<longleftrightarrow> access_lines d = ls \<and> d_listenId d = i"

lemma keeps_log_simps [simp]:
  "type \<noteq> CHR ''A'' \<Longrightarrow> keeps_log ls i (say type text d) = keeps_log ls i d"
  "keeps_log ls i (d\<lparr>d_rs := x1\<rparr>) = keeps_log ls i d" "keeps_log ls i (d\<lparr>d_vhost := x2\<rparr>) = keeps_log ls i d"
  "keeps_log ls i (d\<lparr>d_path := x3\<rparr>) = keeps_log ls i d" "keeps_log ls i (d\<lparr>d_query := x3\<rparr>) = keeps_log ls i d"
  "keeps_log ls i (d\<lparr>d_host := x3\<rparr>) = keeps_log ls i d" "keeps_log ls i (d\<lparr>d_method := x4\<rparr>) = keeps_log ls i d"
  "keeps_log ls i (d\<lparr>d_status := x3\<rparr>) = keeps_log ls i d" "keeps_log ls i (d\<lparr>d_code := x5\<rparr>) = keeps_log ls i d"
  "keeps_log ls i (d\<lparr>d_cmdno := x6\<rparr>) = keeps_log ls i d"
  by (simp_all add: keeps_log_def access_lines_def say_def)

lemma keeps_log_parts:
  "tap_create_meta T d = (o_meta, d') \<Longrightarrow> keeps_log ls i d' = keeps_log ls i d"
  "keeps_log ls i (set_interp k s d) = keeps_log ls i d"
  "keeps_log ls i (head_done rq n d) = keeps_log ls i d"
  "minuted_tap_status T res d = Some (n, d') \<Longrightarrow> keeps_log ls i d' = keeps_log ls i d"
  "host_number T choice d = (z, d') \<Longrightarrow> keeps_log ls i d' = keeps_log ls i d"
  "run_proc W k proc objv r d = Some (Some (code, res, r', d')) \<Longrightarrow> keeps_log ls i d' = keeps_log ls i d"
  by (auto simp: tap_create_meta_def Let_def set_interp_def head_done_def minuted_tap_status_def host_number_def
      run_proc_def bind_eq_Some_conv elim!: c_bindE split: option.splits if_splits host_choice.splits)

lemma keeps_log_results:
  "head_request T rq text d = Some (z, d') \<Longrightarrow> keeps_log ls i d' = keeps_log ls i d"
  "head_result T code res d = Some (n, d') \<Longrightarrow> keeps_log ls i d' = keeps_log ls i d"
  "payload_result T code res d = Some (n, d') \<Longrightarrow> keeps_log ls i d' = keeps_log ls i d"
  "response_result T code res d = (n, d') \<Longrightarrow> keeps_log ls i d' = keeps_log ls i d"
  by (auto simp: head_request_def head_result_def payload_result_def response_result_def bind_eq_Some_conv Let_def
      dest!: keeps_log_parts(4,5) [where ls = ls and i = i] split: if_splits)

interpretation tap_log: app_invariant "minuted_tap_app T" "keeps_log ls i" for T ls i
proof (unfold_locales, unfold tap_app_sel)
  fix r n r' and d d' :: "('a, 'b) tap_rq_data"
  assume "minuted_tap_head T r d = Some (Some (n, r', d'))" "keeps_log ls i d"
  then show "keeps_log ls i d'"
    unfolding minuted_tap_head_def
    by (auto simp: c_step_Some keeps_log_parts(3) elim!: c_bindE split: sum.split_asm prod.split_asm
        dest!: keeps_log_parts(1,6) [where ls = ls and i = i] keeps_log_results(1,2) [where ls = ls and i = i])
next
  fix r n r' and d d' :: "('a, 'b) tap_rq_data"
  assume "minuted_tap_payload T r d = Some (Some (n, r', d'))" "keeps_log ls i d"
  then show "keeps_log ls i d'"
    unfolding minuted_tap_payload_def
    by (auto simp: c_step_Some elim!: c_bindE split: option.split_asm prod.split_asm if_split_asm
        dest!: keeps_log_parts(1,6) [where ls = ls and i = i] keeps_log_results(3) [where ls = ls and i = i])
next
  fix k r n r' and d d' :: "('a, 'b) tap_rq_data"
  assume "minuted_tap_response T k r d = Some (Some (n, r', d'))" "keeps_log ls i d"
  then show "keeps_log ls i d'"
    unfolding minuted_tap_response_def
    by (auto simp: c_step_Some elim!: c_bindE split: option.split_asm prod.split_asm
        dest!: keeps_log_parts(1,6) [where ls = ls and i = i] keeps_log_results(4) [where ls = ls and i = i])
qed (simp add: minuted_tap_error_def)


section \<open>A connection\<close>

text \<open>The requests of a connection, one after the other, with the codes of
  \<open>minute_httpd_handle\<close>.\<close>

inductive tap_rounds ::
    "'o tcl \<Rightarrow> (int \<Rightarrow> tm) \<Rightarrow> (nat \<Rightarrow> unsigned) \<Rightarrow> string \<Rightarrow> minute_httpd_state \<times> world \<times> ('o, 's) tap_rq_data
     \<Rightarrow> int list \<Rightarrow> minute_httpd_state \<times> world \<times> ('o, 's) tap_rq_data \<Rightarrow> bool"
  for T gmtime clock addr c where
  rounds_start: "tap_rounds T gmtime clock addr c [] c"
| rounds_step: "tap_rounds T gmtime clock addr c rs (st, w, d)
    \<Longrightarrow> \<forall>r \<in> set rs. r = httpd_client_ok_open
    \<Longrightarrow> minute_httpd_handle (minuted_tap_app T) gmtime (clock (length rs)) st w d = Some (Some (r, st', w', d'))
    \<Longrightarrow> tap_rounds T gmtime clock addr c (rs @ [r]) (st', w', snd (tap_handled T addr r d'))"

text \<open>The loop makes such rounds, until one does not leave the connection open.\<close>

definition ends_rounds ::
    "'o tcl \<Rightarrow> (int \<Rightarrow> tm) \<Rightarrow> (nat \<Rightarrow> unsigned) \<Rightarrow> string \<Rightarrow> minute_httpd_state \<times> world \<times> ('o, 's) tap_rq_data
     \<Rightarrow> int \<Rightarrow> world \<Rightarrow> ('o, 's) tap_rq_data \<Rightarrow> bool" where
  "ends_rounds T gmtime clock addr c r w d \<longleftrightarrow>
     (\<exists>rs st q. tap_rounds T gmtime clock addr c (rs @ [q]) (st, w, d)
        \<and> (\<forall>r \<in> set rs. r = httpd_client_ok_open)
        \<and> r = (if q < 0 then httpd_client_ok_close else q) \<and> q \<noteq> httpd_client_ok_open)"

lemma handled_code: "fst (tap_handled T addr r d) = (if r < 0 then httpd_client_ok_close else r)"
  by (simp add: tap_handled_def)

lemma tap_loop_rounds:
  assumes "tap_loop T gmtime clock addr k st w d = Some (Some (r, w', d'))"
    and "tap_rounds T gmtime clock addr c rs (st, w, d)" "length rs = k" "\<forall>r \<in> set rs. r = httpd_client_ok_open"
  shows "ends_rounds T gmtime clock addr c r w' d'"
proof -
  let ?Q = "\<lambda>T gmtime clock addr c z. case z of None \<Rightarrow> True
      | Some (r, w, d) \<Rightarrow> ends_rounds T gmtime clock addr c r w d"
  have "\<forall>c rs. tap_rounds T gmtime clock addr c rs (st, w, d) \<longrightarrow> length rs = k
      \<longrightarrow> (\<forall>r \<in> set rs. r = httpd_client_ok_open) \<longrightarrow> ?Q T gmtime clock addr c z"
    if "tap_loop T gmtime clock addr k st w d = Some z" for T gmtime clock addr k st w d z
  proof (rule tap_loop.raw_induct [OF _ that])
    fix f T gmtime clock addr k st w d z
    assume f: "\<And>T gmtime clock addr k st w d z. f T gmtime clock addr k st w d = Some z
        \<Longrightarrow> \<forall>c rs. tap_rounds T gmtime clock addr c rs (st, w, d) \<longrightarrow> length rs = k
          \<longrightarrow> (\<forall>r \<in> set rs. r = httpd_client_ok_open) \<longrightarrow> ?Q T gmtime clock addr c z"
      and z: "c_bind (minute_httpd_handle (minuted_tap_app T) gmtime (clock k) st w d) (\<lambda>(r, st, w, d).
       case tap_handled T addr r d of (r, d) \<Rightarrow>
         if r = httpd_client_ok_open then f T gmtime clock addr (Suc k) st w d
         else Some (Some (r, w, d))) = Some z"
    show "\<forall>c rs. tap_rounds T gmtime clock addr c rs (st, w, d) \<longrightarrow> length rs = k
      \<longrightarrow> (\<forall>r \<in> set rs. r = httpd_client_ok_open) \<longrightarrow> ?Q T gmtime clock addr c z"
    proof (intro allI impI)
      fix c rs
      assume rs: "tap_rounds T gmtime clock addr c rs (st, w, d)" "length rs = k" "\<forall>r \<in> set rs. r = httpd_client_ok_open"
      show "?Q T gmtime clock addr c z"
      proof (cases z)
        case (Some a)
        then obtain q st1 w1 d1 where q: "minute_httpd_handle (minuted_tap_app T) gmtime (clock k) st w d = Some (Some (q, st1, w1, d1))"
          using z by (auto elim!: c_bindE)
        let ?d = "snd (tap_handled T addr q d1)"
        have step: "tap_rounds T gmtime clock addr c (rs @ [q]) (st1, w1, ?d)"
          using rounds_step [OF rs(1,3)] q rs(2) by simp
        show ?thesis
        proof (cases "q = httpd_client_ok_open")
          case True
          then have "f T gmtime clock addr (Suc k) st1 w1 ?d = Some z"
            using z q handled_code [of T addr q d1] by (simp add: split_beta httpd_client_ok_open_def)
          from f [OF this, THEN spec [of _ c], THEN spec [of _ "rs @ [q]"]] step rs(2,3) True
          show ?thesis by simp
        next
          case False
          then have "a = (fst (tap_handled T addr q d1), w1, ?d)"
            using z q Some handled_code [of T addr q d1]
            by (auto simp: split_beta httpd_client_ok_open_def httpd_client_ok_close_def split: if_splits)
          then show ?thesis
            using Some step rs(3) False handled_code [of T addr q d1] by (auto simp: ends_rounds_def)
        qed
      qed simp
    qed
  qed
  then show ?thesis using assms by fastforce
qed

text \<open>Data without a trace of a request.\<close>

definition clean :: "('o, 's) tap_rq_data \<Rightarrow> bool" where
  "clean d \<longleftrightarrow> d_vhost d = None \<and> d_path d = None \<and> d_query d = None \<and> d_host d = None \<and> d_status d = None
     \<and> d_code d = 0 \<and> d_method d = http_unknown_method"

lemma reset_clean: "clean (minuted_tap_reset d)" "access_lines (minuted_tap_reset d) = access_lines d"
  "d_listenId (minuted_tap_reset d) = d_listenId d"
  by (simp_all add: clean_def minuted_tap_reset_def access_lines_def)

definition answered :: "int \<Rightarrow> bool" where
  "answered r \<longleftrightarrow> r < 0 \<or> r \<in> {httpd_client_ok_open, httpd_client_ok_close}"

lemma handled_log:
  "clean (snd (tap_handled T addr r d))" "d_listenId (snd (tap_handled T addr r d)) = d_listenId d"
  "length (access_lines (snd (tap_handled T addr r d))) = length (access_lines d) + (if answered r then 1 else 0)"
proof -
  have a: "length (access_lines (minuted_tap_access T addr d)) = length (access_lines d) + 1"
    "d_listenId (minuted_tap_access T addr d) = d_listenId d" for d :: "('a, 'b) tap_rq_data"
    by (simp_all add: minuted_tap_access_def access_lines_def say_def Let_def)
  have c: "access_lines (d\<lparr>d_code := x\<rparr>) = access_lines d" for x by (simp add: access_lines_def)
  show "clean (snd (tap_handled T addr r d))" "d_listenId (snd (tap_handled T addr r d)) = d_listenId d"
    "length (access_lines (snd (tap_handled T addr r d))) = length (access_lines d) + (if answered r then 1 else 0)"
    by (auto simp: tap_handled_def reset_clean a c answered_def httpd_client_ok_open_def httpd_client_ok_close_def)
qed

lemma rounds_keep:
  "tap_rounds T gmtime clock addr c rs c' \<Longrightarrow> clean (snd (snd c)) \<Longrightarrow>
     clean (snd (snd c')) \<and> d_listenId (snd (snd c')) = d_listenId (snd (snd c))
     \<and> length (access_lines (snd (snd c'))) = length (access_lines (snd (snd c))) + length (filter answered rs)"
proof (induction rule: tap_rounds.induct)
  case (rounds_step rs st w d r st' w' d')
  have "keeps_log (access_lines d) (d_listenId d) d'"
    by (rule tap_log.handle_keeps [OF rounds_step.hyps(3)]) (simp add: keeps_log_def)
  then show ?case using rounds_step.IH rounds_step.prems handled_log [of T addr r d'] by (simp add: keeps_log_def)
qed simp



text \<open>A peer that closes at once.\<close>

definition demo_input :: world where
  "demo_input = \<lparr>w_in = [], w_script = [], w_sent = []\<rparr>"



section \<open>A head procedure that fails\<close>

text \<open>C27. When the head procedure of an application ends with an error, the request gets status
  500, but its data has no result list: the response callback that follows (for every method but
  HEAD) passes the null pointer on to the procedure's arguments, which is undefined behaviour.\<close>
theorem head_failure_undefined:
  assumes "clean d" "head_request T (r_rq r) (r_text r) d = Some (Inr i, d1)"
    and "tap_create_meta T (d1\<lparr>d_vhost := Some i\<rparr>) = (o_meta, d2)"
    and "run_proc \<lparr>tw_command = tap_tcl_headers_meta T, tw_input = no_input, tw_output = minuted_tap_no_out_proc\<rparr>
           i v_headers (head_objv T o_meta d2) r d2 = Some (Some (code, res, r1, d3))" "code \<noteq> TCL_OK"
  shows "\<exists>d'. minuted_tap_head T r d = Some (Some (500, r1, d')) \<and> d_code d' = 500
    \<and> minuted_tap_response T 500 r2 d' = Some None"
proof -
  have "d_status d1 = d_status d" by (rule head_request_Inr [OF assms(2)]) simp
  moreover have "d_status d2 = d_status d1" "d_vhost d2 = Some i" using assms(3) by (auto simp: tap_create_meta_def Let_def)
  moreover have "d_status d3 = d_status d2" "d_vhost d3 = d_vhost d2"
    using assms(4) by (auto simp: run_proc_def set_interp_def Let_def elim!: c_bindE split: if_splits)
  ultimately have s: "d_status d3 = None" "d_vhost d3 = Some i" using assms(1) by (simp_all add: clean_def)
  let ?d = "head_done (r_rq r1) 500 (say CHR ''E'' (''Head processing failed: '' @ Tcl_GetString T res) d3)"
  have "minuted_tap_head T r d = Some (Some (500, r1, ?d))"
    using assms(2-5) by (simp add: minuted_tap_head_def head_result_def)
  moreover have "minuted_tap_response T 500 r2 ?d = Some None"
    using s by (simp add: minuted_tap_response_def head_done_def say_def payload_objv_def tap_create_meta_def Let_def)
  ultimately show ?thesis by (auto simp: head_done_def)
qed

definition failing_runtime :: "(tcl_value, unit) tap_runtime" where
  "failing_runtime = demo_runtime\<lparr>tr_v := [demo_vhost\<lparr>v_headers := \<lambda>objv s. Tcl_done TCL_ERROR (V_string ''oops'') s\<rparr>]\<rparr>"

lemma head_failure_undefined_witness:
  "\<exists>r1 d'. minuted_tap_head data_tcl (first_response demo_server demo_world) (fresh_data failing_runtime 0 0) = Some (Some (500, r1, d'))
     \<and> minuted_tap_response data_tcl 500 r1 d' = Some None"
proof -
  let ?r = "first_response demo_server demo_world" and ?d = "fresh_data failing_runtime 0 0"
  let ?W = "\<lparr>tw_command = tap_tcl_headers_meta data_tcl, tw_input = no_input, tw_output = minuted_tap_no_out_proc\<rparr>"
  have "(case head_request data_tcl (r_rq ?r) (r_text ?r) ?d of
      Some (Inr i, d1) \<Rightarrow> i = 0 \<and> (case tap_create_meta data_tcl (d1\<lparr>d_vhost := Some 0\<rparr>) of (o_meta, d2) \<Rightarrow>
        (case run_proc ?W 0 v_headers (head_objv data_tcl o_meta d2) ?r d2 of
           Some (Some (code, res, r1, d3)) \<Rightarrow> code \<noteq> TCL_OK | _ \<Rightarrow> False)) | _ \<Rightarrow> False)"
    by code_simp
  note ev = this
  obtain c d1 where c: "head_request data_tcl (r_rq ?r) (r_text ?r) ?d = Some (c, d1)"
    using ev by (cases "head_request data_tcl (r_rq ?r) (r_text ?r) ?d") auto
  obtain o_meta d2 where m: "tap_create_meta data_tcl (d1\<lparr>d_vhost := Some 0\<rparr>) = (o_meta, d2)"
    by (cases "tap_create_meta data_tcl (d1\<lparr>d_vhost := Some 0\<rparr>)")
  have i: "c = Inr 0" using ev c by (cases c) auto
  obtain code res r1 d3 where
    p: "run_proc ?W 0 v_headers (head_objv data_tcl o_meta d2) ?r d2 = Some (Some (code, res, r1, d3))" "code \<noteq> TCL_OK"
    using ev c m i by (auto split: option.split_asm)
  have "clean ?d" by (simp add: clean_def fresh_data_def)
  from head_failure_undefined [OF this c [unfolded i] m p, of r1] show ?thesis by blast
qed

end
