(* ===== verification/Minuted_Config.thy ===== *)
theory Minuted_Config
  imports Tap
begin

text \<open>
  The configuration (\<open>src/minuted/config.c\<close>): the commands of the configuration language, and
  reading a file with them.  The interpreter's evaluation of a script is an argument, a tree of the
  commands it calls; a body that a command may evaluate comes with its tree.
\<close>

section \<open>State\<close>

record 'o configuration =
  c_vhosts :: 'o
  c_listen :: 'o

text \<open>\<open>configure_state\<close>: the virtual host that is being configured, and the configuration being
  read; both may be null pointers.\<close>

record 'o configure_state =
  cs_current :: "'o option"
  cs_conf    :: "'o configuration option"

definition cs_application :: string where "cs_application = ''application''"

section \<open>The commands\<close>

text \<open>A command answers its result code; \<open>access\<close> tells which files can be read.\<close>

definition vhost_tcl_application ::
    "'o tcl \<Rightarrow> ('o \<Rightarrow> bool) \<Rightarrow> 'o list \<Rightarrow> 'o configure_state \<Rightarrow> (int \<times> 'o configure_state) option" where
  "vhost_tcl_application T access objv cs =
     (if length objv \<noteq> 2 then Some (TCL_ERROR, cs)
      else if \<not> access (objv ! 1) then Some (TCL_ERROR, cs)
      else do {
        current \<leftarrow> cs_current cs;
        Some (TCL_OK, case Tcl_DictObjPut T current (Tcl_NewStringObj T cs_application) (objv ! 1) of
            None \<Rightarrow> cs
          | Some d \<Rightarrow> cs\<lparr>cs_current := Some d\<rparr>)
      })"

definition minuted_tcl_vhost ::
    "'o tcl \<Rightarrow> ('o configure_state \<Rightarrow> (int \<times> 'o configure_state) option) \<Rightarrow> 'o list
     \<Rightarrow> 'o configure_state \<Rightarrow> (int \<times> 'o configure_state) option" where
  "minuted_tcl_vhost T eval objv cs =
     (if length objv \<noteq> 3 then Some (TCL_ERROR, cs)
      else do {
        conf \<leftarrow> cs_conf cs;
        (case Tcl_DictObjGet T (c_vhosts conf) (objv ! 1) of
           None \<Rightarrow> Some (TCL_ERROR, cs)
         | Some (Some exists) \<Rightarrow> Some (TCL_ERROR, cs)
         | Some None \<Rightarrow> do {
             let pcur = cs_current cs in do {
             (r, cs) \<leftarrow> eval (cs\<lparr>cs_current := Some (Tcl_NewDictObj T)\<rparr>);
             conf \<leftarrow> cs_conf cs;
             current \<leftarrow> cs_current cs;
             let conf' = (if r = TCL_OK
                          then (case Tcl_DictObjPut T (c_vhosts conf) (objv ! 1) current of
                              None \<Rightarrow> conf | Some d \<Rightarrow> conf\<lparr>c_vhosts := d\<rparr>)
                          else conf) in
             Some (r, cs\<lparr>cs_conf := Some conf', cs_current := pcur\<rparr>) }
           })
      })"

text \<open>The loop over the names of a listener: the dictionary of the listener, which is an entry of
  \<open>c_listen\<close> and changed in place.\<close>

function listen_loop ::
    "'o tcl \<Rightarrow> 'o \<Rightarrow> 'o \<Rightarrow> nat \<Rightarrow> nat \<Rightarrow> 'o \<Rightarrow> int \<times> 'o" where
  "listen_loop T conf_vhosts vhosts i ni vhostdict =
     (if i < ni then
        (case Tcl_ListObjIndex T vhosts i of
           None \<Rightarrow> (TCL_ERROR, vhostdict)
         | Some None \<Rightarrow> listen_loop T conf_vhosts vhosts (i + 1) ni vhostdict
         | Some (Some n) \<Rightarrow>
             (case Tcl_DictObjGet T conf_vhosts n of
                None \<Rightarrow> (TCL_ERROR, vhostdict)
              | Some None \<Rightarrow> (TCL_ERROR, vhostdict)
              | Some (Some v) \<Rightarrow>
                  listen_loop T conf_vhosts vhosts (i + 1) ni
                    (case Tcl_DictObjPut T vhostdict n v of None \<Rightarrow> vhostdict | Some d \<Rightarrow> d)))
      else (TCL_OK, vhostdict))"
  by pat_completeness auto
termination by (relation "measure (\<lambda>(T, cv, vs, i, ni, d). ni - i)") auto

declare listen_loop.simps [simp del]

definition listen_put :: "'o tcl \<Rightarrow> 'o \<Rightarrow> 'o configuration \<Rightarrow> 'o \<Rightarrow> 'o configuration" where
  "listen_put T key conf vhostdict =
     (case Tcl_DictObjPut T (c_listen conf) key vhostdict of None \<Rightarrow> conf | Some d \<Rightarrow> conf\<lparr>c_listen := d\<rparr>)"

text \<open>The listener's dictionary, made when it is not there yet.\<close>

definition listen_dict :: "'o tcl \<Rightarrow> 'o \<Rightarrow> 'o configuration \<Rightarrow> ('o configuration \<times> 'o) option" where
  "listen_dict T key conf =
     (case Tcl_DictObjGet T (c_listen conf) key of
        None \<Rightarrow> None
      | Some (Some d) \<Rightarrow> Some (conf, d)
      | Some None \<Rightarrow> Some (listen_put T key conf (Tcl_NewDictObj T), Tcl_NewDictObj T))"

definition minuted_tcl_listen ::
    "'o tcl \<Rightarrow> 'o list \<Rightarrow> 'o configure_state \<Rightarrow> (int \<times> 'o configure_state) option" where
  "minuted_tcl_listen T objv cs =
     (if length objv \<noteq> 4 then Some (TCL_ERROR, cs)
      else do {
        conf \<leftarrow> cs_conf cs;
        let vhosts = objv ! 3; key = Tcl_NewListObj T [objv ! 1, objv ! 2] in
        (case listen_dict T key conf of
           None \<Rightarrow> Some (TCL_ERROR, cs)
         | Some (conf, vhostdict) \<Rightarrow>
             (case Tcl_ListObjLength T vhosts of
                None \<Rightarrow> Some (TCL_ERROR, cs\<lparr>cs_conf := Some conf\<rparr>)
              | Some ni \<Rightarrow>
                  if ni = 1 \<and> Tcl_GetString T vhosts = ''+'' then Some (TCL_OK, cs\<lparr>cs_conf := Some conf\<rparr>)
                  else (case listen_loop T (c_vhosts conf) vhosts 0 ni vhostdict of (r, vhostdict) \<Rightarrow>
                    Some (r, cs\<lparr>cs_conf := Some (listen_put T key conf vhostdict)\<rparr>))))
      })"

definition tcl_comment :: "'o list \<Rightarrow> 'o configure_state \<Rightarrow> (int \<times> 'o configure_state) option" where
  "tcl_comment objv cs = Some (TCL_OK, cs)"

definition tcl_comment_c ::
    "'o tcl \<Rightarrow> 'o list \<Rightarrow> 'o configure_state \<Rightarrow> (int \<times> 'o configure_state) option" where
  "tcl_comment_c T objv cs =
     (if objv = [] then None
      else Some (if Tcl_GetString T (objv ! (length objv - 1)) = ''*/'' then TCL_OK else TCL_ERROR, cs))"

section \<open>Reading a configuration\<close>

text \<open>A script running: it ends with a code, or calls a command and goes on with its code.\<close>

datatype 'o conf_run =
    Conf_end int
  | Conf_application "'o list" "int \<Rightarrow> 'o conf_run"
  | Conf_vhost "'o list" "'o conf_run" "int \<Rightarrow> 'o conf_run"
  | Conf_listen "'o list" "int \<Rightarrow> 'o conf_run"
  | Conf_comment "'o list" "int \<Rightarrow> 'o conf_run"
  | Conf_comment_c "'o list" "int \<Rightarrow> 'o conf_run"

primrec conf_exec ::
    "'o tcl \<Rightarrow> ('o \<Rightarrow> bool) \<Rightarrow> 'o conf_run \<Rightarrow> 'o configure_state \<Rightarrow> (int \<times> 'o configure_state) option" where
  "conf_exec T access (Conf_end code) cs = Some (code, cs)"
| "conf_exec T access (Conf_application objv k) cs =
     do { (r, cs) \<leftarrow> vhost_tcl_application T access objv cs; conf_exec T access (k r) cs }"
| "conf_exec T access (Conf_vhost objv body k) cs =
     do { (r, cs) \<leftarrow> minuted_tcl_vhost T (conf_exec T access body) objv cs; conf_exec T access (k r) cs }"
| "conf_exec T access (Conf_listen objv k) cs =
     do { (r, cs) \<leftarrow> minuted_tcl_listen T objv cs; conf_exec T access (k r) cs }"
| "conf_exec T access (Conf_comment objv k) cs =
     do { (r, cs) \<leftarrow> tcl_comment objv cs; conf_exec T access (k r) cs }"
| "conf_exec T access (Conf_comment_c objv k) cs =
     do { (r, cs) \<leftarrow> tcl_comment_c T objv cs; conf_exec T access (k r) cs }"

definition TCL_RETURN :: int where "TCL_RETURN = 2"
definition TCL_BREAK :: int where "TCL_BREAK = 3"
definition TCL_CONTINUE :: int where "TCL_CONTINUE = 4"

definition minuted_configure_init :: "'o configure_state" where
  "minuted_configure_init = \<lparr>cs_current = None, cs_conf = None\<rparr>"

text \<open>\<open>minuted_configure\<close> with a file name: its result, the configuration and the state.\<close>

definition minuted_configure ::
    "'o tcl \<Rightarrow> ('o \<Rightarrow> bool) \<Rightarrow> string \<Rightarrow> 'o conf_run \<Rightarrow> 'o configure_state
     \<Rightarrow> (int \<times> 'o configuration \<times> 'o configure_state) option" where
  "minuted_configure T access filename run cs =
     (let file = Tcl_NewStringObj T filename;
          cs = cs\<lparr>cs_conf := Some \<lparr>c_vhosts = Tcl_NewDictObj T, c_listen = Tcl_NewDictObj T\<rparr>\<rparr> in do {
        (r, cs) \<leftarrow> (if access file then conf_exec T access run cs else Some (TCL_ERROR, cs));
        c \<leftarrow> cs_conf cs;
        Some (if r = TCL_OK then (0, c, cs\<lparr>cs_conf := None\<rparr>)
              else if r = TCL_ERROR then (1, c, cs)
              else if r \<in> {TCL_BREAK, TCL_CONTINUE, TCL_RETURN} then (2, c, cs)
              else (3, c, cs))
      })"


section \<open>Dictionaries\<close>

definition keys :: "'o tcl \<Rightarrow> ('o \<times> 'o) list \<Rightarrow> string list" where
  "keys T es = map (\<lambda>e. Tcl_GetString T (fst e)) es"

lemma keys_simps [simp]: "keys T [] = []" "keys T (e # es) = Tcl_GetString T (fst e) # keys T es"
  by (simp_all add: keys_def)

lemma keys_length [simp]: "length (keys T es) = length es"
  by (simp add: keys_def)

lemma keys_put:
  "keys T (entries_put (Tcl_GetString T) k v es)
   = (if Tcl_GetString T k \<in> set (keys T es) then keys T es else keys T es @ [Tcl_GetString T k])"
  by (induction es) auto

lemma keys_put_set [simp]:
  "set (keys T (entries_put (Tcl_GetString T) k v es)) = insert (Tcl_GetString T k) (set (keys T es))"
  by (auto simp: keys_put)

lemma distinct_put: "distinct (keys T es) \<Longrightarrow> distinct (keys T (entries_put (Tcl_GetString T) k v es))"
  by (simp add: keys_put)

lemma put_entries: "(k', v') \<in> set (entries_put str k v es) \<Longrightarrow> v' = v \<or> (k', v') \<in> set es"
  by (induction es) (auto split: if_splits)

lemma get_entries: "entries_get str k es = Some v \<Longrightarrow> \<exists>k'. (k', v) \<in> set es"
  by (induction es) (auto split: if_splits)

lemma get_keys: "entries_get (Tcl_GetString T) k es = None \<longleftrightarrow> k \<notin> set (keys T es)"
  by (induction es) (auto split: if_splits)

lemma get_put:
  "entries_get str k (entries_put str k' v es) = (if str k' = k then Some v else entries_get str k es)"
  by (induction es) auto

lemma law_get: "tcl_laws T \<Longrightarrow> Tcl_DictObjAll T d = Some es
    \<Longrightarrow> Tcl_DictObjGet T d k = Some (entries_get (Tcl_GetString T) (Tcl_GetString T k) es)"
  by (simp add: tcl_laws_def)

lemma law_put:
  assumes "tcl_laws T" "Tcl_DictObjAll T d = Some es"
  obtains d' where "Tcl_DictObjPut T d k v = Some d'" "Tcl_DictObjAll T d' = Some (entries_put (Tcl_GetString T) k v es)"
  using assms unfolding tcl_laws_def by blast

lemma law_new: "tcl_laws T \<Longrightarrow> Tcl_DictObjAll T (Tcl_NewDictObj T) = Some []"
  by (simp add: tcl_laws_def)

section \<open>The invariant of a configuration\<close>

text \<open>Every name of a listener is the name of a virtual host, no name is there twice, and the keys of the
  listeners are lists of an address and a port.\<close>

definition pair_keys :: "'o tcl \<Rightarrow> ('o \<times> 'o) list \<Rightarrow> bool" where
  "pair_keys T ls \<longleftrightarrow> (\<forall>k \<in> fst ` set ls. \<exists>a s. k = Tcl_NewListObj T [a, s])"

lemma pair_keys_put: "pair_keys T ls \<Longrightarrow> pair_keys T (entries_put str (Tcl_NewListObj T [a, s]) v ls)"
proof -
  have "(k', v') \<in> set (entries_put str k v ls) \<Longrightarrow> k' = k \<or> k' \<in> fst ` set ls" for k k' v'
    by (induction ls) (auto simp: image_iff split: if_split_asm, force+)
  then show "pair_keys T ls \<Longrightarrow> pair_keys T (entries_put str (Tcl_NewListObj T [a, s]) v ls)"
    unfolding pair_keys_def by fastforce
qed

definition hosts_known :: "'o tcl \<Rightarrow> ('o \<times> 'o) list \<Rightarrow> 'o \<Rightarrow> bool" where
  "hosts_known T vs d \<longleftrightarrow> (\<exists>es. Tcl_DictObjAll T d = Some es \<and> set (keys T es) \<subseteq> set (keys T vs))"

definition conf_ok :: "'o tcl \<Rightarrow> 'o configuration \<Rightarrow> bool" where
  "conf_ok T c \<longleftrightarrow> (\<exists>vs ls. Tcl_DictObjAll T (c_vhosts c) = Some vs \<and> distinct (keys T vs)
     \<and> Tcl_DictObjAll T (c_listen c) = Some ls \<and> distinct (keys T ls)
     \<and> pair_keys T ls \<and> (\<forall>d \<in> snd ` set ls. hosts_known T vs d))"

definition state_conf_ok :: "'o tcl \<Rightarrow> 'o configure_state \<Rightarrow> bool" where
  "state_conf_ok T cs \<longleftrightarrow> (\<exists>c. cs_conf cs = Some c \<and> conf_ok T c)"

lemma hosts_known_mono: "hosts_known T vs d \<Longrightarrow> set (keys T vs) \<subseteq> set (keys T vs') \<Longrightarrow> hosts_known T vs' d"
  by (auto simp: hosts_known_def)

text \<open>The same with the dictionaries written out.\<close>

definition entries_ok :: "'o tcl \<Rightarrow> ('o \<times> 'o) list \<Rightarrow> ('o \<times> 'o) list \<Rightarrow> bool" where
  "entries_ok T vs ls \<longleftrightarrow> distinct (keys T vs) \<and> distinct (keys T ls) \<and> pair_keys T ls
     \<and> (\<forall>(k, d) \<in> set ls. hosts_known T vs d)"

lemma entries_ok_vhost: "entries_ok T vs ls \<Longrightarrow> entries_ok T (entries_put (Tcl_GetString T) k v vs) ls"
  unfolding entries_ok_def using distinct_put [of T vs k v]
  by (auto intro: hosts_known_mono [where vs = vs])

lemma entries_ok_listen:
  "entries_ok T vs ls \<Longrightarrow> hosts_known T vs v \<Longrightarrow> entries_ok T vs (entries_put (Tcl_GetString T) (Tcl_NewListObj T [a, s]) v ls)"
  unfolding entries_ok_def using distinct_put [of T ls "Tcl_NewListObj T [a, s]" v] pair_keys_put [of T ls]
  by (auto dest!: put_entries)

lemma conf_okE:
  assumes "conf_ok T c"
  obtains vs ls where "Tcl_DictObjAll T (c_vhosts c) = Some vs" "Tcl_DictObjAll T (c_listen c) = Some ls" "entries_ok T vs ls"
  using assms unfolding conf_ok_def entries_ok_def by fastforce

lemma conf_okI:
  "Tcl_DictObjAll T (c_vhosts c) = Some vs \<Longrightarrow> Tcl_DictObjAll T (c_listen c) = Some ls \<Longrightarrow> entries_ok T vs ls
   \<Longrightarrow> conf_ok T c"
  unfolding conf_ok_def entries_ok_def by auto

lemma conf_ok_vhost:
  assumes "tcl_laws T" "conf_ok T c" "Tcl_DictObjPut T (c_vhosts c) k v = Some d"
  shows "conf_ok T (c\<lparr>c_vhosts := d\<rparr>)"
proof -
  obtain vs ls where c: "Tcl_DictObjAll T (c_vhosts c) = Some vs" "Tcl_DictObjAll T (c_listen c) = Some ls" "entries_ok T vs ls"
    by (rule conf_okE [OF assms(2)])
  obtain d' where "Tcl_DictObjPut T (c_vhosts c) k v = Some d'"
      "Tcl_DictObjAll T d' = Some (entries_put (Tcl_GetString T) k v vs)"
    by (rule law_put [OF assms(1) c(1)])
  then show ?thesis using conf_okI [OF _ _ entries_ok_vhost [OF c(3)]] c(2) assms(3) by simp
qed

lemma conf_ok_listen:
  assumes "tcl_laws T" "conf_ok T c" "Tcl_DictObjAll T (c_vhosts c) = Some vs" "hosts_known T vs v"
  obtains d where "Tcl_DictObjPut T (c_listen c) (Tcl_NewListObj T [a, s]) v = Some d" "conf_ok T (c\<lparr>c_listen := d\<rparr>)"
proof -
  let ?k = "Tcl_NewListObj T [a, s]"
  obtain ls where c: "Tcl_DictObjAll T (c_listen c) = Some ls" "entries_ok T vs ls"
    using conf_okE [OF assms(2)] assms(3) by force
  obtain d where "Tcl_DictObjPut T (c_listen c) ?k v = Some d"
      "Tcl_DictObjAll T d = Some (entries_put (Tcl_GetString T) ?k v ls)"
    by (rule law_put [OF assms(1) c(1)])
  then show ?thesis using that conf_okI [OF _ _ entries_ok_listen [OF c(2) assms(4), of a s]] assms(3) by simp
qed

lemma listen_loop_known:
  assumes "tcl_laws T" "Tcl_DictObjAll T cv = Some vs" "hosts_known T vs d"
  shows "hosts_known T vs (snd (listen_loop T cv vhosts i ni d))"
  using assms
proof (induction T cv vhosts i ni d rule: listen_loop.induct)
  case (1 T cv vhosts i ni d)
  show ?case
  proof (cases "i < ni \<and> (\<exists>n v. Tcl_ListObjIndex T vhosts i = Some (Some n) \<and> Tcl_DictObjGet T cv n = Some (Some v))")
    case True
    then obtain n v where n: "Tcl_ListObjIndex T vhosts i = Some (Some n)" "Tcl_DictObjGet T cv n = Some (Some v)"
      by blast
    obtain es where es: "Tcl_DictObjAll T d = Some es" "set (keys T es) \<subseteq> set (keys T vs)"
      using "1.prems"(3) by (auto simp: hosts_known_def)
    obtain d' where d': "Tcl_DictObjPut T d n v = Some d'" "Tcl_DictObjAll T d' = Some (entries_put (Tcl_GetString T) n v es)"
      by (rule law_put [OF "1.prems"(1) es(1)])
    have "Tcl_GetString T n \<in> set (keys T vs)"
      using n(2) law_get [OF "1.prems"(1,2)] get_keys [of T "Tcl_GetString T n" vs] by auto
    then have "hosts_known T vs d'" using d'(2) es(2) by (simp add: hosts_known_def)
    then show ?thesis
      using "1.IH"(2) [OF _ n(1) refl n(2) refl] "1.prems"(1,2) True n d'(1)
      by (subst listen_loop.simps) simp
  next
    case False
    then show ?thesis
      using "1.IH"(1) "1.prems" by (subst listen_loop.simps) (auto split: option.split)
  qed
qed


section \<open>Every command keeps it\<close>

text \<open>A script is well placed when \<open>application\<close> is called inside of a virtual host only, and the
  comment commands have their own name as first word, whatever the commands before answered.\<close>

primrec placed :: "bool \<Rightarrow> 'o conf_run \<Rightarrow> bool" where
  "placed inside (Conf_end code) = True"
| "placed inside (Conf_application objv k) = (inside \<and> (\<forall>r. placed inside (k r)))"
| "placed inside (Conf_vhost objv body k) = (placed True body \<and> (\<forall>r. placed inside (k r)))"
| "placed inside (Conf_listen objv k) = (\<forall>r. placed inside (k r))"
| "placed inside (Conf_comment objv k) = (\<forall>r. placed inside (k r))"
| "placed inside (Conf_comment_c objv k) = (objv \<noteq> [] \<and> (\<forall>r. placed inside (k r)))"

text \<open>What a command that is defined leaves behind.\<close>

definition kept :: "'o tcl \<Rightarrow> 'o configure_state \<Rightarrow> (int \<times> 'o configure_state) option \<Rightarrow> bool" where
  "kept T cs z \<longleftrightarrow> (\<exists>r cs'. z = Some (r, cs') \<and> state_conf_ok T cs'
     \<and> (cs_current cs' = None \<longleftrightarrow> cs_current cs = None))"

lemma keptE:
  assumes "kept T cs z"
  obtains r cs' where "z = Some (r, cs')" "state_conf_ok T cs'" "cs_current cs' = None \<longleftrightarrow> cs_current cs = None"
proof -
  from assms obtain r cs' where "z = Some (r, cs') \<and> state_conf_ok T cs'
     \<and> (cs_current cs' = None \<longleftrightarrow> cs_current cs = None)"
    unfolding kept_def by (elim exE)
  then show ?thesis by (elim conjE) (rule that)
qed

lemma kept_bind:
  assumes "kept T cs z"
    and "\<And>r cs'. state_conf_ok T cs' \<Longrightarrow> (cs_current cs' = None \<longleftrightarrow> cs_current cs = None) \<Longrightarrow> kept T cs' (f r cs')"
  shows "kept T cs (z \<bind> (\<lambda>(r, cs). f r cs))"
proof -
  obtain r cs' where 1: "z = Some (r, cs')" "state_conf_ok T cs'" "cs_current cs' = None \<longleftrightarrow> cs_current cs = None"
    by (rule keptE [OF assms(1)])
  then show ?thesis using assms(2) [of cs' r] by (auto simp: kept_def)
qed

lemma kept_same: "state_conf_ok T cs \<Longrightarrow> kept T cs (Some (r, cs))"
  by (simp add: kept_def)

lemma kept_application:
  assumes "state_conf_ok T cs" "cs_current cs \<noteq> None"
  shows "kept T cs (vhost_tcl_application T access objv cs)"
proof -
  obtain current where 1: "cs_current cs = Some current" using assms(2) by auto
  have "state_conf_ok T (cs\<lparr>cs_current := x\<rparr>)" for x using assms(1) by (simp add: state_conf_ok_def)
  then show ?thesis
    using assms(1) 1 unfolding vhost_tcl_application_def kept_def
    by (cases "Tcl_DictObjPut T current (Tcl_NewStringObj T cs_application) (objv ! 1)") auto
qed

lemma kept_vhost:
  assumes "tcl_laws T" "state_conf_ok T cs"
    and eval: "\<And>cs. state_conf_ok T cs \<Longrightarrow> cs_current cs \<noteq> None \<Longrightarrow> kept T cs (eval cs)"
  shows "kept T cs (minuted_tcl_vhost T eval objv cs)"
proof -
  obtain c where c: "cs_conf cs = Some c" "conf_ok T c" using assms(2) by (auto simp: state_conf_ok_def)
  let ?cs = "cs\<lparr>cs_current := Some (Tcl_NewDictObj T)\<rparr>"
  have "kept T ?cs (eval ?cs)" by (rule eval) (use c in \<open>simp_all add: state_conf_ok_def\<close>)
  then obtain r cs1 where 1: "eval ?cs = Some (r, cs1)" "state_conf_ok T cs1" "cs_current cs1 \<noteq> None"
    by (auto elim: keptE)
  then obtain c1 d where 2: "cs_conf cs1 = Some c1" "conf_ok T c1" "cs_current cs1 = Some d"
    by (auto simp: state_conf_ok_def)
  have "conf_ok T (case Tcl_DictObjPut T (c_vhosts c1) (objv ! 1) d of None \<Rightarrow> c1 | Some d \<Rightarrow> c1\<lparr>c_vhosts := d\<rparr>)"
    using conf_ok_vhost [OF assms(1) 2(2)] 2(2) by (simp split: option.split)
  then show ?thesis
    using c 1 2 assms(2)
    by (auto simp: minuted_tcl_vhost_def kept_def state_conf_ok_def split: option.split)
qed

lemma listen_put_ok:
  assumes "tcl_laws T" "conf_ok T c" "Tcl_DictObjAll T (c_vhosts c) = Some vs" "hosts_known T vs v"
  shows "conf_ok T (listen_put T (Tcl_NewListObj T [a, p]) c v)" "c_vhosts (listen_put T (Tcl_NewListObj T [a, p]) c v) = c_vhosts c"
proof -
  obtain d where "Tcl_DictObjPut T (c_listen c) (Tcl_NewListObj T [a, p]) v = Some d" "conf_ok T (c\<lparr>c_listen := d\<rparr>)"
    by (rule conf_ok_listen [OF assms])
  then show "conf_ok T (listen_put T (Tcl_NewListObj T [a, p]) c v)" "c_vhosts (listen_put T (Tcl_NewListObj T [a, p]) c v) = c_vhosts c"
    by (simp_all add: listen_put_def)
qed

lemma listen_dict_ok:
  assumes "tcl_laws T" "conf_ok T c" "Tcl_DictObjAll T (c_vhosts c) = Some vs"
  obtains c1 vd where "listen_dict T (Tcl_NewListObj T [a, p]) c = Some (c1, vd)" "conf_ok T c1" "c_vhosts c1 = c_vhosts c" "hosts_known T vs vd"
proof -
  obtain ls where d: "Tcl_DictObjAll T (c_listen c) = Some ls" "entries_ok T vs ls"
    using conf_okE [OF assms(2)] assms(3) by force
  have new: "hosts_known T vs (Tcl_NewDictObj T)" using law_new [OF assms(1)] by (simp add: hosts_known_def)
  show ?thesis
  proof (cases "entries_get (Tcl_GetString T) (Tcl_GetString T (Tcl_NewListObj T [a, p])) ls")
    case None
    then show ?thesis
      using that law_get [OF assms(1) d(1)] listen_put_ok [OF assms new] new by (simp add: listen_dict_def)
  next
    case (Some vd)
    then have "hosts_known T vs vd" using d(2) get_entries [OF Some] by (auto simp: entries_ok_def)
    then show ?thesis using that law_get [OF assms(1) d(1)] Some assms(2) by (simp add: listen_dict_def)
  qed
qed

lemma kept_listen:
  assumes "tcl_laws T" "state_conf_ok T cs"
  shows "kept T cs (minuted_tcl_listen T objv cs)"
proof -
  obtain c where c: "cs_conf cs = Some c" "conf_ok T c" using assms(2) by (auto simp: state_conf_ok_def)
  obtain vs ls where d: "Tcl_DictObjAll T (c_vhosts c) = Some vs" "Tcl_DictObjAll T (c_listen c) = Some ls" "entries_ok T vs ls"
    by (rule conf_okE [OF c(2)])
  let ?key = "Tcl_NewListObj T [objv ! 1, objv ! 2]"
  obtain c1 vd where 1: "listen_dict T ?key c = Some (c1, vd)" "conf_ok T c1" "c_vhosts c1 = c_vhosts c" "hosts_known T vs vd"
    by (rule listen_dict_ok [OF assms(1) c(2) d(1)])
  have "hosts_known T vs (snd (listen_loop T (c_vhosts c1) (objv ! 3) 0 ni vd))" for ni
    using listen_loop_known [OF assms(1) d(1) 1(4)] 1(3) by simp
  then have ok: "conf_ok T (listen_put T ?key c1 (snd (listen_loop T (c_vhosts c1) (objv ! 3) 0 ni vd)))" for ni
    using listen_put_ok [OF assms(1) 1(2)] d(1) 1(3) by simp
  show ?thesis
  proof (cases "length objv = 4")
    case False
    then show ?thesis using assms(2) by (simp add: minuted_tcl_listen_def kept_same)
  next
    case True
    then show ?thesis
      using c(1) 1(1,2) ok
      by (cases "Tcl_ListObjLength T (objv ! 3)")
        (auto simp: minuted_tcl_listen_def kept_def state_conf_ok_def Let_def split_beta)
  qed
qed

lemma exec_kept:
  assumes "tcl_laws T"
  shows "placed (cs_current cs \<noteq> None) run \<Longrightarrow> state_conf_ok T cs \<Longrightarrow> kept T cs (conf_exec T access run cs)"
proof (induction run arbitrary: cs)
  case (Conf_application objv k)
  show ?case
    unfolding conf_exec.simps
    by (rule kept_bind [OF kept_application]) (use Conf_application.prems in \<open>auto intro!: Conf_application.IH\<close>)
next
  case (Conf_vhost objv body k)
  have "kept T cs (minuted_tcl_vhost T (conf_exec T access body) objv cs)"
    by (rule kept_vhost [OF assms Conf_vhost.prems(2)]) (use Conf_vhost in simp)
  then show ?case
    unfolding conf_exec.simps by (rule kept_bind) (use Conf_vhost.prems in \<open>auto intro!: Conf_vhost.IH\<close>)
next
  case (Conf_listen objv k)
  show ?case
    unfolding conf_exec.simps
    by (rule kept_bind [OF kept_listen [OF assms]]) (use Conf_listen.prems in \<open>auto intro!: Conf_listen.IH\<close>)
qed (auto simp: tcl_comment_def tcl_comment_c_def kept_same intro!: kept_same)


section \<open>Properties\<close>

lemma configure_ok:
  assumes "tcl_laws T" "placed (cs_current cs \<noteq> None) run"
  shows "\<exists>r c cs'. minuted_configure T access filename run cs = Some (r, c, cs') \<and> conf_ok T c
    \<and> (cs_current cs' = None \<longleftrightarrow> cs_current cs = None) \<and> r \<in> {0, 1, 2, 3} \<and> (r = 0 \<longrightarrow> cs_conf cs' = None)"
proof -
  let ?c = "\<lparr>c_vhosts = Tcl_NewDictObj T, c_listen = Tcl_NewDictObj T\<rparr>" and ?file = "Tcl_NewStringObj T filename"
  let ?cs = "cs\<lparr>cs_conf := Some ?c\<rparr>"
  have "conf_ok T ?c" by (rule conf_okI [where vs = "[]" and ls = "[]"]) (simp_all add: law_new [OF assms(1)] entries_ok_def pair_keys_def)
  then have ok: "state_conf_ok T ?cs" by (simp add: state_conf_ok_def)
  have "kept T ?cs (if access ?file then conf_exec T access run ?cs else Some (TCL_ERROR, ?cs))"
    using exec_kept [OF assms(1), of ?cs run access] ok assms(2) by (simp add: kept_same)
  then obtain r cs1 where 1: "(if access ?file then conf_exec T access run ?cs else Some (TCL_ERROR, ?cs)) = Some (r, cs1)"
      "state_conf_ok T cs1" "cs_current cs1 = None \<longleftrightarrow> cs_current ?cs = None"
    by (rule keptE)
  then obtain c where c: "cs_conf cs1 = Some c" "conf_ok T c" by (auto simp: state_conf_ok_def)
  have "minuted_configure T access filename run cs
      = Some (if r = TCL_OK then (0, c, cs1\<lparr>cs_conf := None\<rparr>) else if r = TCL_ERROR then (1, c, cs1)
              else if r \<in> {TCL_BREAK, TCL_CONTINUE, TCL_RETURN} then (2, c, cs1) else (3, c, cs1))"
    using 1(1) c(1) unfolding minuted_configure_def Let_def by (simp split: if_splits)
  then show ?thesis using 1(3) c(2) by auto
qed

text \<open>C17. Reading a configuration, whatever the script does with the commands (and with their
  errors), ends in a configuration that is consistent: no virtual host and no listener is there
  twice, and every name of a listener is the name of a virtual host.  The virtual host being
  configured is the same as before, so commands of one do not reach another, and \<open>application\<close> is
  the only command that needs one.\<close>
theorem configure_consistent:
  assumes "tcl_laws T" "placed (cs_current cs \<noteq> None) run"
  shows "\<exists>r c cs'. minuted_configure T access filename run cs = Some (r, c, cs') \<and> conf_ok T c
    \<and> (cs_current cs' = None \<longleftrightarrow> cs_current cs = None) \<and> r \<in> {0, 1, 2, 3} \<and> (r = 0 \<longrightarrow> cs_conf cs' = None)"
  by (rule configure_ok [OF assms])

definition demo_conf :: "tcl_value conf_run" where
  "demo_conf =
     Conf_vhost [V_string ''vhost'', V_string ''default'', V_string ''application app.tcl'']
       (Conf_application [V_string ''application'', V_string ''app.tcl''] (\<lambda>r. Conf_end r))
       (\<lambda>r. Conf_listen [V_string ''listen'', V_string ''localhost'', V_string ''80'', V_list [V_string ''default'']] (\<lambda>r. Conf_end r))"

lemma configure_consistent_witness:
  "\<exists>r c cs'. minuted_configure data_tcl (\<lambda>f. True) ''minuted.conf'' demo_conf minuted_configure_init = Some (r, c, cs')
     \<and> conf_ok data_tcl c \<and> cs_current cs' = None"
proof -
  have "placed (cs_current (minuted_configure_init :: tcl_value configure_state) \<noteq> None) demo_conf"
    by (simp add: demo_conf_def minuted_configure_init_def)
  from configure_consistent [OF data_tcl_laws this, of "\<lambda>f. True" "''minuted.conf''"]
  show ?thesis by (auto simp: minuted_configure_init_def)
qed

lemma demo_conf_read:
  "case minuted_configure data_tcl (\<lambda>f. True) ''minuted.conf'' demo_conf minuted_configure_init of
     Some (r, c, cs') \<Rightarrow> r = 0
       \<and> c_vhosts c = V_dict [(V_string ''default'', V_dict [(V_string ''application'', V_string ''app.tcl'')])]
   | None \<Rightarrow> False"
  by code_simp

end
