(* ===== verification/Minuted_Serve.thy ===== *)
theory Minuted_Serve
  imports Minuted_Config "HOL-Library.Multiset"
begin

text \<open>
  Setting the server up (\<open>src/minuted/minuted.c\<close>): one listening socket for every listener of the
  configuration, one interpreter for every virtual host, and the end, when the sockets are closed.
  What the kernel and the interpreter answer is an argument.
\<close>

section \<open>State\<close>

record ('o, 's) runstate =
  rs_vhostMap    :: 'o
  rs_vhostListen :: "'o option list"
  rs_v           :: "('o, 's) tap_vhost option list"
  rs_ssocks      :: "int list"
  rs_open        :: "int list"
  rs_log         :: "(char \<times> string) list"

definition rs_say :: "char \<Rightarrow> string \<Rightarrow> ('o, 's) runstate \<Rightarrow> ('o, 's) runstate" where
  "rs_say type text rs = rs\<lparr>rs_log := rs_log rs @ [(type, text)]\<rparr>"

section \<open>Listening\<close>

text \<open>How far \<open>getaddrinfo\<close>, \<open>socket\<close>, \<open>bind\<close> and \<open>listen\<close> get for an address and a service.\<close>

datatype listen_outcome =
    Gai_failed string
  | Socket_failed string
  | Bind_failed string int
  | Listen_failed string int
  | Listening int

fun listen_entries ::
    "'o tcl \<Rightarrow> 'o configuration \<Rightarrow> (nat \<Rightarrow> string \<Rightarrow> string \<Rightarrow> listen_outcome) \<Rightarrow> ('o \<times> 'o) list \<Rightarrow> nat
     \<Rightarrow> ('o, 's) runstate \<Rightarrow> (int \<times> ('o, 's) runstate) option" where
  "listen_entries T c sock [] i rs = Some (0, rs)"
| "listen_entries T c sock ((k, v) # es) i rs =
     (case (Tcl_ListObjIndex T k 0, Tcl_ListObjIndex T k 1, Tcl_DictObjAll T v) of
        (Some addr, Some srvc, Some vhosts) \<Rightarrow> do {
          a \<leftarrow> addr;
          s \<leftarrow> srvc;
          (case sock i (Tcl_GetString T a) (Tcl_GetString T s) of
             Gai_failed e \<Rightarrow> Some (-1, rs_say CHR ''E'' (Tcl_GetString T a @ '': '' @ e) rs)
           | Socket_failed e \<Rightarrow> Some (-1, rs_say CHR ''E'' (''Failed to create socket: '' @ e) rs)
           | Bind_failed e fd \<Rightarrow>
               Some (-1, rs_say CHR ''E'' (''Unable to bind: '' @ e) (rs\<lparr>rs_open := rs_open rs @ [fd]\<rparr>))
           | Listen_failed e fd \<Rightarrow>
               Some (-1, rs_say CHR ''E'' (''Unable to listen: '' @ e) (rs\<lparr>rs_open := rs_open rs @ [fd]\<rparr>))
           | Listening fd \<Rightarrow>
               listen_entries T c sock es (i + 1)
                 (rs\<lparr>rs_open := rs_open rs @ [fd], rs_ssocks := (rs_ssocks rs)[i := fd],
                     rs_vhostListen := (rs_vhostListen rs)[i := Some (if vhosts = [] then c_vhosts c else v)]\<rparr>))
        }
      | _ \<Rightarrow> Some (-1, rs))"

definition minuted_serve_listen ::
    "'o tcl \<Rightarrow> 'o configuration \<Rightarrow> (nat \<Rightarrow> string \<Rightarrow> string \<Rightarrow> listen_outcome)
     \<Rightarrow> ('o, 's) runstate \<Rightarrow> (int \<times> ('o, 's) runstate) option" where
  "minuted_serve_listen T c sock rs =
     (case Tcl_DictObjAll T (c_listen c) of
        None \<Rightarrow> Some (-1, rs)
      | Some es \<Rightarrow> listen_entries T c sock es 0 rs)"

section \<open>Loading the applications\<close>

text \<open>An interpreter after it has evaluated the file of an application: the error, if there was
  one, its state, and the procedures it has.\<close>

record ('o, 's) application =
  a_error    :: "string option"
  a_tcl      :: 's
  a_headers  :: "('o, 's) tcl_proc option"
  a_payload  :: "('o, 's) tcl_proc option"
  a_response :: "('o, 's) tcl_proc option"

text \<open>The entry of a loaded application; a payload procedure that is not there is never called, for
  the flag.\<close>

definition loaded_vhost :: "'o tcl \<Rightarrow> ('o, 's) application \<Rightarrow> ('o, 's) tcl_proc \<Rightarrow> ('o, 's) tcl_proc \<Rightarrow> ('o, 's) tap_vhost" where
  "loaded_vhost T a h p =
     \<lparr>v_tcl = a_tcl a, v_flags = (if a_payload a = None then TAP_NO_PAYLOAD else 0), v_headers = h,
      v_payload = (case a_payload a of Some q \<Rightarrow> q | None \<Rightarrow> \<lambda>objv s. Tcl_done TCL_ERROR (Tcl_NewStringObj T []) s),
      v_response = p\<rparr>"

fun load_entries ::
    "'o tcl \<Rightarrow> (nat \<Rightarrow> string \<Rightarrow> string \<Rightarrow> ('o, 's) application) \<Rightarrow> ('o \<times> 'o) list \<Rightarrow> nat
     \<Rightarrow> ('o, 's) runstate \<Rightarrow> int \<times> ('o, 's) runstate" where
  "load_entries T load [] i rs = (0, rs)"
| "load_entries T load ((name, vhost) # es) i rs =
     (case Tcl_DictObjGet T vhost (Tcl_NewStringObj T cs_application) of
        None \<Rightarrow> (-1, rs)
      | Some None \<Rightarrow> (-1, rs_say CHR ''E'' ''No application defined'' rs)
      | Some (Some app) \<Rightarrow>
          let a = load i (Tcl_GetString T name) (Tcl_GetString T app) in
          (case a_error a of
             Some e \<Rightarrow> (-1, rs_say CHR ''E'' e rs)
           | None \<Rightarrow>
          (case a_headers a of
             None \<Rightarrow> (-1, rs_say CHR ''E'' ''Application has no headers function'' rs)
           | Some h \<Rightarrow>
               let rs = (if a_payload a = None then rs_say CHR ''I'' ''Application has no payload function'' rs else rs) in
          (case a_response a of
             None \<Rightarrow> (-1, rs_say CHR ''E'' ''Application has no response function'' rs)
           | Some p \<Rightarrow>
               load_entries T load es (i + 1)
                 (rs_say CHR ''I'' (''Application loaded: '' @ Tcl_GetString T app)
                   (rs\<lparr>rs_v := (rs_v rs)[i := Some (loaded_vhost T a h p)],
                       rs_vhostMap := (case Tcl_DictObjPut T (rs_vhostMap rs) name (Tcl_NewIntObj T (int i)) of
                           None \<Rightarrow> rs_vhostMap rs | Some d \<Rightarrow> d)\<rparr>))))))"

definition minuted_serve_load ::
    "'o tcl \<Rightarrow> 'o configuration \<Rightarrow> (nat \<Rightarrow> string \<Rightarrow> string \<Rightarrow> ('o, 's) application)
     \<Rightarrow> ('o, 's) runstate \<Rightarrow> int \<times> ('o, 's) runstate" where
  "minuted_serve_load T c load rs =
     (case Tcl_DictObjAll T (c_vhosts c) of
        None \<Rightarrow> (-1, rs)
      | Some es \<Rightarrow> load_entries T load es 0 rs)"

section \<open>The server\<close>

definition first_runstate :: "'o tcl \<Rightarrow> nat \<Rightarrow> nat \<Rightarrow> ('o, 's) runstate" where
  "first_runstate T nssocks nv =
     \<lparr>rs_vhostMap = Tcl_NewDictObj T, rs_vhostListen = replicate nssocks None, rs_v = replicate nv None,
      rs_ssocks = replicate nssocks (-1), rs_open = [], rs_log = []\<rparr>"

primrec close_all :: "int list \<Rightarrow> int list \<Rightarrow> int list" where
  "close_all [] fds = fds"
| "close_all (s # ss) fds = close_all ss (if 0 \<le> s then remove1 s fds else fds)"

text \<open>\<open>minuted_serve\<close>; \<open>serve\<close> is what \<open>minuted_serve_prefork\<close> answers.\<close>

definition minuted_serve ::
    "'o tcl \<Rightarrow> (nat \<Rightarrow> string \<Rightarrow> string \<Rightarrow> listen_outcome) \<Rightarrow> (nat \<Rightarrow> string \<Rightarrow> string \<Rightarrow> ('o, 's) application)
     \<Rightarrow> (('o, 's) runstate \<Rightarrow> int) \<Rightarrow> 'o configuration \<Rightarrow> (int \<times> ('o, 's) runstate option) option" where
  "minuted_serve T sock load serve c =
     (case (Tcl_DictObjAll T (c_listen c), Tcl_DictObjAll T (c_vhosts c)) of
        (Some ls, Some vs) \<Rightarrow> do {
          (r, rs) \<leftarrow> minuted_serve_listen T c sock (first_runstate T (length ls) (length vs));
          let (res, rs) =
             (if r \<noteq> 0 then (-1, rs_say CHR ''E'' ''Failed to create listening sockets.'' rs)
              else (case minuted_serve_load T c load rs of (r, rs) \<Rightarrow>
                if r \<noteq> 0 then (-1, rs_say CHR ''E'' ''Failed to load applications.'' rs)
                else (serve rs, rs))) in
          Some (res, Some (rs\<lparr>rs_open := close_all (rs_ssocks rs) (rs_open rs)\<rparr>))
        }
      | _ \<Rightarrow> Some (-1, None))"

text \<open>What the children get of it.\<close>

definition served_runtime :: "('o, 's) runstate \<Rightarrow> ('o, 's) tap_runtime" where
  "served_runtime rs =
     \<lparr>tr_vhostMap = rs_vhostMap rs, tr_vhostListen = map the (rs_vhostListen rs), tr_v = map the (rs_v rs),
      tr_nv = int (length (rs_v rs))\<rparr>"


section \<open>Sockets\<close>

text \<open>The sockets that are open are those that will be closed, and at most one more.\<close>

definition in_use :: "('o, 's) runstate \<Rightarrow> int multiset" where
  "in_use rs = mset (filter (\<lambda>s. 0 \<le> s) (rs_ssocks rs))"

definition leaked :: "(nat \<Rightarrow> string \<Rightarrow> string \<Rightarrow> listen_outcome) \<Rightarrow> int \<Rightarrow> int list \<Rightarrow> bool" where
  "leaked sock r fds \<longleftrightarrow> fds = [] \<or> r \<noteq> 0 \<and> (\<exists>i a s e fd. fds = [fd]
     \<and> (sock i a s = Bind_failed e fd \<or> sock i a s = Listen_failed e fd))"

definition sockets_ok :: "(nat \<Rightarrow> string \<Rightarrow> string \<Rightarrow> listen_outcome) \<Rightarrow> bool" where
  "sockets_ok sock \<longleftrightarrow> (\<forall>i a s fd. sock i a s = Listening fd \<longrightarrow> 0 \<le> fd)"

text \<open>Every key of the listeners is a list of an address and a service.\<close>

definition pairs :: "'o tcl \<Rightarrow> ('o \<times> 'o) list \<Rightarrow> bool" where
  "pairs T ls \<longleftrightarrow> (\<forall>k \<in> fst ` set ls. \<exists>a s. Tcl_ListObjIndex T k 0 = Some (Some a) \<and> Tcl_ListObjIndex T k 1 = Some (Some s))"

lemma filter_update:
  "i < length ss \<Longrightarrow> ss ! i = -1 \<Longrightarrow> 0 \<le> (fd :: int)
   \<Longrightarrow> mset (filter (\<lambda>s. 0 \<le> s) (ss[i := fd])) = add_mset fd (mset (filter (\<lambda>s. 0 \<le> s) ss))"
  by (induction ss arbitrary: i) (auto simp: nth_Cons split: nat.splits)

lemma listen_entries_sockets:
  assumes "sockets_ok sock"
  shows "pairs T es \<Longrightarrow> mset (rs_open rs) = in_use rs
     \<Longrightarrow> i + length es = length (rs_ssocks rs) \<Longrightarrow> \<forall>j. i \<le> j \<longrightarrow> j < length (rs_ssocks rs) \<longrightarrow> rs_ssocks rs ! j = -1
     \<Longrightarrow> \<exists>r rs' fds. listen_entries T c sock es i rs = Some (r, rs')
       \<and> mset (rs_open rs') = in_use rs' + mset fds \<and> leaked sock r fds"
proof (induction es arbitrary: i rs)
  case Nil
  then show ?case by (auto simp: leaked_def)
next
  case (Cons e es)
  obtain k v where e: "e = (k, v)" by (cases e)
  obtain a s where as: "Tcl_ListObjIndex T k 0 = Some (Some a)" "Tcl_ListObjIndex T k 1 = Some (Some s)"
    using Cons.prems(1) e by (auto simp: pairs_def)
  have p: "pairs T es" using Cons.prems(1) by (simp add: pairs_def)
  let ?o = "sock i (Tcl_GetString T a) (Tcl_GetString T s)"
  show ?case
  proof (cases "Tcl_DictObjAll T v")
    case None
    then show ?thesis using e as Cons.prems(2) by (auto simp: leaked_def)
  next
    case (Some vhosts)
    show ?thesis
    proof (cases ?o)
      case (Gai_failed x)
      then show ?thesis using e as Some Cons.prems(2) by (auto simp: leaked_def rs_say_def in_use_def)
    next
      case (Socket_failed x)
      then show ?thesis using e as Some Cons.prems(2) by (auto simp: leaked_def rs_say_def in_use_def)
    next
      case (Bind_failed x fd)
      then have "leaked sock (-1) [fd]" by (auto simp: leaked_def)
      then show ?thesis using e as Some Cons.prems(2) Bind_failed
        by (intro exI [of _ "-1"] exI [of _ "[fd]"] exI) (auto simp: rs_say_def in_use_def)
    next
      case (Listen_failed x fd)
      then have "leaked sock (-1) [fd]" by (auto simp: leaked_def)
      then show ?thesis using e as Some Cons.prems(2) Listen_failed
        by (intro exI [of _ "-1"] exI [of _ "[fd]"] exI) (auto simp: rs_say_def in_use_def)
    next
      case (Listening fd)
      let ?rs = "rs\<lparr>rs_open := rs_open rs @ [fd], rs_ssocks := (rs_ssocks rs)[i := fd],
                     rs_vhostListen := (rs_vhostListen rs)[i := Some (if vhosts = [] then c_vhosts c else v)]\<rparr>"
      have "0 \<le> fd" using Listening assms unfolding sockets_ok_def by blast
      then have "mset (rs_open ?rs) = in_use ?rs"
        using filter_update [of i "rs_ssocks rs" fd] Cons.prems(2-4) by (simp add: in_use_def)
      then show ?thesis
        using Cons.IH [OF p, of ?rs "i + 1"] Cons.prems(3,4) e as Some Listening by simp
    qed
  qed
qed

lemma mset_close_all: "mset (close_all ss fds) = mset fds - mset (filter (\<lambda>s. 0 \<le> s) ss)"
  by (induction ss arbitrary: fds) (auto simp: diff_diff_add [symmetric])

lemma rs_say_simps [simp]:
  "rs_open (rs_say t m rs) = rs_open rs" "rs_ssocks (rs_say t m rs) = rs_ssocks rs"
  "rs_vhostMap (rs_say t m rs) = rs_vhostMap rs" "rs_vhostListen (rs_say t m rs) = rs_vhostListen rs"
  "rs_v (rs_say t m rs) = rs_v rs"
  by (simp_all add: rs_say_def)

text \<open>What one virtual host that can be loaded makes of the state.\<close>

definition load_entry :: "'o tcl \<Rightarrow> ('o, 's) application \<Rightarrow> ('o, 's) tcl_proc \<Rightarrow> ('o, 's) tcl_proc \<Rightarrow> 'o \<Rightarrow> 'o \<Rightarrow> nat
     \<Rightarrow> ('o, 's) runstate \<Rightarrow> ('o, 's) runstate" where
  "load_entry T a h p name app i rs =
     rs_say CHR ''I'' (''Application loaded: '' @ Tcl_GetString T app)
       ((if a_payload a = None then rs_say CHR ''I'' ''Application has no payload function'' rs else rs)
         \<lparr>rs_v := (rs_v rs)[i := Some (loaded_vhost T a h p)],
          rs_vhostMap := (case Tcl_DictObjPut T (rs_vhostMap rs) name (Tcl_NewIntObj T (int i)) of
              None \<Rightarrow> rs_vhostMap rs | Some d \<Rightarrow> d)\<rparr>)"

lemma load_entry_simps [simp]:
  "rs_open (load_entry T a h p name app i rs) = rs_open rs"
  "rs_ssocks (load_entry T a h p name app i rs) = rs_ssocks rs"
  "rs_vhostListen (load_entry T a h p name app i rs) = rs_vhostListen rs"
  "rs_v (load_entry T a h p name app i rs) = (rs_v rs)[i := Some (loaded_vhost T a h p)]"
  "rs_vhostMap (load_entry T a h p name app i rs)
   = (case Tcl_DictObjPut T (rs_vhostMap rs) name (Tcl_NewIntObj T (int i)) of None \<Rightarrow> rs_vhostMap rs | Some d \<Rightarrow> d)"
  by (simp_all add: load_entry_def)

text \<open>One virtual host: it is loaded and the loop goes on, or the loop ends with an error and only
  the log has changed.\<close>

lemma load_entries_step:
  obtains a h p app where "load_entries T load ((name, vhost) # es) i rs
      = load_entries T load es (i + 1) (load_entry T a h p name app i rs)"
      "Tcl_DictObjGet T vhost (Tcl_NewStringObj T cs_application) = Some (Some app)"
      "a = load i (Tcl_GetString T name) (Tcl_GetString T app)"
      "a_error a = None" "a_headers a = Some h" "a_response a = Some p"
  | log where "load_entries T load ((name, vhost) # es) i rs = (-1, rs\<lparr>rs_log := log\<rparr>)"
proof -
  let ?L = "load_entries T load ((name, vhost) # es) i rs"
  consider "Tcl_DictObjGet T vhost (Tcl_NewStringObj T cs_application) = None"
    | "Tcl_DictObjGet T vhost (Tcl_NewStringObj T cs_application) = Some None"
    | app where "Tcl_DictObjGet T vhost (Tcl_NewStringObj T cs_application) = Some (Some app)"
    by (metis not_None_eq)
  then show thesis
  proof cases
    case 1
    then show thesis using that(2) [of "rs_log rs"] by simp
  next
    case 2
    then show thesis using that(2) by (simp add: rs_say_def)
  next
    case (3 app)
    define a where "a = load i (Tcl_GetString T name) (Tcl_GetString T app)"
    show thesis
    proof (cases "a_error a = None \<and> a_headers a \<noteq> None \<and> a_response a \<noteq> None")
      case True
      then obtain h p where "a_error a = None" "a_headers a = Some h" "a_response a = Some p" by auto
      then have "?L = load_entries T load es (i + 1) (load_entry T a h p name app i rs)"
        using 3 by (cases "a_payload a") (simp_all add: load_entry_def Let_def a_def cong: option.case_cong)
      then show thesis using that(1) [of a h p app] 3 a_def \<open>a_error a = None\<close> \<open>a_headers a = Some h\<close> \<open>a_response a = Some p\<close>
        by simp
    next
      case False
      then have "\<exists>log. ?L = (-1, rs\<lparr>rs_log := log\<rparr>)"
        using 3 by (auto simp: a_def [symmetric] rs_say_def split: option.split)
      then show thesis using that(2) by blast
    qed
  qed
qed

lemma load_entries_sockets:
  "load_entries T load es i rs = (r, rs') \<Longrightarrow> rs_open rs' = rs_open rs \<and> rs_ssocks rs' = rs_ssocks rs"
proof (induction es arbitrary: i rs)
  case (Cons e es)
  obtain name vhost where e: "e = (name, vhost)" by (cases e)
  show ?case
    by (rule load_entries_step [of T load name vhost es i rs]) (use Cons e in auto)
qed simp

lemma serve_sockets:
  assumes "sockets_ok sock" "\<forall>ls. Tcl_DictObjAll T (c_listen c) = Some ls \<longrightarrow> pairs T ls"
  shows "\<exists>res z. minuted_serve T sock load serve c = Some (res, z)
    \<and> (case z of None \<Rightarrow> res = -1 | Some rs \<Rightarrow> leaked sock (if res = -1 then 1 else 0) (rs_open rs))"
proof (cases "Tcl_DictObjAll T (c_listen c) = None \<or> Tcl_DictObjAll T (c_vhosts c) = None")
  case True
  then show ?thesis by (auto simp: minuted_serve_def split: option.split)
next
  case False
  then obtain ls vs where d: "Tcl_DictObjAll T (c_listen c) = Some ls" "Tcl_DictObjAll T (c_vhosts c) = Some vs" by auto
  let ?rs = "first_runstate T (length ls) (length vs) :: ('a, 'b) runstate"
  have "mset (rs_open ?rs) = in_use ?rs" by (simp add: first_runstate_def in_use_def)
  then obtain r rs1 fds where 1: "listen_entries T c sock ls 0 ?rs = Some (r, rs1)"
      "mset (rs_open rs1) = in_use rs1 + mset fds" "leaked sock r fds"
    using listen_entries_sockets [OF assms(1), of T ls ?rs 0 c] assms(2) d(1) by (auto simp: first_runstate_def)
  obtain r2 rs2 where 2: "minuted_serve_load T c load rs1 = (r2, rs2)" by (cases "minuted_serve_load T c load rs1")
  then have o2: "rs_open rs2 = rs_open rs1" "rs_ssocks rs2 = rs_ssocks rs1"
    using d(2) load_entries_sockets by (simp_all add: minuted_serve_load_def) blast+
  have "mset (close_all (rs_ssocks rs1) (rs_open rs1)) = mset fds"
    using 1(2) by (simp add: mset_close_all in_use_def)
  then have c: "close_all (rs_ssocks rs1) (rs_open rs1) = fds"
    using 1(3) by (auto simp: leaked_def)
  show ?thesis
    using 1 2 d o2 c by (auto simp: minuted_serve_def minuted_serve_listen_def rs_say_def leaked_def)
qed

text \<open>C18. The server gives its sockets back.  However far it comes, setting up, loading or serving,
  \<open>minuted_serve\<close> returns, and every socket it has opened is closed then, with one exception: the
  socket that could not be bound or listened on stays open.\<close>
theorem serve_closes_sockets:
  assumes "sockets_ok sock" "\<forall>ls. Tcl_DictObjAll T (c_listen c) = Some ls \<longrightarrow> pairs T ls"
  shows "\<exists>res z. minuted_serve T sock load serve c = Some (res, z)
    \<and> (case z of None \<Rightarrow> res = -1 | Some rs \<Rightarrow> leaked sock (if res = -1 then 1 else 0) (rs_open rs))"
  by (rule serve_sockets [OF assms])

text \<open>A server with one listener and one virtual host.\<close>

definition demo_sock :: "nat \<Rightarrow> string \<Rightarrow> string \<Rightarrow> listen_outcome" where
  "demo_sock i addr srvc = (if srvc = ''80'' then Listening (5 + int i) else Bind_failed ''Address already in use'' 9)"

definition demo_load :: "nat \<Rightarrow> string \<Rightarrow> string \<Rightarrow> (tcl_value, unit) application" where
  "demo_load i name file =
     \<lparr>a_error = None, a_tcl = (), a_headers = Some (v_headers demo_vhost), a_payload = None,
      a_response = Some (v_response demo_vhost)\<rparr>"

definition demo_configuration :: "tcl_value configuration" where
  "demo_configuration =
     \<lparr>c_vhosts = V_dict [(V_string ''default'', V_dict [(V_string ''application'', V_string ''app.tcl'')])],
      c_listen = V_dict [(V_list [V_string ''localhost'', V_string ''80''], V_dict [])]\<rparr>"

lemma demo_sockets_ok: "sockets_ok demo_sock"
  by (simp add: sockets_ok_def demo_sock_def)

lemma demo_pairs: "Tcl_DictObjAll data_tcl (c_listen demo_configuration) = Some ls \<Longrightarrow> pairs data_tcl ls"
  by (auto simp: pairs_def data_tcl_def demo_configuration_def)

lemma serve_closes_sockets_witness:
  "\<exists>res z. minuted_serve data_tcl demo_sock demo_load (\<lambda>rs. 0) demo_configuration = Some (res, z)
    \<and> (case z of None \<Rightarrow> res = -1 | Some rs \<Rightarrow> leaked demo_sock (if res = -1 then 1 else 0) (rs_open rs))"
  by (rule serve_closes_sockets) (use demo_sockets_ok demo_pairs in auto)


section \<open>What the children serve\<close>

text \<open>The names of the virtual hosts that a listener answers for: its own, or all of them.\<close>

definition served_names :: "'o tcl \<Rightarrow> ('o \<times> 'o) list \<Rightarrow> 'o \<Rightarrow> string list" where
  "served_names T vs v = (case Tcl_DictObjAll T v of None \<Rightarrow> [] | Some [] \<Rightarrow> keys T vs | Some es \<Rightarrow> keys T es)"

definition listens :: "'o tcl \<Rightarrow> 'o configuration \<Rightarrow> 'o \<Rightarrow> 'o option \<Rightarrow> bool" where
  "listens T c v z \<longleftrightarrow> (\<exists>ws. Tcl_DictObjAll T v = Some ws \<and> z = Some (if ws = [] then c_vhosts c else v))"

lemma listen_entries_step:
  assumes "listen_entries T c sock ((k, v) # es) i rs = Some (0, rs')"
  obtains fd ws where "Tcl_DictObjAll T v = Some ws"
    "listen_entries T c sock es (i + 1)
       (rs\<lparr>rs_open := rs_open rs @ [fd], rs_ssocks := (rs_ssocks rs)[i := fd],
           rs_vhostListen := (rs_vhostListen rs)[i := Some (if ws = [] then c_vhosts c else v)]\<rparr>) = Some (0, rs')"
proof -
  obtain addr srvc ws a s where 1: "Tcl_ListObjIndex T k 0 = Some addr" "Tcl_ListObjIndex T k 1 = Some srvc"
      "Tcl_DictObjAll T v = Some ws" "addr = Some a" "srvc = Some s"
    using assms by (auto simp: bind_eq_Some_conv split: option.split_asm)
  then show thesis
    using assms that by (cases "sock i (Tcl_GetString T a) (Tcl_GetString T s)") auto
qed

lemma listen_entries_hosts:
  "listen_entries T c sock es i rs = Some (0, rs') \<Longrightarrow> i + length es = length (rs_vhostListen rs)
   \<Longrightarrow> rs_vhostMap rs' = rs_vhostMap rs \<and> rs_v rs' = rs_v rs
     \<and> length (rs_vhostListen rs') = length (rs_vhostListen rs)
     \<and> (\<forall>j<i. rs_vhostListen rs' ! j = rs_vhostListen rs ! j)
     \<and> (\<forall>j<length es. listens T c (snd (es ! j)) (rs_vhostListen rs' ! (i + j)))"
proof (induction es arbitrary: i rs)
  case (Cons e es)
  obtain k v where e: "e = (k, v)" by (cases e)
  obtain fd ws where 1: "Tcl_DictObjAll T v = Some ws"
    "listen_entries T c sock es (i + 1)
       (rs\<lparr>rs_open := rs_open rs @ [fd], rs_ssocks := (rs_ssocks rs)[i := fd],
           rs_vhostListen := (rs_vhostListen rs)[i := Some (if ws = [] then c_vhosts c else v)]\<rparr>) = Some (0, rs')"
    by (rule listen_entries_step [OF Cons.prems(1) [unfolded e]])
  note IH = Cons.IH [OF 1(2)]
  have "listens T c (snd ((e # es) ! j)) (rs_vhostListen rs' ! (i + j))" if "j < length (e # es)" for j
    using IH that Cons.prems(2) 1(1) e by (cases j) (auto simp: listens_def)
  then show ?case using IH Cons.prems(2) by auto
qed simp

text \<open>Number \<open>i\<close> is the interpreter of the virtual host \<open>e\<close>.\<close>

definition loads :: "'o tcl \<Rightarrow> (nat \<Rightarrow> string \<Rightarrow> string \<Rightarrow> ('o, 's) application) \<Rightarrow> nat \<Rightarrow> 'o \<times> 'o \<Rightarrow> ('o, 's) tap_vhost option \<Rightarrow> bool" where
  "loads T load i e z \<longleftrightarrow> (\<exists>app a h p. Tcl_DictObjGet T (snd e) (Tcl_NewStringObj T cs_application) = Some (Some app)
     \<and> a = load i (Tcl_GetString T (fst e)) (Tcl_GetString T app)
     \<and> a_error a = None \<and> a_headers a = Some h \<and> a_response a = Some p \<and> z = Some (loaded_vhost T a h p))"

text \<open>The numbers that the loop gives out, and what it keeps.\<close>

definition numbered :: "'o tcl \<Rightarrow> (nat \<Rightarrow> string \<Rightarrow> string \<Rightarrow> ('o, 's) application) \<Rightarrow> ('o \<times> 'o) list \<Rightarrow> nat
     \<Rightarrow> ('o \<times> 'o) list \<Rightarrow> ('o, 's) runstate \<Rightarrow> ('o \<times> 'o) list \<Rightarrow> ('o, 's) runstate \<Rightarrow> bool" where
  "numbered T load es i ms rs ms' rs' \<longleftrightarrow> Tcl_DictObjAll T (rs_vhostMap rs') = Some ms'
     \<and> (\<forall>j<length es. entries_get (Tcl_GetString T) (keys T es ! j) ms' = Some (Tcl_NewIntObj T (int (i + j))))
     \<and> (\<forall>k. k \<notin> set (keys T es) \<longrightarrow> entries_get (Tcl_GetString T) k ms' = entries_get (Tcl_GetString T) k ms)
     \<and> rs_vhostListen rs' = rs_vhostListen rs \<and> length (rs_v rs') = length (rs_v rs)
     \<and> (\<forall>j<i. rs_v rs' ! j = rs_v rs ! j) \<and> (\<forall>j<length es. loads T load (i + j) (es ! j) (rs_v rs' ! (i + j)))"

lemma load_entries_numbered:
  assumes "tcl_laws T"
  shows "load_entries T load es i rs = (0, rs') \<Longrightarrow> Tcl_DictObjAll T (rs_vhostMap rs) = Some ms
     \<Longrightarrow> distinct (keys T es) \<Longrightarrow> i + length es = length (rs_v rs) \<Longrightarrow> \<exists>ms'. numbered T load es i ms rs ms' rs'"
proof (induction es arbitrary: i rs ms)
  case Nil
  then show ?case by (auto simp: numbered_def)
next
  case (Cons e es)
  obtain name vhost where e: "e = (name, vhost)" by (cases e)
  from Cons.prems(1) e obtain a h p app where 1:
      "load_entries T load es (i + 1) (load_entry T a h p name app i rs) = (0, rs')"
      "loads T load i e (Some (loaded_vhost T a h p))"
    by (rule_tac load_entries_step [of T load name vhost es i rs]) (auto simp: loads_def)
  obtain d where d: "Tcl_DictObjPut T (rs_vhostMap rs) name (Tcl_NewIntObj T (int i)) = Some d"
      "Tcl_DictObjAll T d = Some (entries_put (Tcl_GetString T) name (Tcl_NewIntObj T (int i)) ms)"
    by (rule law_put [OF assms Cons.prems(2)])
  let ?ms = "entries_put (Tcl_GetString T) name (Tcl_NewIntObj T (int i)) ms"
  obtain ms' where "numbered T load es (i + 1) ?ms (load_entry T a h p name app i rs) ms' rs'"
    using Cons.IH [OF 1(1), of ?ms] d Cons.prems(3,4) by auto
  note 2 = this [unfolded numbered_def]
  have n: "Tcl_GetString T name \<notin> set (keys T es)" using Cons.prems(3) e by simp
  have "entries_get (Tcl_GetString T) (keys T (e # es) ! j) ms' = Some (Tcl_NewIntObj T (int (i + j)))
      \<and> loads T load (i + j) ((e # es) ! j) (rs_v rs' ! (i + j))" if "j < length (e # es)" for j
    using that 2 n e 1(2) Cons.prems(4) by (cases j) (auto simp: get_put)
  then have "numbered T load (e # es) i ms rs ms' rs'"
    using 2 e by (auto simp: numbered_def get_put)
  then show ?case ..
qed

text \<open>The loops of the set-up together.\<close>

lemma served:
  fixes T :: "'o tcl" and rs1 rs2 :: "('o, 's) runstate"
  assumes "tcl_laws T" "conf_ok T c" "Tcl_DictObjAll T (c_vhosts c) = Some vs" "Tcl_DictObjAll T (c_listen c) = Some ls"
    "minuted_serve_listen T c sock (first_runstate T (length ls) (length vs)) = Some (0, rs1)"
    "minuted_serve_load T c load rs1 = (0, rs2)"
  obtains ms where "Tcl_DictObjAll T (rs_vhostMap rs2) = Some ms" "length (rs_v rs2) = length vs"
    "length (rs_vhostListen rs2) = length ls"
    "\<And>j. j < length vs \<Longrightarrow> entries_get (Tcl_GetString T) (keys T vs ! j) ms = Some (Tcl_NewIntObj T (int j))"
    "\<And>j. j < length vs \<Longrightarrow> loads T load j (vs ! j) (rs_v rs2 ! j)"
    "\<And>l. l < length ls \<Longrightarrow> listens T c (snd (ls ! l)) (rs_vhostListen rs2 ! l)"
proof -
  let ?rs = "first_runstate T (length ls) (length vs) :: ('o, 's) runstate"
  have 1: "rs_vhostMap rs1 = rs_vhostMap ?rs \<and> rs_v rs1 = rs_v ?rs
     \<and> length (rs_vhostListen rs1) = length (rs_vhostListen ?rs)
     \<and> (\<forall>j<0. rs_vhostListen rs1 ! j = rs_vhostListen ?rs ! j)
     \<and> (\<forall>j<length ls. listens T c (snd (ls ! j)) (rs_vhostListen rs1 ! (0 + j)))"
    by (rule listen_entries_hosts [where sock = sock])
      (use assms(4,5) in \<open>auto simp: minuted_serve_listen_def first_runstate_def\<close>)
  have k: "distinct (keys T vs)" using conf_okE [OF assms(2)] assms(3) by (metis entries_ok_def option.inject)
  have "Tcl_DictObjAll T (rs_vhostMap rs1) = Some []" using 1 law_new [OF assms(1)] by (simp add: first_runstate_def)
  then obtain ms where "numbered T load vs 0 [] rs1 ms rs2"
    using load_entries_numbered [OF assms(1), of load vs 0 rs1 rs2 "[]"] assms(3,6) k 1
    by (auto simp: minuted_serve_load_def first_runstate_def)
  then show thesis using that 1 by (auto simp: numbered_def first_runstate_def)
qed


text \<open>What the children make of a name: the virtual host of that name, or the default, as far as the
  listener answers for them, and nothing else.\<close>

definition served_host :: "string list \<Rightarrow> string \<Rightarrow> string option" where
  "served_host names host =
     (if host \<in> set names then Some host else if s_default \<in> set names then Some s_default else None)"

text \<open>The look-ups of \<open>minuted_tap_head\<close> in the dictionaries of the set-up.\<close>

lemma lookup_served:
  assumes "tcl_laws T" "conf_ok T c" "Tcl_DictObjAll T (c_vhosts c) = Some vs" "Tcl_DictObjAll T (c_listen c) = Some ls"
    "l < length ls" "listens T c (snd (ls ! l)) (Some z)"
  obtains es where "Tcl_DictObjAll T z = Some es" "keys T es = served_names T vs (snd (ls ! l))"
    "set (keys T es) \<subseteq> set (keys T vs)"
proof -
  obtain ws where ws: "Tcl_DictObjAll T (snd (ls ! l)) = Some ws" "z = (if ws = [] then c_vhosts c else snd (ls ! l))"
    using assms(6) by (auto simp: listens_def)
  have "hosts_known T vs (snd (ls ! l))"
    using conf_okE [OF assms(2)] assms(3,4,5)
    by (metis (no_types, lifting) case_prodD entries_ok_def nth_mem option.inject prod.collapse)
  then have "set (keys T ws) \<subseteq> set (keys T vs)" using ws(1) by (auto simp: hosts_known_def)
  then show thesis
    using that ws assms(3) by (cases ws) (auto simp: served_names_def)
qed

lemma choose_host_served:
  assumes "tcl_laws T" "Tcl_DictObjAll T z = Some es" "Tcl_DictObjAll T m = Some ms"
  shows "choose_host T z m (Tcl_NewStringObj T host) (Tcl_NewStringObj T s_default)
    = (let a = if host \<in> set (keys T es) then host else s_default in
       Chosen (entries_get (Tcl_GetString T) a es) (entries_get (Tcl_GetString T) a ms) (Tcl_NewStringObj T a))"
proof -
  have s: "Tcl_GetString T (Tcl_NewStringObj T x) = x" for x using assms(1) by (simp add: tcl_laws_def)
  have g: "Tcl_DictObjGet T z (Tcl_NewStringObj T x) = Some (entries_get (Tcl_GetString T) x es)"
      "Tcl_DictObjGet T m (Tcl_NewStringObj T x) = Some (entries_get (Tcl_GetString T) x ms)" for x
    using law_get [OF assms(1,2), of "Tcl_NewStringObj T x"] law_get [OF assms(1,3), of "Tcl_NewStringObj T x"] s by auto
  show ?thesis
    using get_keys [of T host es] by (cases "entries_get (Tcl_GetString T) host es") (auto simp: choose_host_def g)
qed

text \<open>C16. From the configuration to the interpreters.  When the sockets are made and the applications
  loaded, from a configuration that is consistent, every request that comes on listener \<open>l\<close> is
  answered by the application that the configuration names for its host: the host, when the listener
  answers for it, or else the default, when it answers for that, gets the number of that virtual
  host, and under that number there is the interpreter that has loaded its file.  In every other
  case the request gets 410.  None of the internal errors of the look-ups can happen.\<close>
theorem requests_reach_vhosts:
  assumes "tcl_laws T" "conf_ok T c" "Tcl_DictObjAll T (c_vhosts c) = Some vs" "Tcl_DictObjAll T (c_listen c) = Some ls"
    and "minuted_serve_listen T c sock (first_runstate T (length ls) (length vs)) = Some (0, rs1)"
    and "minuted_serve_load T c load rs1 = (0, rs2)" and "length vs < 2 ^ 31"
    and "l < length ls" and "tr_nv (d_rs d) = tr_nv (served_runtime rs2)"
  shows "case host_number T (choose_host T (tr_vhostListen (served_runtime rs2) ! l) (tr_vhostMap (served_runtime rs2))
            (Tcl_NewStringObj T host) (Tcl_NewStringObj T s_default)) d of
      (Inr i, d') \<Rightarrow> d' = d \<and> i < length vs \<and> i < length (tr_v (served_runtime rs2))
        \<and> served_host (served_names T vs (snd (ls ! l))) host = Some (Tcl_GetString T (fst (vs ! i)))
        \<and> loads T load i (vs ! i) (Some (tr_v (served_runtime rs2) ! i))
    | (Inl status, d') \<Rightarrow> status = 410 \<and> served_host (served_names T vs (snd (ls ! l))) host = None"
proof -
  obtain ms where m: "Tcl_DictObjAll T (rs_vhostMap rs2) = Some ms" "length (rs_v rs2) = length vs"
    "length (rs_vhostListen rs2) = length ls"
    "\<And>j. j < length vs \<Longrightarrow> entries_get (Tcl_GetString T) (keys T vs ! j) ms = Some (Tcl_NewIntObj T (int j))"
    "\<And>j. j < length vs \<Longrightarrow> loads T load j (vs ! j) (rs_v rs2 ! j)"
    "\<And>l. l < length ls \<Longrightarrow> listens T c (snd (ls ! l)) (rs_vhostListen rs2 ! l)"
    using served [OF assms(1-6)] by blast
  obtain z where z: "rs_vhostListen rs2 ! l = Some z" using m(6) [OF assms(8)] by (auto simp: listens_def)
  obtain es where es: "Tcl_DictObjAll T z = Some es" "keys T es = served_names T vs (snd (ls ! l))"
      "set (keys T es) \<subseteq> set (keys T vs)"
    by (rule lookup_served [OF assms(1-4,8)]) (use m(6) [OF assms(8)] z in auto)
  let ?a = "if host \<in> set (keys T es) then host else s_default"
  have ch: "choose_host T (tr_vhostListen (served_runtime rs2) ! l) (tr_vhostMap (served_runtime rs2))
        (Tcl_NewStringObj T host) (Tcl_NewStringObj T s_default)
      = Chosen (entries_get (Tcl_GetString T) ?a es) (entries_get (Tcl_GetString T) ?a ms) (Tcl_NewStringObj T ?a)"
    using choose_host_served [OF assms(1) es(1) m(1)] z m(3) assms(8) by (simp add: served_runtime_def)
  show ?thesis
  proof (cases "?a \<in> set (keys T es)")
    case False
    then have "entries_get (Tcl_GetString T) ?a es = None" using get_keys [of T ?a es] by blast
    moreover have "served_host (served_names T vs (snd (ls ! l))) host = None"
      using False es(2) by (auto simp: served_host_def split: if_split_asm)
    ultimately show ?thesis unfolding ch by (simp add: host_number_def)
  next
    case True
    then obtain vhost where v: "entries_get (Tcl_GetString T) ?a es = Some vhost" using get_keys [of T ?a es] by blast
    have "?a \<in> set (keys T vs)" using True es(3) by (rule subsetD [rotated])
    then obtain i where i: "i < length vs" "keys T vs ! i = ?a" by (auto simp: in_set_conv_nth)
    have n: "entries_get (Tcl_GetString T) ?a ms = Some (Tcl_NewIntObj T (int i))" using m(4) [OF i(1)] i(2) by simp
    have "Tcl_GetIntFromObj T (Tcl_NewIntObj T (int i)) = Some (int i)" using assms(1,7) i(1) by (simp add: tcl_laws_def)
    moreover have "int i \<le> tr_nv (d_rs d)" using assms(9) m(2) i(1) by (simp add: served_runtime_def)
    moreover have "loads T load i (vs ! i) (Some (tr_v (served_runtime rs2) ! i))"
    proof -
      have "loads T load i (vs ! i) (rs_v rs2 ! i)" by (rule m(5) [OF i(1)])
      then have "loads T load i (vs ! i) (Some (the (rs_v rs2 ! i)))" unfolding loads_def by force
      then show ?thesis using m(2) i(1) by (simp add: served_runtime_def)
    qed
    moreover have "served_host (served_names T vs (snd (ls ! l))) host = Some (Tcl_GetString T (fst (vs ! i)))"
    proof -
      have "Tcl_GetString T (fst (vs ! i)) = ?a" using i by (simp add: keys_def)
      then show ?thesis using True unfolding es(2) served_host_def by (simp split: if_split_asm)
    qed
    ultimately show ?thesis
      unfolding ch v n using i(1) m(2) by (simp add: host_number_def served_runtime_def)
  qed
qed

definition demo_rs1 :: "(tcl_value, unit) runstate" where
  "demo_rs1 = \<lparr>rs_vhostMap = V_dict [], rs_vhostListen = [Some (c_vhosts demo_configuration)], rs_v = [None],
     rs_ssocks = [5], rs_open = [5], rs_log = []\<rparr>"

definition demo_rs2 :: "(tcl_value, unit) runstate" where
  "demo_rs2 = snd (minuted_serve_load data_tcl demo_configuration demo_load demo_rs1)"

lemma demo_rs1: "minuted_serve_listen data_tcl demo_configuration demo_sock (first_runstate data_tcl 1 1) = Some (0, demo_rs1)"
  by (simp add: minuted_serve_listen_def demo_configuration_def data_tcl_def first_runstate_def demo_sock_def demo_rs1_def)

lemma demo_rs2: "minuted_serve_load data_tcl demo_configuration demo_load demo_rs1 = (0, demo_rs2)"
  "length (rs_v demo_rs2) = 1"
  by (simp_all add: minuted_serve_load_def demo_configuration_def data_tcl_def demo_load_def demo_rs1_def demo_rs2_def
    cs_application_def rs_say_def)

lemma demo_conf_ok: "conf_ok data_tcl demo_configuration"
  by (rule conf_okI) (auto simp: data_tcl_def demo_configuration_def entries_ok_def hosts_known_def pair_keys_def)

lemma demo_dicts:
  "Tcl_DictObjAll data_tcl (c_vhosts demo_configuration)
   = Some [(V_string ''default'', V_dict [(V_string ''application'', V_string ''app.tcl'')])]"
  "Tcl_DictObjAll data_tcl (c_listen demo_configuration)
   = Some [(V_list [V_string ''localhost'', V_string ''80''], V_dict [])]"
  by (simp_all add: data_tcl_def demo_configuration_def)

lemma requests_reach_vhosts_witness:
  "case host_number data_tcl (choose_host data_tcl (tr_vhostListen (served_runtime demo_rs2) ! 0)
       (tr_vhostMap (served_runtime demo_rs2)) (Tcl_NewStringObj data_tcl ''www'') (Tcl_NewStringObj data_tcl s_default))
       (fresh_data (served_runtime demo_rs2) 0 0) of
      (Inr i, d') \<Rightarrow> i = 0
    | (Inl status, d') \<Rightarrow> False"
proof -
  have "served_host (served_names data_tcl
       [(V_string ''default'', V_dict [(V_string ''application'', V_string ''app.tcl'')])] (V_dict [])) ''www''
      = Some ''default''"
    by (simp add: served_host_def served_names_def data_tcl_def s_default_def)
  moreover have "tr_nv (d_rs (fresh_data (served_runtime demo_rs2) 0 0)) = tr_nv (served_runtime demo_rs2)"
    by (simp add: fresh_data_def)
  ultimately show ?thesis
    using requests_reach_vhosts [OF data_tcl_laws demo_conf_ok demo_dicts, of demo_sock demo_rs1 demo_load demo_rs2 0
        "fresh_data (served_runtime demo_rs2) 0 0" "''www''"] demo_rs1 demo_rs2
    by (simp split: prod.splits sum.splits)
qed

end
