(* ===== verification/Minuted_Main.thy ===== *)
theory Minuted_Main
  imports Minuted_Serve
begin

text \<open>
  The start of the server (\<open>main\<close> of \<open>src/minuted/main.c\<close>): the options, and the loop that reads the
  configuration, becomes a daemon and serves, again after every SIGHUP.  \<open>getopt\<close> is the one of the
  C library; what a round meets (the file, the interpreter, the kernel) is a record of a script.
\<close>

section \<open>Options\<close>

definition known_option :: "string \<Rightarrow> char \<Rightarrow> bool" where
  "known_option optstring c \<longleftrightarrow> c \<noteq> CHR '':'' \<and> c \<in> set optstring"

fun takes_argument :: "string \<Rightarrow> char \<Rightarrow> bool" where
  "takes_argument (o1 # o2 # os) c = (if o1 = c then o2 = CHR '':'' else takes_argument (o2 # os) c)"
| "takes_argument os c = False"

text \<open>The characters of one argument: the options that \<open>getopt\<close> answers, and the arguments that are left.
  A question mark stands for an option that is not known, or without its argument.\<close>

fun getopt_chars :: "string \<Rightarrow> string \<Rightarrow> string list \<Rightarrow> (char \<times> string) list \<times> string list" where
  "getopt_chars os [] args = ([], args)"
| "getopt_chars os (c # cs) args =
     (if \<not> known_option os c then (case getopt_chars os cs args of (r, args) \<Rightarrow> ((CHR ''?'', []) # r, args))
      else if takes_argument os c then
        (if cs \<noteq> [] then ([(c, cs)], args)
         else (case args of [] \<Rightarrow> ([(CHR ''?'', [])], []) | a # args \<Rightarrow> ([(c, a)], args)))
      else (case getopt_chars os cs args of (r, args) \<Rightarrow> ((c, []) # r, args)))"

lemma getopt_chars_length: "length (snd (getopt_chars os cs args)) \<le> length args"
  by (induction os cs args rule: getopt_chars.induct) (auto split: list.split prod.split)

text \<open>The options of all arguments, those between other words included.\<close>

function getopt_all :: "string \<Rightarrow> string list \<Rightarrow> (char \<times> string) list" where
  "getopt_all os [] = []"
| "getopt_all os (a # args) =
     (if a = ''--'' then []
      else if 1 < length a \<and> hd a = CHR ''-'' then
        fst (getopt_chars os (tl a) args) @ getopt_all os (snd (getopt_chars os (tl a) args))
      else getopt_all os args)"
  by pat_completeness auto
termination
  by (relation "measure (\<lambda>(os, args). length args)") (auto simp: getopt_chars_length le_imp_less_Suc)

definition VERSION :: string where "VERSION = ''0.1''"
definition SERVER_CONFIG :: string where "SERVER_CONFIG = ''/etc/minuted.conf''"

definition version :: string where
  "version = ''minuted/'' @ VERSION @ '' - a standalone minute HTTP daemon'' @ [CHR 0x0a]"

text \<open>The part behind the last slash.\<close>

definition base_name :: "string \<Rightarrow> string" where
  "base_name argv0 = rev (takeWhile (\<lambda>c. c \<noteq> CHR ''/'') (rev argv0))"

definition usage :: "string \<Rightarrow> string" where
  "usage argv0 = ''Usage:'' @ [CHR 0x09] @ base_name argv0 @ '' [-f config][-d pidfile][-hv]'' @ [CHR 0x0a]"

record options =
  o_config    :: string
  o_pidfile   :: string
  o_daemonize :: bool
  o_debug     :: bool

definition first_options :: options where
  "first_options = \<lparr>o_config = SERVER_CONFIG, o_pidfile = [], o_daemonize = False, o_debug = False\<rparr>"

text \<open>Something that the program does.\<close>

datatype main_event =
    Stdout string
  | Stderr string
  | Log char string
  | Pid_file string string
  | Set_session
  | Configured int
  | Served int

text \<open>The loop over the options: an exit code with what is printed, or the options.\<close>

fun option_loop :: "string \<Rightarrow> (char \<times> string) list \<Rightarrow> options \<Rightarrow> (int \<times> main_event list) + options" where
  "option_loop argv0 [] o1 = Inr o1"
| "option_loop argv0 ((opt, arg) # opts) o1 =
     (if opt = CHR ''f'' then option_loop argv0 opts (o1\<lparr>o_config := arg\<rparr>)
      else if opt = CHR ''d'' then option_loop argv0 opts (o1\<lparr>o_pidfile := arg, o_daemonize := True\<rparr>)
      else if opt = CHR ''D'' then option_loop argv0 opts (o1\<lparr>o_debug := True\<rparr>)
      else if opt = CHR ''v'' then Inl (0, [Stdout version])
      else if opt = CHR ''h'' then Inl (0, [Stdout version, Stdout (usage argv0)])
      else Inl (1, [Stderr (usage argv0)]))"

section \<open>Serving and restarting\<close>

definition SIGHUP :: int where "SIGHUP = 1"

record ('o, 's) round =
  rd_access :: "'o \<Rightarrow> bool"
  rd_run    :: "'o conf_run"
  rd_creat  :: int
  rd_fork   :: int
  rd_sock   :: "nat \<Rightarrow> string \<Rightarrow> string \<Rightarrow> listen_outcome"
  rd_load   :: "nat \<Rightarrow> string \<Rightarrow> string \<Rightarrow> ('o, 's) application"
  rd_serve  :: "('o, 's) runstate \<Rightarrow> int"

text \<open>Becoming a daemon: the process ends here (the parent, or without its file), or goes on.  The
  text of the process id comes from \<open>snprintf\<close>.\<close>

definition daemonize :: "options \<Rightarrow> ('o, 's) round \<Rightarrow> main_event list option" where
  "daemonize o1 rd =
     (if \<not> o_daemonize o1 then None
      else if rd_creat rd < 0 then Some [Log CHR ''E'' ''Unable to create pidfile.'']
      else if 0 < rd_fork rd then Some [Pid_file (o_pidfile o1) (fmt_d (rd_fork rd) @ [CHR 0x0a]), Set_session]
      else None)"

definition serve_end :: "int \<Rightarrow> main_event" where
  "serve_end r = (if r = 0 then Log CHR ''I'' ''Server shut down.''
     else if r = -1 then Log CHR ''E'' ''Unable to serve connections.''
     else Log CHR ''E'' ''Server crashed.'')"

text \<open>The loop: \<open>None\<close> when the rounds of the script are over and the server goes on.\<close>

fun main_loop ::
    "'o tcl \<Rightarrow> options \<Rightarrow> 'o configure_state \<Rightarrow> ('o, 's) round list \<Rightarrow> main_event list \<Rightarrow> (int \<times> main_event list) c_loop" where
  "main_loop T o1 cs [] ev = None"
| "main_loop T o1 cs (rd # rds) ev =
     c_bind (c_step (minuted_configure T (rd_access rd) (o_config o1) (rd_run rd) cs)) (\<lambda>(r, c, cs).
       if r \<noteq> 0 then Some (Some (r, ev @ [Configured r]))
       else (case daemonize o1 rd of
           Some es \<Rightarrow> Some (Some (0, ev @ [Configured 0] @ es))
         | None \<Rightarrow>
             c_bind (c_step (minuted_serve T (rd_sock rd) (rd_load rd) (rd_serve rd) c)) (\<lambda>(r, z).
               if r = SIGHUP then
                 main_loop T (o1\<lparr>o_daemonize := False\<rparr>) cs rds (ev @ [Configured 0, Served r])
               else Some (Some (0, ev @ [Configured 0, Served r, serve_end r])))))"

text \<open>\<open>main\<close>: the exit code and what has been done.\<close>

definition minuted_main :: "'o tcl \<Rightarrow> string \<Rightarrow> string list \<Rightarrow> ('o, 's) round list \<Rightarrow> (int \<times> main_event list) c_loop" where
  "minuted_main T argv0 args rds =
     (case option_loop argv0 (getopt_all ''f:hvd:u:D'' args) first_options of
        Inl z \<Rightarrow> Some (Some z)
      | Inr o1 \<Rightarrow> main_loop T o1 minuted_configure_init rds [])"


section \<open>Properties\<close>

text \<open>A list has the elements it is made of.\<close>

definition list_laws :: "'o tcl \<Rightarrow> bool" where
  "list_laws T \<longleftrightarrow> (\<forall>xs i. Tcl_ListObjIndex T (Tcl_NewListObj T xs) i = Some (if i < length xs then Some (xs ! i) else None))"

lemma pairs_from_keys: "list_laws T \<Longrightarrow> pair_keys T ls \<Longrightarrow> pairs T ls"
  unfolding list_laws_def pair_keys_def pairs_def by fastforce

text \<open>A round that is orderly: its script calls \<open>application\<close> in virtual hosts only, and sockets are
  not negative.\<close>

definition orderly :: "('o, 's) round \<Rightarrow> bool" where
  "orderly rd \<longleftrightarrow> placed False (rd_run rd) \<and> sockets_ok (rd_sock rd)"

text \<open>How the last round of a run ends.\<close>

definition run_end :: "options \<Rightarrow> nat \<Rightarrow> int \<Rightarrow> main_event list \<Rightarrow> bool" where
  "run_end o1 k res es \<longleftrightarrow> res \<in> {1, 2, 3} \<and> es = [Configured res]
     \<or> res = 0 \<and> k = 0 \<and> o_daemonize o1 \<and> (es = [Configured 0, Log CHR ''E'' ''Unable to create pidfile.'']
         \<or> (\<exists>pid > 0. es = [Configured 0, Pid_file (o_pidfile o1) (fmt_d pid @ [CHR 0x0a]), Set_session]))
     \<or> res = 0 \<and> (\<exists>r. r \<noteq> SIGHUP \<and> es = [Configured 0, Served r, serve_end r])"

definition restarts :: "nat \<Rightarrow> main_event list" where
  "restarts k = concat (replicate k [Configured 0, Served SIGHUP])"

lemma restarts_Suc: "restarts (Suc k) = [Configured 0, Served SIGHUP] @ restarts k"
  by (simp add: restarts_def)

text \<open>One round.\<close>

lemma configured_serves:
  fixes file_name :: string
  assumes "tcl_laws T" "list_laws T" "orderly rd" "cs_current cs = None"
  obtains r c cs' where "minuted_configure T (rd_access rd) file_name (rd_run rd) cs = Some (r, c, cs')"
    "r \<in> {0, 1, 2, 3}" "cs_current cs' = None"
    "\<exists>res z. minuted_serve T (rd_sock rd) (rd_load rd) (rd_serve rd) c = Some (res, z)"
proof -
  obtain r c cs' where 1: "minuted_configure T (rd_access rd) file_name (rd_run rd) cs = Some (r, c, cs')" "conf_ok T c"
      "r \<in> {0, 1, 2, 3}" "cs_current cs' = None"
    using configure_ok [OF assms(1), of cs "rd_run rd" "rd_access rd" file_name] assms(3,4) by (auto simp: orderly_def)
  have "\<forall>ls. Tcl_DictObjAll T (c_listen c) = Some ls \<longrightarrow> pairs T ls"
    using 1(2) pairs_from_keys [OF assms(2)] by (auto simp: conf_ok_def)
  then have "\<exists>res z. minuted_serve T (rd_sock rd) (rd_load rd) (rd_serve rd) c = Some (res, z)"
    using serve_sockets [of "rd_sock rd" T c "rd_load rd" "rd_serve rd"] assms(3) by (auto simp: orderly_def)
  then show thesis using that 1 by blast
qed

lemma daemonize_Some:
  "daemonize o1 rd = Some es \<Longrightarrow> run_end o1 0 0 (Configured 0 # es)"
  by (auto simp: daemonize_def run_end_def split: if_split_asm)

lemma main_loop_runs:
  assumes "tcl_laws T" "list_laws T"
  shows "\<forall>rd \<in> set rds. orderly rd \<Longrightarrow> cs_current cs = None
    \<Longrightarrow> main_loop T o1 cs rds ev = None \<or>
      (\<exists>k < length rds. \<exists>res es. main_loop T o1 cs rds ev = Some (Some (res, ev @ restarts k @ es)) \<and> run_end o1 k res es)"
proof (induction rds arbitrary: o1 cs ev)
  case (Cons rd rds)
  obtain r c cs' where 1: "minuted_configure T (rd_access rd) (o_config o1) (rd_run rd) cs = Some (r, c, cs')"
      "r \<in> {0, 1, 2, 3}" "cs_current cs' = None"
      "\<exists>res z. minuted_serve T (rd_sock rd) (rd_load rd) (rd_serve rd) c = Some (res, z)"
    by (rule configured_serves [OF assms, of rd cs "o_config o1"]) (use Cons.prems in auto)
  obtain q z where 2: "minuted_serve T (rd_sock rd) (rd_load rd) (rd_serve rd) c = Some (q, z)" using 1(4) by blast
  consider (failed) "r \<noteq> 0" | (daemon) es where "r = 0" "daemonize o1 rd = Some es"
    | (restart) "r = 0" "daemonize o1 rd = None" "q = SIGHUP" | (ends) "r = 0" "daemonize o1 rd = None" "q \<noteq> SIGHUP"
    by (cases "daemonize o1 rd") auto
  then show ?case
  proof cases
    case failed
    then have "run_end o1 0 r [Configured r]" using 1(2) by (auto simp: run_end_def)
    moreover have "main_loop T o1 cs (rd # rds) ev = Some (Some (r, ev @ restarts 0 @ [Configured r]))"
      using 1(1) failed by (simp add: restarts_def)
    ultimately show ?thesis by blast
  next
    case (daemon es)
    then have "main_loop T o1 cs (rd # rds) ev = Some (Some (0, ev @ restarts 0 @ Configured 0 # es))"
      using 1(1) by (simp add: restarts_def)
    then show ?thesis using daemonize_Some [OF daemon(2)] by blast
  next
    case restart
    let ?o = "o1\<lparr>o_daemonize := False\<rparr>" and ?ev = "ev @ [Configured 0, Served SIGHUP]"
    have m: "main_loop T o1 cs (rd # rds) ev = main_loop T ?o cs' rds ?ev" using 1(1) 2 restart by simp
    have "\<forall>rd \<in> set rds. orderly rd" using Cons.prems(1) by simp
    from Cons.IH [OF this 1(3), of ?o ?ev] show ?thesis
    proof (elim disjE)
      assume "\<exists>k < length rds. \<exists>res es. main_loop T ?o cs' rds ?ev = Some (Some (res, ?ev @ restarts k @ es)) \<and> run_end ?o k res es"
      then obtain k res es where k: "k < length rds" "main_loop T ?o cs' rds ?ev = Some (Some (res, ?ev @ restarts k @ es))"
          "run_end ?o k res es" by blast
      then have "run_end o1 (Suc k) res es" by (auto simp: run_end_def)
      then show ?thesis using m k(1,2) by (intro disjI2 exI [of _ "Suc k"]) (auto simp: restarts_Suc)
    qed (use m in auto)
  next
    case ends
    then have "main_loop T o1 cs (rd # rds) ev = Some (Some (0, ev @ restarts 0 @ [Configured 0, Served q, serve_end q]))"
      using 1(1) 2 by (simp add: restarts_def)
    moreover have "run_end o1 0 0 [Configured 0, Served q, serve_end q]" using ends by (auto simp: run_end_def)
    ultimately show ?thesis by blast
  qed
qed simp


definition demo_round :: "int \<Rightarrow> (tcl_value, unit) round" where
  "demo_round r = \<lparr>rd_access = (\<lambda>f. True), rd_run = demo_conf, rd_creat = 3, rd_fork = 0, rd_sock = demo_sock,
     rd_load = demo_load, rd_serve = (\<lambda>rs. r)\<rparr>"

lemma data_list_laws: "list_laws data_tcl"
  by (simp add: list_laws_def data_tcl_def)

text \<open>A daemon that is restarted once: the child's side, and what it has done.\<close>

lemma demo_main:
  "minuted_main data_tcl ''/usr/sbin/minuted'' [''-d'', ''/run/pid'', ''-fminuted.conf''] [demo_round 1, demo_round 0]
   = Some (Some (0, restarts 1 @ [Configured 0, Served 0, Log CHR ''I'' ''Server shut down.'']))"
  by code_simp


end
