(* ===== verification/Patricia_Build.thy ===== *)
theory Patricia_Build
  imports Prelude "HOL-Library.Word" "HOL-Library.Sublist"
begin

text \<open>
  The tool that makes the tables of the tries (\<open>src/tools/patricia-build.c\<close>): a trie of nodes, the
  insertion of a word, and the numbering of the nodes.  A node is a value here; the pointers between
  nodes form a tree.
\<close>

unbundle bit_operations_syntax

section \<open>Nodes\<close>

definition TBLSZ :: nat where "TBLSZ = 28"

datatype node = Node (n_elem: string) (n_limit: nat) (n_mask: "64 word") (n_terminal: "string option")
  (n_tbl: "node option list")

definition ctoi :: "char \<Rightarrow> nat" where
  "ctoi c =
     (if of_char CHR ''a'' \<le> (of_char c :: nat) \<and> (of_char c :: nat) \<le> of_char CHR ''z'' then of_char c - of_char CHR ''a''
      else if of_char CHR ''A'' \<le> (of_char c :: nat) \<and> (of_char c :: nat) \<le> of_char CHR ''Z'' then of_char c - of_char CHR ''A''
      else if c = CHR ''-'' then 26
      else 27)"

text \<open>A node that \<open>calloc\<close> has made, with its word.\<close>

definition new_node :: "string \<Rightarrow> string \<Rightarrow> node" where
  "new_node buf terminal = Node buf 0 0 (Some terminal) (replicate TBLSZ None)"

text \<open>\<open>elem[offs]\<close>, with the byte behind the end.\<close>

definition elem_at :: "string \<Rightarrow> nat \<Rightarrow> char" where
  "elem_at s offs = (if offs < length s then s ! offs else CHR 0x00)"

definition split_node :: "node \<Rightarrow> nat \<Rightarrow> node" where
  "split_node root offs =
     (let i = ctoi (elem_at (n_elem root) offs);
          n = Node (drop offs (n_elem root)) (n_limit root) (n_mask root) (n_terminal root) (n_tbl root) in
      Node (take offs (n_elem root)) (i + 1) (push_bit i 1) None ((replicate TBLSZ None)[i := Some n]))"

text \<open>A child is set, its bit and the limit.\<close>

definition set_child :: "node \<Rightarrow> nat \<Rightarrow> node \<Rightarrow> node" where
  "set_child root i n =
     Node (n_elem root) (if n_limit root < i + 1 then i + 1 else n_limit root) (n_mask root OR push_bit i 1)
       (n_terminal root) ((n_tbl root)[i := Some n])"

fun skip :: "string \<Rightarrow> string \<Rightarrow> string \<times> string" where
  "skip (s # ss) (b # bs) = (if s = b then skip ss bs else (s # ss, b # bs))"
| "skip ss bs = (ss, bs)"

lemma child_size:
  "i < length ts \<Longrightarrow> ts ! i = Some n \<Longrightarrow> size n < Suc (size_list (size_option size) ts)"
proof -
  assume "i < length ts" "ts ! i = Some n"
  then have "Some n \<in> set ts" by (metis nth_mem)
  then have "size_option size (Some n) \<le> size_list (size_option size) ts"
    by (rule size_list_estimation') simp
  then show ?thesis by simp
qed

lemma ctoi_less [simp]: "ctoi c < 28"
  by (auto simp: ctoi_def)

function insert_node :: "node \<Rightarrow> string \<Rightarrow> string \<Rightarrow> node" where
  "insert_node (Node elem limit msk term tbl) terminal buf =
     (case skip elem buf of
        (s, []) \<Rightarrow> split_node (Node elem limit msk term tbl) (length elem - length s)
      | ([], b # bs) \<Rightarrow>
          (if ctoi b < length tbl then
             (case tbl ! ctoi b of
                None \<Rightarrow> set_child (Node elem limit msk term tbl) (ctoi b) (new_node (b # bs) terminal)
              | Some n \<Rightarrow> Node elem limit msk term (tbl[ctoi b := Some (insert_node n terminal (b # bs))]))
           else Node elem limit msk term tbl)
      | (s, b # bs) \<Rightarrow>
          set_child (split_node (Node elem limit msk term tbl) (length elem - length s)) (ctoi b)
            (new_node (b # bs) terminal))"
  by pat_completeness auto
termination by (relation "measure (\<lambda>(n, t, b). size n)") (auto simp: child_size)

declare insert_node.simps [simp del]

text \<open>The trie before the first word.\<close>

definition root_node :: node where
  "root_node = Node [] 1 0 None (replicate TBLSZ None)"

section \<open>Reading the words\<close>

text \<open>What \<open>fgets\<close> has read loses its line end; a line of a line feed alone makes the tool look at the byte
  in front of its buffer.\<close>

definition chop_line :: "string \<Rightarrow> string option" where
  "chop_line buffer =
     (let len = length buffer in
      if last buffer \<noteq> CHR 0x0a then Some buffer
      else if len < 2 then None
      else if buffer ! (len - 2) = CHR 0x0d then Some (take (len - 2) buffer)
      else Some (take (len - 1) buffer))"

definition isalnum :: "char \<Rightarrow> bool" where
  "isalnum c = (let n = of_char c :: nat in 48 \<le> n \<and> n \<le> 57 \<or> 65 \<le> n \<and> n \<le> 90 \<or> 97 \<le> n \<and> n \<le> 122)"

definition terminal_name :: "string \<Rightarrow> string \<Rightarrow> string" where
  "terminal_name pfx buffer = map (\<lambda>c. if isalnum c then c else CHR ''_'') (pfx @ buffer)"

fun read_words :: "string \<Rightarrow> string list \<Rightarrow> node \<Rightarrow> node option" where
  "read_words pfx [] root = Some root"
| "read_words pfx (line # lines) root =
     (if line = [] then read_words pfx lines root
      else do { w \<leftarrow> chop_line line; read_words pfx lines (insert_node root (terminal_name pfx w) w) })"

section \<open>Looking a word up\<close>

function find_word :: "node \<Rightarrow> string \<Rightarrow> string option" where
  "find_word (Node elem limit msk term tbl) w =
     (case skip elem w of
        ([], []) \<Rightarrow> term
      | ([], c # cs) \<Rightarrow>
          (if ctoi c < length tbl then (case tbl ! ctoi c of None \<Rightarrow> None | Some n \<Rightarrow> find_word n (c # cs)) else None)
      | (s, cs) \<Rightarrow> None)"
  by pat_completeness auto
termination by (relation "measure (\<lambda>(n, w). size n)") (auto simp: child_size)

declare find_word.simps [simp del]

text \<open>The nodes fit together: a child is behind the index of its first character, the bits of the mask
  are the children, and the trie has a word below every child.\<close>

function wf_node :: "char set \<Rightarrow> node \<Rightarrow> bool" where
  "wf_node A (Node elem limit msk term tbl) \<longleftrightarrow> set elem \<subseteq> A \<and> length tbl = TBLSZ \<and> limit \<le> TBLSZ
     \<and> (\<forall>i. bit msk i \<longleftrightarrow> i < TBLSZ \<and> tbl ! i \<noteq> None)
     \<and> (\<forall>i. i < length tbl \<longrightarrow> (case tbl ! i of None \<Rightarrow> True
          | Some n \<Rightarrow> i < limit \<and> n_elem n \<noteq> [] \<and> ctoi (hd (n_elem n)) = i \<and> (n_terminal n \<noteq> None \<or> n_mask n \<noteq> 0)
              \<and> wf_node A n))"
  by pat_completeness auto
termination by (relation "measure (\<lambda>(A, n). size n)") (auto simp: child_size)

declare wf_node.simps [simp del]


section \<open>Lemmas\<close>

lemma skip_spec:
  obtains p s' b' where "s = p @ s'" "b = p @ b'" "skip s b = (s', b')"
    "s' = [] \<or> b' = [] \<or> hd s' \<noteq> hd b'"
proof -
  have "\<exists>p s' b'. s = p @ s' \<and> b = p @ b' \<and> skip s b = (s', b') \<and> (s' = [] \<or> b' = [] \<or> hd s' \<noteq> hd b')"
  proof (induction s b rule: skip.induct)
    case (1 s ss b bs)
    show ?case
    proof (cases "s = b")
      case True
      with 1 obtain p s' b' where "ss = p @ s'" "bs = p @ b'" "skip ss bs = (s', b')" "s' = [] \<or> b' = [] \<or> hd s' \<noteq> hd b'"
        by blast
      then show ?thesis using True by (intro exI [of _ "s # p"] exI [of _ s'] exI [of _ b']) simp
    qed auto
  qed auto
  then show thesis using that by blast
qed

lemma skip_append [simp]: "skip (p @ s) (p @ b) = skip s b"
  by (induction p) auto

lemma skip_self [simp]: "skip p (p @ b) = ([], b)"
  using skip_append [of p "[]" b] by (cases b) auto

lemma find_eq:
  "find_word (Node e l m t ts) w =
     (if prefix e w then
        (case drop (length e) w of
           [] \<Rightarrow> t
         | c # cs \<Rightarrow> (if ctoi c < length ts then (case ts ! ctoi c of None \<Rightarrow> None | Some n \<Rightarrow> find_word n (c # cs)) else None))
      else None)"
proof (cases "prefix e w")
  case True
  then obtain r where "w = e @ r" by (auto simp: prefix_def)
  then show ?thesis by (subst find_word.simps) (simp split: list.split)
next
  case False
  obtain p s r where "e = p @ s" "w = p @ r" "skip e w = (s, r)" by (rule skip_spec [of e w])
  then show ?thesis using False by (subst find_word.simps) (auto split: list.split)
qed

lemma find_prefix: "find_word n w = Some t \<Longrightarrow> prefix (n_elem n) w"
  by (cases n) (simp add: find_eq split: if_split_asm)

lemma find_child:
  "ts ! ctoi c = Some n \<Longrightarrow> ctoi c < length ts \<Longrightarrow> find_word (Node e l m t ts) (e @ c # cs) = find_word n (c # cs)"
  by (simp add: find_eq)

definition live :: "node \<Rightarrow> bool" where
  "live n \<longleftrightarrow> n_terminal n \<noteq> None \<or> n_mask n \<noteq> 0"

lemma wf_nodeE:
  assumes "wf_node A n"
  shows "set (n_elem n) \<subseteq> A" "length (n_tbl n) = 28" "n_limit n \<le> 28"
    "bit (n_mask n) i \<longleftrightarrow> i < 28 \<and> n_tbl n ! i \<noteq> None"
    "i < 28 \<Longrightarrow> n_tbl n ! i = Some c \<Longrightarrow> i < n_limit n \<and> n_elem c \<noteq> [] \<and> ctoi (hd (n_elem c)) = i \<and> live c \<and> wf_node A c"
  using assms by (cases n; simp add: wf_node.simps TBLSZ_def live_def; force)+

lemma wf_nodeI:
  assumes "set (n_elem n) \<subseteq> A" "length (n_tbl n) = 28" "n_limit n \<le> 28"
    and "\<And>i. bit (n_mask n) i \<longleftrightarrow> i < 28 \<and> n_tbl n ! i \<noteq> None"
    and "\<And>i c. i < 28 \<Longrightarrow> n_tbl n ! i = Some c \<Longrightarrow> i < n_limit n \<and> n_elem c \<noteq> [] \<and> ctoi (hd (n_elem c)) = i \<and> live c \<and> wf_node A c"
  shows "wf_node A n"
  using assms by (cases n) (auto simp: wf_node.simps TBLSZ_def live_def split: option.split)

text \<open>There is a word below every node that is alive.\<close>

lemma live_find: "wf_node A n \<Longrightarrow> live n \<Longrightarrow> \<exists>w t. find_word n w = Some t"
proof (induction n)
  case (Node e l m t ts)
  show ?case
  proof (cases t)
    case None
    then have "m \<noteq> 0" using Node.prems(2) by (simp add: live_def)
    then obtain i where "bit m i" by (metis bit_0_eq bit_eq_iff bot_apply bot_bool_def)
    then obtain c where i: "i < 28" "ts ! i = Some c" "n_elem c \<noteq> []" "ctoi (hd (n_elem c)) = i" "live c" "wf_node A c"
      using wf_nodeE(4,5) [OF Node.prems(1), of i] by fastforce
    have l: "length ts = 28" using wf_nodeE(2) [OF Node.prems(1)] by simp
    have "Some c \<in> set ts" using i(1,2) l by (metis nth_mem)
    then obtain w u where w: "find_word c w = Some u" using Node.IH i(5,6) by fastforce
    then obtain x xs where "w = x # xs" "hd (n_elem c) = x" 
      using find_prefix [OF w] i(3) by (cases w; cases "n_elem c") (auto simp: prefix_def)
    then have "find_word (Node e l m t ts) (e @ w) = Some u" using find_child [of ts x c e l m t xs] i l w by simp
    then show ?thesis by blast
  next
    case (Some u)
    then have "find_word (Node e l m t ts) e = Some u" by (simp add: find_eq)
    then show ?thesis by blast
  qed
qed

lemma find_new_node: "find_word (new_node b t) w = (if w = b then Some t else None)"
  by (auto simp: new_node_def find_eq TBLSZ_def prefix_def split: list.split)

lemma wf_new_node: "set b \<subseteq> A \<Longrightarrow> wf_node A (new_node b t)"
  by (rule wf_nodeI) (auto simp: new_node_def TBLSZ_def)

lemma live_new_node: "live (new_node b t)"
  by (simp add: live_def new_node_def)

text \<open>A child that is set where there was none.\<close>

lemma find_set_child:
  assumes "length (n_tbl n) = 28" "n_elem c \<noteq> []" "ctoi (hd (n_elem c)) = i" "n_tbl n ! i = None"
  shows "find_word (set_child n i c) w
    = (if prefix (n_elem n @ n_elem c) w then find_word c (drop (length (n_elem n)) w) else find_word n w)"
proof -
  obtain e l m t ts where n: "n = Node e l m t ts" by (cases n)
  show ?thesis
  proof (cases "prefix e w")
    case True
    then obtain r where r: "w = e @ r" by (auto simp: prefix_def)
    show ?thesis
    proof (cases r)
      case (Cons x xs)
      have none: "find_word c (x # xs) = None" if "\<not> prefix (n_elem c) (x # xs)"
        using that find_prefix [of c "x # xs"] by (cases "find_word c (x # xs)") auto
      have hd: "prefix (n_elem c) (x # xs) \<Longrightarrow> ctoi x = i" using assms(2,3) by (cases "n_elem c") auto
      have i: "i < 28" using assms(3) ctoi_less by blast
      show ?thesis
        using n r Cons assms(1,4) none hd i
        by (cases "ctoi x = i"; cases "prefix (n_elem c) (x # xs)") (simp_all add: set_child_def find_eq)
    qed (use n r assms in \<open>auto simp: set_child_def find_eq\<close>)
  next
    case False
    then show ?thesis using n by (auto simp: set_child_def find_eq dest: append_prefixD)
  qed
qed

lemma wf_set_child:
  assumes "wf_node A n" "wf_node A c" "live c" "n_elem c \<noteq> []" "ctoi (hd (n_elem c)) = i"
  shows "wf_node A (set_child n i c)"
proof (rule wf_nodeI)
  note n = wf_nodeE [OF assms(1)]
  have i: "i < 28" using assms(5) ctoi_less by blast
  show "bit (n_mask (set_child n i c)) j \<longleftrightarrow> j < 28 \<and> n_tbl (set_child n i c) ! j \<noteq> None" for j
    using n(2) n(4) [of j] i by (auto simp: set_child_def bit_or_iff bit_push_bit_iff nth_list_update bit_exp_iff)
  show "j < n_limit (set_child n i c) \<and> n_elem d \<noteq> [] \<and> ctoi (hd (n_elem d)) = j \<and> live d \<and> wf_node A d"
    if "j < 28" "n_tbl (set_child n i c) ! j = Some d" for j d
    using n(2) n(5) [of j d] that i assms by (auto simp: set_child_def nth_list_update split: if_split_asm)
qed (use wf_nodeE [OF assms(1)] assms(5) ctoi_less [of "hd (n_elem c)"] in \<open>auto simp: set_child_def\<close>)

text \<open>A node that is split inside of its characters has the same words.\<close>

lemma split_eq:
  assumes "n_elem n = p @ x # s"
  shows "split_node n (length p) = set_child (Node p 0 0 None (replicate 28 None)) (ctoi x)
    (Node (x # s) (n_limit n) (n_mask n) (n_terminal n) (n_tbl n))"
  using assms by (simp add: split_node_def set_child_def elem_at_def TBLSZ_def Let_def)

lemma find_split:
  assumes "n_elem n = p @ x # s"
  shows "find_word (split_node n (length p)) w = find_word n w"
proof -
  obtain l m t ts where n: "n = Node (p @ x # s) l m t ts" using assms by (cases n) auto
  have "find_word (Node p 0 0 None (replicate 28 None)) w = None"
    by (auto simp: find_eq split: list.split)
  then show ?thesis
    unfolding split_eq [OF assms] by (subst find_set_child) (auto simp: n find_eq prefix_def)
qed

lemma wf_split:
  assumes "wf_node A n" "live n" "n_elem n = p @ x # s"
  shows "wf_node A (split_node n (length p))"
  unfolding split_eq [OF assms(3)]
proof (rule wf_set_child)
  show "wf_node A (Node p 0 0 None (replicate 28 None))"
    using wf_nodeE(1) [OF assms(1)] assms(3) by (intro wf_nodeI) auto
  show "wf_node A (Node (x # s) (n_limit n) (n_mask n) (n_terminal n) (n_tbl n))"
    using wf_nodeE [OF assms(1)] assms(3) by (intro wf_nodeI) auto
  show "live (Node (x # s) (n_limit n) (n_mask n) (n_terminal n) (n_tbl n))"
    using assms(2) by (simp add: live_def)
qed simp_all

lemma find_replace_child:
  assumes "length ts = 28" "i < 28"
  shows "find_word (Node e l m t (ts[i := Some c'])) w
    = (if prefix e w \<and> drop (length e) w \<noteq> [] \<and> ctoi (hd (drop (length e) w)) = i then find_word c' (drop (length e) w)
       else find_word (Node e l m t ts) w)"
  using assms by (cases "drop (length e) w") (auto simp: find_eq nth_list_update)

lemma wf_replace_child:
  assumes "wf_node A (Node e l m t ts)" "i < 28" "ts ! i = Some c"
    and "wf_node A c'" "live c'" "n_elem c' \<noteq> []" "ctoi (hd (n_elem c')) = i"
  shows "wf_node A (Node e l m t (ts[i := Some c']))"
proof -
  note n = wf_nodeE [OF assms(1), simplified]
  have "i < l" using n(5) assms(2,3) by blast
  then show ?thesis
    by (intro wf_nodeI; (use n(1-3) in simp)?) (use n(2,4,5) assms(2-) in \<open>auto simp: nth_list_update split: if_split_asm\<close>)
qed

text \<open>What an insertion makes of a node: the word is there, the others are still there, and the node still
  has its place below its parent.\<close>

definition inserted :: "char set \<Rightarrow> node \<Rightarrow> string \<Rightarrow> string \<Rightarrow> node \<Rightarrow> bool" where
  "inserted A n terminal b n' \<longleftrightarrow> (\<forall>w. find_word n' w = (if w = b then Some terminal else find_word n w))
     \<and> wf_node A n' \<and> live n' \<and> (n_elem n \<noteq> [] \<longrightarrow> n_elem n' \<noteq> [] \<and> hd (n_elem n') = hd (n_elem n))"

text \<open>The word may be inserted: no word of the trie begins with it.\<close>

definition fits :: "node \<Rightarrow> string \<Rightarrow> bool" where
  "fits n b \<longleftrightarrow> (\<forall>w t. find_word n w = Some t \<longrightarrow> \<not> prefix b w)"

text \<open>The three cases of \<open>insert\<close> that the input of the tool reaches.\<close>

lemma insert_fork:
  assumes "n_elem n = p @ x # s" "b = p @ y # r" "x \<noteq> y"
  shows "insert_node n terminal b = set_child (split_node n (length p)) (ctoi y) (new_node (y # r) terminal)"
  using assms by (cases n) (simp add: insert_node.simps)

lemma insert_leaf:
  assumes "b = n_elem n @ y # r" "length (n_tbl n) = 28" "n_tbl n ! ctoi y = None"
  shows "insert_node n terminal b = set_child n (ctoi y) (new_node (y # r) terminal)"
  using assms by (cases n) (simp add: insert_node.simps)

lemma insert_below:
  assumes "n = Node e l m t ts" "b = e @ y # r" "length ts = 28" "ts ! ctoi y = Some c"
  shows "insert_node n terminal b = Node e l m t (ts[ctoi y := Some (insert_node c terminal (y # r))])"
  using assms by (simp add: insert_node.simps)

lemma find_leaf:
  assumes "wf_node A n" "n_tbl n ! ctoi y = None"
  shows "find_word (set_child n (ctoi y) (new_node (y # r) t)) w = (if w = n_elem n @ y # r then Some t else find_word n w)"
proof -
  have l: "length (n_tbl n) = 28" by (rule wf_nodeE(2) [OF assms(1)])
  have "n_elem (new_node (y # r) t) = y # r" by (simp add: new_node_def)
  moreover have "find_word n (n_elem n @ y # zs) = None" for zs
    using assms(2) l by (cases n) (simp add: find_eq)
  ultimately show ?thesis
    using find_set_child [OF l, of "new_node (y # r) t" "ctoi y" w] assms(2)
    by (auto simp: find_new_node prefix_def)
qed

lemma inserted_leaf:
  assumes "wf_node A n" "n_tbl n ! ctoi y = None" "set (y # r) \<subseteq> A"
    and "\<And>w. find_word n w = find_word n0 w" "n_elem n0 \<noteq> [] \<Longrightarrow> n_elem n \<noteq> [] \<and> hd (n_elem n) = hd (n_elem n0)"
    and "b = n_elem n @ y # r"
  shows "inserted A n0 t b (set_child n (ctoi y) (new_node (y # r) t))"
proof -
  let ?c = "new_node (y # r) t"
  have e: "n_elem ?c = y # r" by (simp add: new_node_def)
  have "bit (n_mask (set_child n (ctoi y) ?c)) (ctoi y)"
    using less_trans [OF ctoi_less, of 64 y] by (simp add: set_child_def bit_or_iff bit_exp_iff)
  then have "n_mask (set_child n (ctoi y) ?c) \<noteq> 0" by auto
  then show ?thesis
    using find_leaf [OF assms(1,2), of r t] wf_set_child [OF assms(1) wf_new_node [OF assms(3)] live_new_node, of t "ctoi y"] assms(4-) e
    by (simp add: inserted_def live_def set_child_def)
qed

lemma insert_inserted:
  assumes "inj_on ctoi A"
  shows "wf_node A n \<Longrightarrow> n_elem n = [] \<or> live n \<and> hd (n_elem n) = hd b \<Longrightarrow> set b \<subseteq> A \<Longrightarrow> b \<noteq> [] \<Longrightarrow> fits n b
    \<Longrightarrow> inserted A n terminal b (insert_node n terminal b)"
proof (induction n arbitrary: b)
  case (Node e l m t ts)
  let ?n = "Node e l m t ts"
  note wf = wf_nodeE [OF Node.prems(1), simplified]
  obtain p s r where p: "e = p @ s" "b = p @ r" "s = [] \<or> r = [] \<or> hd s \<noteq> hd r"
    by (rule skip_spec [of e b])
  have r: "r \<noteq> []"
  proof
    assume "r = []"
    then have "e \<noteq> []" using p Node.prems(4) by auto
    then obtain w u where "find_word ?n w = Some u" using live_find [OF Node.prems(1)] Node.prems(2) by auto
    then show False using Node.prems(5) find_prefix [of ?n w u] p \<open>r = []\<close> unfolding fits_def by (auto dest: append_prefixD)
  qed
  then obtain y ys where y: "r = y # ys" by (cases r) auto
  have yA: "y \<in> A" "set (y # ys) \<subseteq> A" using Node.prems(3) p(2) y by auto
  show ?case
  proof (cases s)
    case (Cons x xs)
    then have xy: "x \<noteq> y" "x \<in> A" using p y wf(1) by auto
    then have "ctoi x \<noteq> ctoi y" using assms yA(1) by (auto dest: inj_onD)
    then have "n_tbl (split_node ?n (length p)) ! ctoi y = None" "n_elem (split_node ?n (length p)) = p"
      using split_eq [of ?n p x xs] p(1) Cons by (simp_all add: set_child_def)
    moreover have "p \<noteq> []" using Node.prems(2) p y Cons xy by auto
    ultimately show ?thesis
      using inserted_leaf [OF wf_split [OF Node.prems(1), of p x xs], of y ys ?n] find_split [of ?n p x xs] yA(2)
        insert_fork [of ?n p x xs b y ys terminal] Node.prems(2) p y Cons xy
      by auto
  next
    case Nil
    then have b: "b = e @ y # ys" using p y by simp
    show ?thesis
    proof (cases "ts ! ctoi y")
      case None
      then show ?thesis
        using inserted_leaf [OF Node.prems(1), of y ys ?n b terminal] insert_leaf [of b ?n y ys terminal] b yA(2) wf(2) by auto
    next
      case (Some c)
      note c = wf(5) [OF ctoi_less Some]
      have "hd (n_elem c) \<in> A" using c wf_nodeE(1) [of A c] by (cases "n_elem c") auto
      then have h: "hd (n_elem c) = y" using c yA(1) assms by (auto dest: inj_onD)
      have "fits c (y # ys)"
        unfolding fits_def
      proof (intro allI impI notI)
        fix w u assume w: "find_word c w = Some u" "prefix (y # ys) w"
        then obtain zs where "w = y # ys @ zs" by (auto simp: prefix_def)
        then have "find_word ?n (e @ w) = Some u" using find_child [of ts y c e l m t] Some w(1) wf(2) by simp
        then show False using Node.prems(5) b w(2) by (auto simp: fits_def)
      qed
      moreover have "Some c \<in> set ts" using Some wf(2) ctoi_less [of y] by (metis nth_mem)
      ultimately have IH: "inserted A c terminal (y # ys) (insert_node c terminal (y # ys))"
        using Node.IH [of "Some c" c "y # ys"] c h yA by simp
      let ?c = "insert_node c terminal (y # ys)"
      have f: "find_word (Node e l m t (ts[ctoi y := Some ?c])) w = (if w = b then Some terminal else find_word ?n w)" for w
      proof (cases "prefix e w \<and> drop (length e) w \<noteq> [] \<and> ctoi (hd (drop (length e) w)) = ctoi y")
        case True
        then obtain z zs where w: "w = e @ z # zs" "ctoi z = ctoi y"
          by (auto simp: prefix_def neq_Nil_conv)
        then show ?thesis
          using find_replace_child [of ts "ctoi y" e l m t ?c w] find_child [of ts z c e l m t zs] IH Some wf(2) b
          by (auto simp: inserted_def)
      next
        case False
        then have "w \<noteq> b" using b by auto
        then show ?thesis using find_replace_child [of ts "ctoi y" e l m t ?c w] False wf(2) by auto
      qed
      have "m \<noteq> 0" using wf(4) [of "ctoi y"] Some by auto
      then show ?thesis
        using insert_below [of ?n e l m t ts b y ys c terminal] f b Some wf(2) c h IH
          wf_replace_child [OF Node.prems(1) ctoi_less Some, of ?c]
        by (simp add: inserted_def live_def)
    qed
  qed
qed


section \<open>Properties\<close>

lemma chop_word: "w \<noteq> [] \<Longrightarrow> CHR 0x0d \<notin> set w \<Longrightarrow> chop_line (w @ [CHR 0x0a]) = Some w"
proof -
  assume w: "w \<noteq> []" "CHR 0x0d \<notin> set w"
  then have "w ! (length w - Suc 0) \<in> set w" by simp
  then have "w ! (length w - Suc 0) \<noteq> CHR 0x0d" using w(2) by metis
  then show ?thesis using w(1) by (simp add: chop_line_def Let_def nth_append)
qed

lemma wf_root: "wf_node A root_node"
  by (rule wf_nodeI) (auto simp: root_node_def TBLSZ_def)

lemma find_root: "find_word root_node w = None"
  by (auto simp: root_node_def find_eq TBLSZ_def split: list.split)

lemma insert_elem_nil:
  "n_elem n = [] \<Longrightarrow> b \<noteq> [] \<Longrightarrow> length (n_tbl n) = 28
   \<Longrightarrow> n_elem (insert_node n t b) = [] \<and> n_limit n \<le> n_limit (insert_node n t b)"
  by (cases n; cases b) (auto simp: insert_node.simps set_child_def split: option.split)

lemma read_words_find:
  assumes "inj_on ctoi A"
  shows "wf_node A n \<Longrightarrow> n_elem n = [] \<Longrightarrow> \<forall>w \<in> set ws. w \<noteq> [] \<and> set w \<subseteq> A \<and> CHR 0x0d \<notin> set w \<and> fits n w
    \<Longrightarrow> sorted_wrt (\<lambda>u v. \<not> prefix v u) ws
    \<Longrightarrow> \<exists>n'. read_words pfx (map (\<lambda>w. w @ [CHR 0x0a]) ws) n = Some n' \<and> wf_node A n'
      \<and> n_elem n' = [] \<and> n_limit n \<le> n_limit n'
      \<and> (\<forall>w. find_word n' w = (if w \<in> set ws then Some (terminal_name pfx w) else find_word n w))"
proof (induction ws arbitrary: n)
  case (Cons b ws)
  let ?n = "insert_node n (terminal_name pfx b) b"
  have i: "inserted A n (terminal_name pfx b) b ?n"
    by (rule insert_inserted [OF assms]) (use Cons.prems in auto)
  have "fits ?n w" if "w \<in> set ws" for w
    using i Cons.prems(3,4) that by (auto simp: inserted_def fits_def)
  moreover have l: "n_elem ?n = [] \<and> n_limit n \<le> n_limit ?n"
    by (rule insert_elem_nil) (use Cons.prems wf_nodeE(2) in auto)
  ultimately obtain n' where n': "read_words pfx (map (\<lambda>w. w @ [CHR 0x0a]) ws) ?n = Some n'" "wf_node A n'"
      "n_elem n' = []" "n_limit ?n \<le> n_limit n'"
      "\<forall>w. find_word n' w = (if w \<in> set ws then Some (terminal_name pfx w) else find_word ?n w)"
    using Cons.IH [of ?n] i Cons.prems(3,4) by (auto simp: inserted_def)
  have "read_words pfx (map (\<lambda>w. w @ [CHR 0x0a]) (b # ws)) n = Some n'"
    using n'(1) chop_word [of b] Cons.prems(3) by simp
  then show ?case using n' i l by (auto simp: inserted_def)
qed simp

lemma read_words_trie:
  assumes "inj_on ctoi A" "\<forall>w \<in> set ws. w \<noteq> [] \<and> set w \<subseteq> A \<and> CHR 0x0d \<notin> set w"
    and "sorted_wrt (\<lambda>u v. \<not> prefix v u) ws"
  obtains n where "read_words pfx (map (\<lambda>w. w @ [CHR 0x0a]) ws) root_node = Some n" "wf_node A n"
    "n_elem n = []" "n_limit n \<noteq> 0" "\<And>w. find_word n w = (if w \<in> set ws then Some (terminal_name pfx w) else None)"
proof -
  have "n_elem root_node = []" "n_limit root_node = 1" by (simp_all add: root_node_def)
  moreover have "fits root_node w" for w by (simp add: fits_def find_root)
  ultimately show thesis
    using read_words_find [OF assms(1) wf_root, of ws pfx] assms(2,3) that by (auto simp: find_root cong: if_cong)
qed

text \<open>C21. The trie of the tool is the dictionary of its words.  From lines whose words have characters
  with different indexes, none of them empty, and where no word is a prefix of one before it (as in every
  sorted list without duplicates), reading ends in a trie that has exactly these words, each with its
  terminal's name, and whose masks, limits and places are those of its children.\<close>
theorem read_words_correct:
  assumes "inj_on ctoi A" "\<forall>w \<in> set ws. w \<noteq> [] \<and> set w \<subseteq> A \<and> CHR 0x0d \<notin> set w"
    and "sorted_wrt (\<lambda>u v. \<not> prefix v u) ws"
  shows "\<exists>n. read_words pfx (map (\<lambda>w. w @ [CHR 0x0a]) ws) root_node = Some n \<and> wf_node A n
    \<and> (\<forall>w. find_word n w = (if w \<in> set ws then Some (terminal_name pfx w) else None))"
  using read_words_trie [OF assms, of pfx] by metis

lemma read_words_witness:
  "\<exists>n. read_words ''rq_'' (map (\<lambda>w. w @ [CHR 0x0a]) [''te'', ''trailer'', ''transfer-encoding'']) root_node = Some n
    \<and> find_word n ''transfer-encoding'' = Some ''rq_transfer_encoding'' \<and> find_word n ''tr'' = None"
proof -
  have "inj_on ctoi (set ''acdefgilnorst-'')" by (simp add: inj_on_def ctoi_def)
  from read_words_correct [OF this, of "[''te'', ''trailer'', ''transfer-encoding'']" "''rq_''"]
  show ?thesis by (auto simp: terminal_name_def isalnum_def)
qed

text \<open>The other order loses the word that is a prefix, and a word that comes twice is lost at all.\<close>

lemma insert_prefix_lost:
  "read_words ''rq_'' [''accept-charset'' @ [CHR 0x0a], ''accept'' @ [CHR 0x0a]] root_node
     \<bind> (\<lambda>n. find_word n ''accept'') = None"
  "read_words ''rq_'' [''te'' @ [CHR 0x0a], ''te'' @ [CHR 0x0a]] root_node \<bind> (\<lambda>n. find_word n ''te'') = None"
  by code_simp+

end
