(* ===== verification/Patricia_Place.thy ===== *)
theory Patricia_Place
  imports Patricia_Build Patricia
begin

text \<open>
  The second half of the tool (\<open>src/tools/patricia-build.c\<close>): the nodes of the trie in a list, their
  placement in one table, where the children of a node are at an offset of their own and the rows of
  different nodes do not collide, and the table that is printed.  A node is its place in the list.
\<close>

section \<open>The list of the nodes\<close>

definition MAXSZ :: nat where "MAXSZ = 64"

text \<open>A node in the list: its children up to the limit, and the number of its parent; its own number
  (\<open>next\<close>) is its place.\<close>

record lnode =
  ln_elem     :: string
  ln_limit    :: nat
  ln_mask     :: "64 word"
  ln_terminal :: "string option"
  ln_tbl      :: "nat option list"
  ln_check    :: nat

lemma take_row_size: "size_list (size_option size) (take l us) \<le> size_list (size_option size) (us :: node option list)"
  by (induction us arbitrary: l) (auto simp: take_Cons split: nat.split)

text \<open>The nodes below a row of children: \<open>k\<close> is the number of the parent, \<open>m\<close> the next free place.\<close>

function walk_row :: "nat \<Rightarrow> nat \<Rightarrow> node option list \<Rightarrow> nat option list \<times> lnode list" where
  "walk_row k m [] = ([], [])"
| "walk_row k m (None # ts) = (case walk_row k m ts of (ix, ns) \<Rightarrow> (None # ix, ns))"
| "walk_row k m (Some (Node e l msk t us) # ts) =
     (case walk_row m (m + 1) (take l us) of (ux, below) \<Rightarrow>
       (case walk_row k (m + 1 + length below) ts of (ix, ns) \<Rightarrow>
         (Some m # ix,
          \<lparr>ln_elem = e, ln_limit = l, ln_mask = msk, ln_terminal = t, ln_tbl = ux, ln_check = k\<rparr> # below @ ns)))"
  by pat_completeness auto
termination
  by (relation "measure (\<lambda>(k, m, ts). size_list (size_option size) ts)")
    (auto simp: le_imp_less_Suc take_row_size trans_le_add1 intro!: le_imp_less_Suc le_trans [OF take_row_size])

text \<open>\<open>walk\<close> from the root; a list of more than 63 nodes is read behind its end.\<close>

definition walk :: "node \<Rightarrow> lnode list option" where
  "walk root = (let ns = snd (walk_row 0 0 [Some root]) in if length ns < MAXSZ then Some ns else None)"

section \<open>The placement\<close>

text \<open>An entry of the table: a node and the offset of its row.\<close>

type_synonym tblentry = "(nat \<times> nat) option"

text \<open>The first offset at which the row of a node is free; \<open>st\<close> is the number of looks at \<open>stop\<close> that
  still see it unset.\<close>

function first_offset :: "64 word \<Rightarrow> 64 word \<Rightarrow> nat \<Rightarrow> nat \<Rightarrow> nat \<Rightarrow> nat option \<times> nat" where
  "first_offset msk nmask limit off st =
     (if off + TBLSZ < limit \<and> 0 < st then
        if msk AND push_bit off nmask \<noteq> 0 then first_offset msk nmask limit (off + 1) (st - 1)
        else (Some off, st - 1)
      else (None, st))"
  by pat_completeness auto
termination by (relation "measure (\<lambda>(msk, nmask, limit, off, st). limit - off)") (auto simp: TBLSZ_def)

declare first_offset.simps [simp del]

definition place_row :: "lnode \<Rightarrow> nat \<Rightarrow> tblentry list \<Rightarrow> tblentry list" where
  "place_row n off table =
     fold (\<lambda>j t. case ln_tbl n ! j of None \<Rightarrow> t | Some c \<Rightarrow> t[j + off := Some (c, off)]) [0..<length (ln_tbl n)] table"

text \<open>\<open>fit\<close>, from node \<open>i\<close> on: every node that is not in \<open>vis\<close> is tried as the next one to be placed; the
  smallest table is kept.\<close>

function fit_from ::
    "lnode list \<Rightarrow> nat set \<Rightarrow> tblentry list \<Rightarrow> 64 word \<Rightarrow> nat \<Rightarrow> nat \<Rightarrow> nat \<Rightarrow> tblentry list option \<Rightarrow> bool \<Rightarrow> nat
     \<Rightarrow> nat \<times> tblentry list \<times> nat" where
  "fit_from ns vis table msk lo i limit mintbl emp st =
     (if i < length ns then
        if i \<in> vis \<or> ln_limit (ns ! i) = 0 then fit_from ns vis table msk lo (i + 1) limit mintbl emp st
        else (case first_offset msk (ln_mask (ns ! i)) limit 0 st of
            (None, st) \<Rightarrow> fit_from ns vis table msk lo (i + 1) limit mintbl False st
          | (Some off, st) \<Rightarrow>
              (case fit_from ns (insert i vis) (place_row (ns ! i) off table) (msk OR push_bit off (ln_mask (ns ! i)))
                  (max (TBLSZ + off) lo) 0 limit None True st of
                (sz, ntbl, st) \<Rightarrow>
                  if sz < limit then fit_from ns vis table msk lo (i + 1) sz (Some ntbl) False st
                  else fit_from ns vis table msk lo (i + 1) limit mintbl False st))
      else if emp then (lo, table, st)
      else (limit, case mintbl of Some t \<Rightarrow> t | None \<Rightarrow> table, st))"
  by pat_completeness auto
termination
proof (relation "measures [\<lambda>(ns, vis, table, msk, lo, i, limit, mintbl, empty, st). card ({..<length ns} - vis),
    \<lambda>(ns, vis, table, msk, lo, i, limit, mintbl, empty, st). length ns - i]")
  fix ns vis i and st st' off :: nat
  assume "i < length (ns :: lnode list)" "\<not> (i \<in> vis \<or> ln_limit (ns ! i) = 0)"
  then have "{..<length ns} - insert i vis \<subset> {..<length ns} - vis" by auto
  then have "card ({..<length ns} - insert i vis) < card ({..<length ns} - vis)" by (intro psubset_card_mono) auto
  then show "((ns, insert i vis, t1, m1, l1, 0, lim1, None, True, s1), ns, vis, t2, m2, l2, i, lim2, mt2, e2, s2)
      \<in> measures [\<lambda>(ns, vis, table, msk, lo, i, limit, mintbl, empty, st). card ({..<length ns} - vis),
          \<lambda>(ns, vis, table, msk, lo, i, limit, mintbl, empty, st). length ns - i]" for t1 m1 l1 lim1 s1 t2 m2 l2 lim2 mt2 e2 s2
    by simp
qed auto

declare fit_from.simps [simp del]

definition fit ::
    "lnode list \<Rightarrow> nat set \<Rightarrow> tblentry list \<Rightarrow> 64 word \<Rightarrow> nat \<Rightarrow> nat \<Rightarrow> nat \<Rightarrow> nat \<times> tblentry list \<times> nat" where
  "fit ns vis table msk lo hi st = fit_from ns vis table msk lo 0 hi None True st"

section \<open>The printed table\<close>

text \<open>\<open>fixate\<close>: the entry of a node is the last one that has it.\<close>

definition fixate :: "tblentry list \<Rightarrow> nat \<Rightarrow> (nat \<times> nat) option" where
  "fixate table c = fold (\<lambda>e te. case e of Some (n, off) \<Rightarrow> if n = c then Some (n, off) else te | None \<Rightarrow> te) table None"

definition dumptbloffset :: "tblentry list \<Rightarrow> lnode \<Rightarrow> nat option" where
  "dumptbloffset table n =
     (case filter (\<lambda>c. c \<noteq> None) (ln_tbl n) of
        [] \<Rightarrow> Some 0
      | c # cs \<Rightarrow> map_option snd (Option.bind c (fixate table)))"

text \<open>One line of the output, as the compiler reads it: \<open>val\<close> is the value of an enumerator.  The string
  is put together in 32 bytes, and its characters are not escaped.\<close>

definition line_ok :: "string \<Rightarrow> bool" where
  "line_ok s \<longleftrightarrow> length s + 4 \<le> 32 \<and> CHR 0x22 \<notin> set s \<and> CHR 0x5c \<notin> set s"

definition dump_entry :: "(string \<Rightarrow> int) \<Rightarrow> lnode list \<Rightarrow> nat \<Rightarrow> nat \<Rightarrow> patricia option" where
  "dump_entry val ns c off =
     (let n = ns ! c in
      if line_ok (ln_elem n)
      then Some (pat (ln_elem n) (ln_check n) (if ln_limit n \<noteq> 0 then c else 99) off
             (case ln_terminal n of None \<Rightarrow> 0 | Some t \<Rightarrow> val t))
      else None)"

function dump_from :: "(string \<Rightarrow> int) \<Rightarrow> lnode list \<Rightarrow> tblentry list \<Rightarrow> nat \<Rightarrow> nat \<Rightarrow> patricia list option" where
  "dump_from val ns tbl i sz =
     (if i < sz then
        if i < MAXSZ \<and> tbl ! i \<noteq> None then do {
          off \<leftarrow> dumptbloffset tbl (ns ! fst (the (tbl ! i)));
          entry \<leftarrow> dump_entry val ns (fst (the (tbl ! i))) off;
          rest \<leftarrow> dump_from val ns tbl (i + 1) (if sz < off + TBLSZ then off + TBLSZ else sz);
          Some (entry # rest)
        }
        else do {
          rest \<leftarrow> dump_from val ns tbl (i + 1) sz;
          Some (no_pat # rest)
        }
      else Some [])"
  by pat_completeness auto
termination
  by (relation "measures [\<lambda>(val, ns, tbl, i, sz). MAXSZ - i, \<lambda>(val, ns, tbl, i, sz). sz - i]") auto

declare dump_from.simps [simp del]

definition dumptbl :: "(string \<Rightarrow> int) \<Rightarrow> lnode list \<Rightarrow> tblentry list \<Rightarrow> patricia list option" where
  "dumptbl val ns tbl = dump_from val ns tbl 0 TBLSZ"

text \<open>The tool: the words are its input, \<open>pfx\<close> its argument; \<open>Inl 1\<close> is the exit code when no table of less
  than 64 entries has been found.\<close>

definition patricia_build ::
    "(string \<Rightarrow> int) \<Rightarrow> string \<Rightarrow> string list \<Rightarrow> nat \<Rightarrow> (int + patricia list) option" where
  "patricia_build val pfx lines st = do {
     root \<leftarrow> read_words pfx lines root_node;
     list \<leftarrow> walk root;
     (case fit list {} (replicate MAXSZ None) 0 0 MAXSZ st of
        (limit, table, st) \<Rightarrow>
          if limit = MAXSZ then Some (Inl 1)
          else do { tbl \<leftarrow> dumptbl val list table; Some (Inr tbl) })
   }"


section \<open>The list is the trie\<close>

text \<open>The trie \<open>n\<close> is laid out in the list from place \<open>k\<close> on.\<close>

inductive laid :: "lnode list \<Rightarrow> nat \<Rightarrow> node \<Rightarrow> bool" for ns where
  laidI: "k < length ns \<Longrightarrow> ln_elem (ns ! k) = e \<Longrightarrow> ln_limit (ns ! k) = l \<Longrightarrow> ln_mask (ns ! k) = m
    \<Longrightarrow> ln_terminal (ns ! k) = t \<Longrightarrow> length (ln_tbl (ns ! k)) = length (take l us)
    \<Longrightarrow> \<forall>j < length (take l us). (case us ! j of
          None \<Rightarrow> ln_tbl (ns ! k) ! j = None
        | Some c \<Rightarrow> \<exists>q. ln_tbl (ns ! k) ! j = Some q \<and> k < q \<and> ln_check (ns ! q) = k \<and> laid ns q c)
    \<Longrightarrow> laid ns k (Node e l m t us)"
monos option.case_eq_if

inductive_simps laid_Node: "laid ns k (Node e l m t us)"

text \<open>A row of children whose nodes stand in the list from \<open>m\<close> on.\<close>

definition row_laid :: "lnode list \<Rightarrow> nat \<Rightarrow> nat \<Rightarrow> node option list \<Rightarrow> nat option list \<Rightarrow> bool" where
  "row_laid ns k m ts ix \<longleftrightarrow> length ix = length ts \<and> (\<forall>j < length ts. (case ts ! j of
       None \<Rightarrow> ix ! j = None
     | Some c \<Rightarrow> \<exists>q. ix ! j = Some q \<and> m \<le> q \<and> ln_check (ns ! q) = k \<and> laid ns q c))"

text \<open>Every node of a part of the list is in the row or below a node of this part.\<close>

definition covered :: "lnode list \<Rightarrow> nat \<Rightarrow> nat \<Rightarrow> nat \<Rightarrow> nat option list \<Rightarrow> bool" where
  "covered ns k m n ix \<longleftrightarrow> (\<forall>q. m \<le> q \<longrightarrow> q < n \<longrightarrow> ln_check (ns ! q) = k \<and> Some q \<in> set ix
     \<or> m \<le> ln_check (ns ! q) \<and> ln_check (ns ! q) < q \<and> Some q \<in> set (ln_tbl (ns ! ln_check (ns ! q))))"

lemma row_laid_Cons:
  "row_laid ns k m (x # ts) (y # ix) \<longleftrightarrow> row_laid ns k m ts ix \<and> (case x of None \<Rightarrow> y = None
     | Some c \<Rightarrow> \<exists>q. y = Some q \<and> m \<le> q \<and> ln_check (ns ! q) = k \<and> laid ns q c)"
  unfolding row_laid_def by (auto simp: All_less_Suc2 cong: option.case_cong)

lemma row_laid_mono: "row_laid ns k m ts ix \<Longrightarrow> m' \<le> m \<Longrightarrow> row_laid ns k m' ts ix"
  unfolding row_laid_def by (fastforce split: option.splits)

lemma walk_row_laid:
  "walk_row k m ts = (ix, part) \<Longrightarrow> ns = pre @ part @ post \<Longrightarrow> length pre = m
   \<Longrightarrow> row_laid ns k m ts ix \<and> covered ns k m (m + length part) ix"
proof (induction k m ts arbitrary: ix part pre post rule: walk_row.induct)
  case (1 k m)
  then show ?case by (simp add: row_laid_def covered_def)
next
  case (2 k m ts)
  obtain ix' where w: "walk_row k m ts = (ix', part)" "ix = None # ix'"
    using "2.prems"(1) by (auto split: prod.splits)
  show ?case using "2.IH" [OF w(1) "2.prems"(2,3)] w(2) by (auto simp: row_laid_Cons covered_def)
next
  case (3 k m e l msk t us ts)
  obtain ux below where u: "walk_row m (m + 1) (take l us) = (ux, below)"
    by (cases "walk_row m (m + 1) (take l us)")
  let ?m = "m + 1 + length below" and ?n = "\<lparr>ln_elem = e, ln_limit = l, ln_mask = msk, ln_terminal = t, ln_tbl = ux, ln_check = k\<rparr>"
  obtain ix' rest where r: "walk_row k ?m ts = (ix', rest)" by (cases "walk_row k ?m ts")
  have p: "ix = Some m # ix'" "part = ?n # below @ rest" using "3.prems"(1) u r by simp_all
  have m: "ns ! m = ?n" using "3.prems"(2,3) p(2) by (simp add: nth_append)
  have 1: "row_laid ns m (m + 1) (take l us) ux \<and> covered ns m (m + 1) ?m ux"
    using "3.IH"(1) [OF u, of "pre @ [?n]" "rest @ post"] "3.prems"(2,3) p(2) by simp
  have 2: "row_laid ns k ?m ts ix' \<and> covered ns k ?m (?m + length rest) ix'"
    using "3.IH"(2) [OF u [symmetric] r, of "pre @ ?n # below" post] "3.prems"(2,3) p(2) by simp
  have "laid ns m (Node e l msk t us)"
  proof (rule laidI, goal_cases)
    case 7
    show ?case
    proof (intro allI impI)
    fix j assume "j < length (take l us)"
    then have "case us ! j of None \<Rightarrow> ux ! j = None
        | Some c \<Rightarrow> \<exists>q. ux ! j = Some q \<and> m + 1 \<le> q \<and> ln_check (ns ! q) = m \<and> laid ns q c"
      using conjunct1 [OF 1] unfolding row_laid_def by simp
    then show "case us ! j of None \<Rightarrow> ln_tbl (ns ! m) ! j = None
        | Some c \<Rightarrow> \<exists>q. ln_tbl (ns ! m) ! j = Some q \<and> m < q \<and> ln_check (ns ! q) = m \<and> laid ns q c"
      using m by (cases "us ! j") auto
    qed
  qed (use 1 m "3.prems"(2,3) p(2) in \<open>simp_all add: row_laid_def\<close>)
  then have "row_laid ns k m (Some (Node e l msk t us) # ts) ix"
    using 2 m row_laid_mono [of ns k ?m ts ix' m] p(1) by (simp add: row_laid_Cons)
  moreover have "covered ns k m (m + length part) ix"
    unfolding covered_def
  proof (intro allI impI)
    fix q assume q: "m \<le> q" "q < m + length part"
    consider "q = m" | "m + 1 \<le> q" "q < ?m" | "?m \<le> q" "q < ?m + length rest" using q p(2) by fastforce
    then show "ln_check (ns ! q) = k \<and> Some q \<in> set ix
       \<or> m \<le> ln_check (ns ! q) \<and> ln_check (ns ! q) < q \<and> Some q \<in> set (ln_tbl (ns ! ln_check (ns ! q)))"
      by cases (use 1 2 m p(1) in \<open>force simp: covered_def\<close>)+
  qed
  ultimately show ?case ..
qed

text \<open>The characters on the way to a node.\<close>

function path :: "lnode list \<Rightarrow> nat \<Rightarrow> string" where
  "path ns i = (if i < length ns \<and> ln_check (ns ! i) < i then path ns (ln_check (ns ! i)) @ ln_elem (ns ! ln_check (ns ! i)) else [])"
  by pat_completeness auto
termination by (relation "measure snd") auto

declare path.simps [simp del]

definition row_at :: "lnode list \<Rightarrow> nat \<Rightarrow> nat \<Rightarrow> nat \<Rightarrow> bool" where
  "row_at ns i j q \<longleftrightarrow> j < length (ln_tbl (ns ! i)) \<and> ln_tbl (ns ! i) ! j = Some q"

text \<open>What the placement needs of the list: the rows are those of the masks, every node but the first is
  in the row of the node whose number it has as \<open>check\<close>, behind the index of its first character.\<close>

definition list_ok :: "char set \<Rightarrow> lnode list \<Rightarrow> bool" where
  "list_ok A ns \<longleftrightarrow> 0 < length ns \<and> length ns < 64 \<and> ln_elem (ns ! 0) = [] \<and> ln_limit (ns ! 0) \<noteq> 0
     \<and> (\<forall>i < length ns. set (ln_elem (ns ! i)) \<subseteq> A \<and> length (ln_tbl (ns ! i)) \<le> 28
         \<and> (ln_limit (ns ! i) = 0 \<longrightarrow> ln_tbl (ns ! i) = [])
         \<and> (\<forall>j. bit (ln_mask (ns ! i)) j \<longleftrightarrow> (\<exists>q. row_at ns i j q)))
     \<and> (\<forall>i j q. i < length ns \<longrightarrow> row_at ns i j q \<longrightarrow> i < q \<and> q < length ns \<and> ln_check (ns ! q) = i
         \<and> ln_elem (ns ! q) \<noteq> [] \<and> ctoi (hd (ln_elem (ns ! q))) = j)
     \<and> (\<forall>q. 0 < q \<longrightarrow> q < length ns \<longrightarrow> ln_check (ns ! q) < q \<and> (\<exists>j. row_at ns (ln_check (ns ! q)) j q))"

lemma list_ok_node:
  assumes "list_ok A ns" "i < length ns"
  shows "set (ln_elem (ns ! i)) \<subseteq> A" "length (ln_tbl (ns ! i)) \<le> 28" "ln_limit (ns ! i) = 0 \<Longrightarrow> ln_tbl (ns ! i) = []"
    "bit (ln_mask (ns ! i)) j \<longleftrightarrow> (\<exists>q. row_at ns i j q)"
proof -
  have "\<forall>i < length ns. set (ln_elem (ns ! i)) \<subseteq> A \<and> length (ln_tbl (ns ! i)) \<le> 28
         \<and> (ln_limit (ns ! i) = 0 \<longrightarrow> ln_tbl (ns ! i) = [])
         \<and> (\<forall>j. bit (ln_mask (ns ! i)) j \<longleftrightarrow> (\<exists>q. row_at ns i j q))"
    using assms(1) unfolding list_ok_def by (elim conjE)
  with assms(2) show "set (ln_elem (ns ! i)) \<subseteq> A" "length (ln_tbl (ns ! i)) \<le> 28"
    "ln_limit (ns ! i) = 0 \<Longrightarrow> ln_tbl (ns ! i) = []" "bit (ln_mask (ns ! i)) j \<longleftrightarrow> (\<exists>q. row_at ns i j q)"
    by blast+
qed

lemma list_ok_row:
  "list_ok A ns \<Longrightarrow> i < length ns \<Longrightarrow> row_at ns i j q \<Longrightarrow> i < q \<and> q < length ns \<and> ln_check (ns ! q) = i
     \<and> ln_elem (ns ! q) \<noteq> [] \<and> ctoi (hd (ln_elem (ns ! q))) = j \<and> j < 28"
proof -
  assume a: "list_ok A ns" "i < length ns" "row_at ns i j q"
  have "\<forall>i j q. i < length ns \<longrightarrow> row_at ns i j q \<longrightarrow> i < q \<and> q < length ns \<and> ln_check (ns ! q) = i
         \<and> ln_elem (ns ! q) \<noteq> [] \<and> ctoi (hd (ln_elem (ns ! q))) = j"
    using a(1) unfolding list_ok_def by (elim conjE)
  with a(2,3) have 1: "i < q \<and> q < length ns \<and> ln_check (ns ! q) = i
         \<and> ln_elem (ns ! q) \<noteq> [] \<and> ctoi (hd (ln_elem (ns ! q))) = j" by blast
  then have "j < 28" using ctoi_less by blast
  with 1 show ?thesis by blast
qed

lemma list_ok_parent:
  "list_ok A ns \<Longrightarrow> 0 < q \<Longrightarrow> q < length ns \<Longrightarrow> ln_check (ns ! q) < q \<and> (\<exists>j. row_at ns (ln_check (ns ! q)) j q)"
  unfolding list_ok_def by blast

lemma list_ok_root: "list_ok A ns \<Longrightarrow> 0 < length ns \<and> length ns < 64 \<and> ln_elem (ns ! 0) = [] \<and> ln_limit (ns ! 0) \<noteq> 0"
  unfolding list_ok_def by blast

lemma laid_sel:
  assumes "laid ns i c"
  shows "i < length ns" "ln_elem (ns ! i) = n_elem c" "ln_limit (ns ! i) = n_limit c" "ln_mask (ns ! i) = n_mask c"
    "ln_terminal (ns ! i) = n_terminal c" "length (ln_tbl (ns ! i)) = length (take (n_limit c) (n_tbl c))"
  using assms by (cases c; simp add: laid_Node)+

lemma laid_row:
  assumes "laid ns i c" "wf_node A c"
  shows "row_at ns i j q \<Longrightarrow> i < q \<and> ln_check (ns ! q) = i \<and> (\<exists>d. j < 28 \<and> n_tbl c ! j = Some d \<and> laid ns q d)"
    and "j < 28 \<Longrightarrow> n_tbl c ! j = Some d \<Longrightarrow> \<exists>q. row_at ns i j q \<and> laid ns q d"
proof -
  obtain e l m t us where c: "c = Node e l m t us" by (cases c)
  note l = wf_nodeE [OF assms(2), unfolded c node.sel]
  have row: "case us ! j of None \<Rightarrow> ln_tbl (ns ! i) ! j = None
        | Some d \<Rightarrow> \<exists>q. ln_tbl (ns ! i) ! j = Some q \<and> i < q \<and> ln_check (ns ! q) = i \<and> laid ns q d"
    if "j < l" "j < 28" for j
    using assms(1) that l(2) unfolding c laid_Node by simp
  have len: "length (ln_tbl (ns ! i)) = min 28 l" using laid_sel(6) [OF assms(1)] c l(2) by simp
  show "row_at ns i j q \<Longrightarrow> i < q \<and> ln_check (ns ! q) = i \<and> (\<exists>d. j < 28 \<and> n_tbl c ! j = Some d \<and> laid ns q d)"
    using row [of j] len c by (auto simp: row_at_def split: option.split_asm)
  show "j < 28 \<Longrightarrow> n_tbl c ! j = Some d \<Longrightarrow> \<exists>q. row_at ns i j q \<and> laid ns q d"
    using row [of j] len c l(5) [of j d] by (auto simp: row_at_def)
qed

text \<open>Every place of the list is a node of the trie, and the path leads there.\<close>

definition stands :: "char set \<Rightarrow> node \<Rightarrow> lnode list \<Rightarrow> nat \<Rightarrow> node \<Rightarrow> bool" where
  "stands A root ns i c \<longleftrightarrow> laid ns i c \<and> wf_node A c
     \<and> (\<forall>w. prefix (n_elem c) w \<longrightarrow> find_word root (path ns i @ w) = find_word c w)"

lemma stands_child:
  assumes "stands A root ns i c" "row_at ns i j q"
  obtains d where "stands A root ns q d" "n_elem d \<noteq> []" "ctoi (hd (n_elem d)) = j" "i < q" "ln_check (ns ! q) = i"
    "path ns q = path ns i @ n_elem c" "live d"
proof -
  have c: "laid ns i c" "wf_node A c" using assms(1) by (simp_all add: stands_def)
  obtain d where d: "i < q" "ln_check (ns ! q) = i" "j < 28" "n_tbl c ! j = Some d" "laid ns q d"
    using laid_row(1) [OF c assms(2)] by blast
  note w = wf_nodeE(5) [OF c(2) d(3,4)]
  have p: "path ns q = path ns i @ n_elem c"
    using d laid_sel(1) [OF d(5)] laid_sel(2) [OF c(1)] by (subst path.simps) simp
  have "find_word root (path ns q @ v) = find_word d v" if pv: "prefix (n_elem d) v" for v
  proof -
    obtain x xs where v: "v = x # xs" "ctoi x = j" using pv w by (cases v; cases "n_elem d") auto
    have "find_word c (n_elem c @ v) = find_word d v"
      using find_child [of "n_tbl c" x d "n_elem c" "n_limit c" "n_mask c" "n_terminal c" xs] v d(3,4) wf_nodeE(2) [OF c(2)] by simp
    then show ?thesis using assms(1) p by (simp add: stands_def)
  qed
  then have "stands A root ns q d" using d(5) w by (simp add: stands_def)
  then show thesis using that d w p by simp
qed

lemma all_stand:
  assumes "wf_node A root" "laid ns 0 root" "covered ns 0 0 (length ns) [Some 0]"
  shows "i < length ns \<Longrightarrow> \<exists>c. stands A root ns i c"
proof (induction i rule: less_induct)
  case (less i)
  show ?case
  proof (cases "i = 0")
    case True
    have "path ns 0 = []" by (simp add: path.simps)
    then show ?thesis using True assms(1,2) by (auto simp: stands_def)
  next
    case False
    then have k: "ln_check (ns ! i) < i" "Some i \<in> set (ln_tbl (ns ! ln_check (ns ! i)))"
      using assms(3) less.prems by (auto simp: covered_def)
    then obtain j where "row_at ns (ln_check (ns ! i)) j i" by (auto simp: row_at_def in_set_conv_nth)
    then show ?thesis using less.IH [OF k(1)] less.prems k(1) by (auto elim: stands_child)
  qed
qed

lemma walk_laid:
  assumes "walk root = Some ns"
  shows "laid ns 0 root" "covered ns 0 0 (length ns) [Some 0]" "0 < length ns" "length ns < 64"
proof -
  obtain e l m t us where c: "root = Node e l m t us" by (cases root)
  obtain ux below where w: "walk_row 0 0 [Some root] = ([Some 0], \<lparr>ln_elem = e, ln_limit = l, ln_mask = m, ln_terminal = t,
      ln_tbl = ux, ln_check = 0\<rparr> # below)"
    using c by (cases "walk_row 0 1 (take l us)") simp
  have ns: "ns = \<lparr>ln_elem = e, ln_limit = l, ln_mask = m, ln_terminal = t, ln_tbl = ux, ln_check = 0\<rparr> # below"
      "length ns < 64"
    using assms w by (auto simp: walk_def Let_def MAXSZ_def split: if_split_asm)
  have "row_laid ns 0 0 [Some root] [Some 0] \<and> covered ns 0 0 (0 + length ns) [Some 0]"
    by (rule walk_row_laid [OF w, of ns "[]" "[]", unfolded ns(1) [symmetric]]) (simp_all add: ns(1))
  then show "laid ns 0 root" "covered ns 0 0 (length ns) [Some 0]" by (simp_all add: row_laid_def)
  show "0 < length ns" "length ns < 64" using ns by (metis list.distinct(1) length_greater_0_conv) (rule ns(2))
qed

lemma stands_ok:
  assumes "stands A root ns i c"
  shows "set (ln_elem (ns ! i)) \<subseteq> A" "length (ln_tbl (ns ! i)) \<le> 28" "ln_limit (ns ! i) = 0 \<Longrightarrow> ln_tbl (ns ! i) = []"
    "bit (ln_mask (ns ! i)) j \<longleftrightarrow> (\<exists>q. row_at ns i j q)"
proof -
  have c: "laid ns i c" "wf_node A c" using assms by (simp_all add: stands_def)
  note l = laid_sel [OF c(1)] and w = wf_nodeE [OF c(2)]
  show "set (ln_elem (ns ! i)) \<subseteq> A" "length (ln_tbl (ns ! i)) \<le> 28" using l w by simp_all
  show "ln_limit (ns ! i) = 0 \<Longrightarrow> ln_tbl (ns ! i) = []" using l(3,6) by simp
  show "bit (ln_mask (ns ! i)) j \<longleftrightarrow> (\<exists>q. row_at ns i j q)"
    using w(4) [of j] l(4) laid_row(1) [OF c, of j] laid_row(2) [OF c, of j] by force
qed

lemma walk_list_ok:
  assumes "wf_node A root" "n_elem root = []" "n_limit root \<noteq> 0" "walk root = Some ns"
  shows "list_ok A ns"
proof -
  note w = walk_laid [OF assms(4)]
  note st = all_stand [OF assms(1) w(1,2)]
  have 1: "set (ln_elem (ns ! i)) \<subseteq> A \<and> length (ln_tbl (ns ! i)) \<le> 28
         \<and> (ln_limit (ns ! i) = 0 \<longrightarrow> ln_tbl (ns ! i) = [])
         \<and> (\<forall>j. bit (ln_mask (ns ! i)) j \<longleftrightarrow> (\<exists>q. row_at ns i j q))" if "i < length ns" for i
  proof -
    from st [OF that] obtain c where "stands A root ns i c" ..
    then show ?thesis using stands_ok [of A root ns i c] by blast
  qed
  have 2: "i < q \<and> q < length ns \<and> ln_check (ns ! q) = i \<and> ln_elem (ns ! q) \<noteq> [] \<and> ctoi (hd (ln_elem (ns ! q))) = j"
    if a: "i < length ns" "row_at ns i j q" for i j q
  proof -
    from st [OF a(1)] obtain c where c: "stands A root ns i c" ..
    obtain d where d: "stands A root ns q d" "n_elem d \<noteq> []" "ctoi (hd (n_elem d)) = j" "i < q" "ln_check (ns ! q) = i"
      by (rule stands_child [OF c a(2)])
    then show ?thesis using laid_sel(1,2) [of ns q d] by (simp add: stands_def)
  qed
  have 3: "ln_check (ns ! q) < q \<and> (\<exists>j. row_at ns (ln_check (ns ! q)) j q)" if "0 < q" "q < length ns" for q
    using w(2) that by (auto simp: covered_def row_at_def in_set_conv_nth)
  show ?thesis
    unfolding list_ok_def
  proof (intro conjI)
    show "\<forall>i j q. i < length ns \<longrightarrow> row_at ns i j q \<longrightarrow> i < q \<and> q < length ns \<and> ln_check (ns ! q) = i
         \<and> ln_elem (ns ! q) \<noteq> [] \<and> ctoi (hd (ln_elem (ns ! q))) = j" using 2 by blast
  qed (use w(3,4) laid_sel(2,3) [OF w(1)] assms(2,3) 1 3 in simp_all)
qed

lemma walk_words:
  assumes "wf_node A root" "walk root = Some ns"
  shows "find_word root w = Some t \<longleftrightarrow> (\<exists>i < length ns. ln_terminal (ns ! i) = Some t \<and> w = path ns i @ ln_elem (ns ! i))"
proof
  note wl = walk_laid [OF assms(2)]
  note st = all_stand [OF assms(1) wl(1,2)]
  have sound: "laid ns i c \<Longrightarrow> wf_node A c \<Longrightarrow> find_word c v = Some t
      \<Longrightarrow> \<exists>q < length ns. ln_terminal (ns ! q) = Some t \<and> path ns i @ v = path ns q @ ln_elem (ns ! q)" for i c v
  proof (induction c arbitrary: i v)
    case (Node e l m u us)
    let ?c = "Node e l m u us"
    note ls = laid_sel [OF Node.prems(1)]
    obtain r where r: "v = e @ r" using find_prefix [OF Node.prems(3)] by (auto simp: prefix_def)
    show ?case
    proof (cases r)
      case Nil
      then show ?thesis using Node.prems(3) r ls by (intro exI [of _ i]) (simp add: find_eq)
    next
      case (Cons x xs)
      then obtain d where d: "us ! ctoi x = Some d" "find_word d r = Some t"
        using Node.prems(3) r by (auto simp: find_eq split: option.split_asm if_split_asm)
      then obtain q where q: "row_at ns i (ctoi x) q" "laid ns q d"
        using laid_row(2) [OF Node.prems(1,2) ctoi_less] by auto
      then have p: "path ns q = path ns i @ e"
        using laid_row(1) [OF Node.prems(1,2) q(1)] laid_sel(1) [OF q(2)] ls(2) by (subst path.simps) simp
      have "Some d \<in> set us" using d(1) wf_nodeE(2) [OF Node.prems(2)] by (metis ctoi_less node.sel(5) nth_mem)
      moreover have "wf_node A d" using wf_nodeE(5) [OF Node.prems(2) ctoi_less] d(1) by simp
      ultimately have "\<exists>p < length ns. ln_terminal (ns ! p) = Some t \<and> path ns q @ r = path ns p @ ln_elem (ns ! p)"
        using Node.IH [of "Some d" d q r] q(2) d(2) by simp
      then show ?thesis using p r by simp
    qed
  qed
  show "find_word root w = Some t \<Longrightarrow> \<exists>i < length ns. ln_terminal (ns ! i) = Some t \<and> w = path ns i @ ln_elem (ns ! i)"
    using sound [OF wl(1) assms(1)] by (simp add: path.simps)
  assume "\<exists>i < length ns. ln_terminal (ns ! i) = Some t \<and> w = path ns i @ ln_elem (ns ! i)"
  then obtain i where i: "i < length ns" "ln_terminal (ns ! i) = Some t" "w = path ns i @ ln_elem (ns ! i)" by blast
  obtain c where c: "stands A root ns i c" using st [OF i(1)] by blast
  then have "laid ns i c" by (simp add: stands_def)
  note l = laid_sel [OF this]
  have "find_word c (n_elem c) = Some t" using l i(2) by (cases c) (simp add: find_eq)
  then show "find_word root w = Some t" using c i(3) l by (simp add: stands_def)
qed


section \<open>The rows do not collide\<close>

text \<open>The rows of the nodes of \<open>vis\<close> are in the table at their offsets, and nothing else; the bits of the
  mask are the entries that are taken.\<close>

definition laid_out :: "lnode list \<Rightarrow> nat set \<Rightarrow> (nat \<Rightarrow> nat) \<Rightarrow> tblentry list \<Rightarrow> 64 word \<Rightarrow> bool" where
  "laid_out ns vis off tbl msk \<longleftrightarrow> length tbl = 64 \<and> (\<forall>q < 64. bit msk q \<longleftrightarrow> tbl ! q \<noteq> None)
     \<and> (\<forall>i \<in> vis. i < length ns \<and> off i + 28 \<le> 64)
     \<and> (\<forall>i \<in> vis. \<forall>j c. row_at ns i j c \<longrightarrow> tbl ! (j + off i) = Some (c, off i))
     \<and> (\<forall>q < 64. \<forall>c p. tbl ! q = Some (c, p) \<longrightarrow> (\<exists>i \<in> vis. \<exists>j. row_at ns i j c \<and> p = off i \<and> q = j + off i))"

text \<open>Every node with children has its row, within the size.\<close>

definition complete :: "lnode list \<Rightarrow> tblentry list \<Rightarrow> nat \<Rightarrow> bool" where
  "complete ns tbl sz \<longleftrightarrow> (\<exists>vis off msk. laid_out ns vis off tbl msk
     \<and> (\<forall>i < length ns. ln_limit (ns ! i) \<noteq> 0 \<longrightarrow> i \<in> vis) \<and> (\<forall>i \<in> vis. off i + 28 \<le> sz))"

lemma place_row_nth:
  assumes "length tbl = 64" "length (ln_tbl n) \<le> 28" "p + 28 \<le> 64"
  shows "length (place_row n p tbl) = 64"
    "q < 64 \<Longrightarrow> place_row n p tbl ! q
       = (if p \<le> q \<and> q - p < length (ln_tbl n) \<and> ln_tbl n ! (q - p) \<noteq> None
          then Some (the (ln_tbl n ! (q - p)), p) else tbl ! q)"
proof -
  let ?f = "\<lambda>j t. case ln_tbl n ! j of None \<Rightarrow> t | Some c \<Rightarrow> t[j + p := Some (c, p)]"
  have "length (fold ?f [0..<k] tbl) = 64 \<and> (\<forall>q < 64. fold ?f [0..<k] tbl ! q
       = (if p \<le> q \<and> q - p < k \<and> ln_tbl n ! (q - p) \<noteq> None then Some (the (ln_tbl n ! (q - p)), p) else tbl ! q))"
    if "k \<le> length (ln_tbl n)" for k
    using that
  proof (induction k)
    case (Suc k)
    show ?case
    proof (cases "ln_tbl n ! k")
      case None
      then have "q - p < Suc k \<and> ln_tbl n ! (q - p) \<noteq> None \<longleftrightarrow> q - p < k \<and> ln_tbl n ! (q - p) \<noteq> None" for q
        by (metis less_Suc_eq)
      then show ?thesis using Suc None by simp
    next
      case (Some c)
      have "k + p < 64" using Suc.prems assms by simp
      then show ?thesis using Suc Some by (auto simp: nth_list_update less_Suc_eq)
    qed
  qed (use assms(1) in simp)
  from this [of "length (ln_tbl n)"]
  show "length (place_row n p tbl) = 64"
    "q < 64 \<Longrightarrow> place_row n p tbl ! q
       = (if p \<le> q \<and> q - p < length (ln_tbl n) \<and> ln_tbl n ! (q - p) \<noteq> None
          then Some (the (ln_tbl n ! (q - p)), p) else tbl ! q)"
    by (simp_all add: place_row_def)
qed

lemma first_offset_Some:
  "first_offset msk nmask limit off st = (Some p, st') \<Longrightarrow> p + 28 < limit \<and> msk AND push_bit p nmask = 0"
  by (induction msk nmask limit off st rule: first_offset.induct)
    (subst (asm) (2) first_offset.simps, auto simp: TBLSZ_def split: if_split_asm)

lemma laid_out_place:
  assumes "list_ok A ns" "laid_out ns vis off tbl msk" "i < length ns" "i \<notin> vis" "p + 28 \<le> 64"
    "msk AND push_bit p (ln_mask (ns ! i)) = 0"
  shows "laid_out ns (insert i vis) (off(i := p)) (place_row (ns ! i) p tbl) (msk OR push_bit p (ln_mask (ns ! i)))"
proof -
  let ?n = "ns ! i" and ?t = "place_row (ns ! i) p tbl"
  note o = assms(2) [unfolded laid_out_def]
  note len = list_ok_node(2) [OF assms(1,3)] and row = list_ok_node(4) [OF assms(1,3)]
  have lt: "length tbl = 64" using o by simp
  note t = place_row_nth [OF lt len assms(5)]
  have new: "(\<exists>c. row_at ns i (q - p) c) \<and> p \<le> q \<longleftrightarrow> p \<le> q \<and> q - p < length (ln_tbl ?n) \<and> ln_tbl ?n ! (q - p) \<noteq> None" for q
    by (auto simp: row_at_def)
  have free: "tbl ! q = None" if "q < 64" "p \<le> q" "row_at ns i (q - p) c" for q c
  proof (rule ccontr)
    assume "tbl ! q \<noteq> None"
    then have "bit msk q" using o that(1) by blast
    moreover have "bit (ln_mask ?n) (q - p)" using row that(3) by blast
    ultimately have "bit (msk AND push_bit p (ln_mask ?n)) q"
      using that(1,2) by (simp add: bit_and_iff bit_push_bit_iff)
    then show False using assms(6) by simp
  qed
  show ?thesis
    unfolding laid_out_def
  proof (intro conjI allI ballI impI)
    show "length ?t = 64" by (rule t(1))
    show "bit (msk OR push_bit p (ln_mask ?n)) q \<longleftrightarrow> ?t ! q \<noteq> None" if "q < 64" for q
    proof -
      have "bit (msk OR push_bit p (ln_mask ?n)) q \<longleftrightarrow> tbl ! q \<noteq> None \<or> (\<exists>c. row_at ns i (q - p) c) \<and> p \<le> q"
        using o that row [of "q - p"] by (auto simp: bit_or_iff bit_push_bit_iff)
      also have "\<dots> \<longleftrightarrow> ?t ! q \<noteq> None" unfolding new t(2) [OF that] by auto
      finally show ?thesis .
    qed
    show "k < length ns" "(off(i := p)) k + 28 \<le> 64" if "k \<in> insert i vis" for k
      using that o assms(3,5) by auto
    show "?t ! (j + (off(i := p)) k) = Some (c, (off(i := p)) k)" if k: "k \<in> insert i vis" and r: "row_at ns k j c" for k j c
    proof (cases "k = i")
      case True
      then have "j + p < 64" using r len assms(5) by (auto simp: row_at_def)
      then show ?thesis using t(2) [of "j + p"] True r by (auto simp: row_at_def)
    next
      case False
      then have k: "k \<in> vis" "off k + 28 \<le> 64" using k o by auto
      then have "j < 28" using list_ok_row [OF assms(1) _ r] o by blast
      then have 1: "tbl ! (j + off k) = Some (c, off k)" "j + off k < 64" using o k r by auto
      then have "\<not> (p \<le> j + off k \<and> (\<exists>c. row_at ns i (j + off k - p) c))" using free [of "j + off k"] by auto
      then show ?thesis using t(2) [OF 1(2)] new [of "j + off k"] 1(1) False by auto
    qed
    show "\<exists>k \<in> insert i vis. \<exists>j. row_at ns k j c \<and> x = (off(i := p)) k \<and> q = j + (off(i := p)) k"
      if q: "q < 64" and e: "?t ! q = Some (c, x)" for q c x
    proof (cases "p \<le> q \<and> q - p < length (ln_tbl ?n) \<and> ln_tbl ?n ! (q - p) \<noteq> None")
      case True
      then have "row_at ns i (q - p) c" "x = p" using t(2) [OF q] e by (auto simp: row_at_def)
      then show ?thesis using True by (intro bexI [of _ i] exI [of _ "q - p"]) auto
    next
      case False
      then have "tbl ! q = Some (c, x)" using t(2) [OF q] e by auto
      then obtain k j where "k \<in> vis" "row_at ns k j c" "x = off k" "q = j + off k" using o q by blast
      then show ?thesis using assms(4) by (intro bexI [of _ k] exI [of _ j]) auto
    qed
  qed
qed

lemma complete_mono: "complete ns tbl sz \<Longrightarrow> sz \<le> sz' \<Longrightarrow> complete ns tbl sz'"
  unfolding complete_def by (meson le_trans)

text \<open>What the search has found up to node \<open>i\<close>: \<open>hi\<close> is the limit it began with.\<close>

definition found :: "lnode list \<Rightarrow> nat set \<Rightarrow> nat \<Rightarrow> nat \<Rightarrow> nat \<Rightarrow> tblentry list option \<Rightarrow> bool \<Rightarrow> bool" where
  "found ns vis hi i limit mintbl emp \<longleftrightarrow> limit \<le> hi \<and> hi \<le> 64
     \<and> (case mintbl of None \<Rightarrow> limit = hi | Some t \<Rightarrow> complete ns t limit)
     \<and> (emp \<longrightarrow> (\<forall>k < i. k < length ns \<longrightarrow> ln_limit (ns ! k) \<noteq> 0 \<longrightarrow> k \<in> vis))"

lemma found_step:
  "found ns vis hi i limit mintbl emp \<Longrightarrow> i \<in> vis \<or> ln_limit (ns ! i) = 0 \<Longrightarrow> found ns vis hi (i + 1) limit mintbl emp"
  "found ns vis hi i limit mintbl emp \<Longrightarrow> found ns vis hi (i + 1) limit mintbl False"
  "found ns vis hi i limit mintbl emp \<Longrightarrow> complete ns t sz \<Longrightarrow> sz < limit \<Longrightarrow> found ns vis hi (i + 1) sz (Some t) False"
  by (auto simp: found_def less_Suc_eq)

lemma fit_from_complete:
  assumes "list_ok A ns"
  shows "fit_from ns vis tbl msk lo i limit mintbl emp st = (sz, tbl', st')
    \<Longrightarrow> laid_out ns vis off tbl msk \<Longrightarrow> \<forall>k \<in> vis. off k + 28 \<le> lo \<Longrightarrow> found ns vis hi i limit mintbl emp
    \<Longrightarrow> sz < hi \<Longrightarrow> complete ns tbl' sz"
  using assms
proof (induction ns vis tbl msk lo i limit mintbl emp st arbitrary: sz tbl' st' off hi rule: fit_from.induct)
  case (1 ns vis tbl msk lo i limit mintbl emp st)
  note step = "1.prems"(1) [unfolded fit_from.simps [of ns vis tbl msk lo i limit mintbl emp st]]
  consider (finished) "\<not> i < length ns" | (skip) "i < length ns" "i \<in> vis \<or> ln_limit (ns ! i) = 0"
    | (try_it) "i < length ns" "\<not> (i \<in> vis \<or> ln_limit (ns ! i) = 0)"
    by (cases "i < length ns"; cases "i \<in> vis \<or> ln_limit (ns ! i) = 0"; (rule that; assumption))
  then show ?case
  proof cases
    case finished
    have f: "found ns vis hi i limit mintbl emp" by (rule "1.prems"(4))
    show ?thesis
    proof (cases emp)
      case True
      then have "sz = lo" "tbl' = tbl" using step finished by auto
      moreover have "\<forall>k < length ns. ln_limit (ns ! k) \<noteq> 0 \<longrightarrow> k \<in> vis" using f True finished by (auto simp: found_def)
      ultimately show ?thesis using "1.prems"(2,3) unfolding complete_def by blast
    next
      case False
      then show ?thesis using step finished f "1.prems"(5) by (auto simp: found_def split: option.split_asm)
    qed
  next
    case skip
    then have "fit_from ns vis tbl msk lo (i + 1) limit mintbl emp st = (sz, tbl', st')" using step by simp
    from "1.IH"(1) [OF skip this "1.prems"(2,3) found_step(1) [OF "1.prems"(4) skip(2)] "1.prems"(5,6)] show ?thesis .
  next
    case try_it
    obtain r st1 where fo: "first_offset msk (ln_mask (ns ! i)) limit 0 st = (r, st1)"
      by (cases "first_offset msk (ln_mask (ns ! i)) limit 0 st")
    show ?thesis
    proof (cases r)
      case None
      then have "fit_from ns vis tbl msk lo (i + 1) limit mintbl False st1 = (sz, tbl', st')"
        using step try_it fo by simp
      from "1.IH"(2) [OF try_it fo [symmetric] None this "1.prems"(2,3) found_step(2) [OF "1.prems"(4)] "1.prems"(5,6)]
      show ?thesis .
    next
      case (Some p)
      let ?tbl = "place_row (ns ! i) p tbl" and ?msk = "msk OR push_bit p (ln_mask (ns ! i))"
      obtain sz1 tbl1 st2 where in1: "fit_from ns (insert i vis) ?tbl ?msk (max (TBLSZ + p) lo) 0 limit None True st1
          = (sz1, tbl1, st2)"
        by (cases "fit_from ns (insert i vis) ?tbl ?msk (max (TBLSZ + p) lo) 0 limit None True st1") auto
      have p: "p + 28 < limit" "msk AND push_bit p (ln_mask (ns ! i)) = 0"
        using first_offset_Some [of msk _ limit 0 st p st1] fo Some by auto
      have f: "found ns vis hi i limit mintbl emp" by (rule "1.prems"(4))
      have i: "i \<notin> vis" using try_it by blast
      have "laid_out ns (insert i vis) (off(i := p)) ?tbl ?msk"
        by (rule laid_out_place [OF "1.prems"(6,2) try_it(1) i _ p(2)]) (use f p(1) in \<open>simp add: found_def\<close>)
      moreover have "\<forall>k \<in> insert i vis. (off(i := p)) k + 28 \<le> max (TBLSZ + p) lo"
        using "1.prems"(3) by (auto simp: TBLSZ_def)
      moreover have "found ns (insert i vis) limit 0 limit None True" using f by (simp add: found_def)
      ultimately have inner: "sz1 < limit \<Longrightarrow> complete ns tbl1 sz1"
        using "1.IH"(3) [OF try_it fo [symmetric] Some in1] "1.prems"(6) by blast
      show ?thesis
      proof (cases "sz1 < limit")
        case True
        then have "fit_from ns vis tbl msk lo (i + 1) sz1 (Some tbl1) False st2 = (sz, tbl', st')"
          using step try_it fo Some in1 by simp
        then show ?thesis
          using "1.IH"(4) [OF try_it fo [symmetric] Some in1 [symmetric] refl True _ "1.prems"(2,3) found_step(3) [OF f inner [OF True] True]
              "1.prems"(5,6)] by blast
      next
        case False
        then have "fit_from ns vis tbl msk lo (i + 1) limit mintbl False st2 = (sz, tbl', st')"
          using step try_it fo Some in1 by simp
        then show ?thesis
          using "1.IH"(5) [OF try_it fo [symmetric] Some in1 [symmetric] refl False _ "1.prems"(2,3) found_step(2) [OF f] "1.prems"(5,6)]
          by blast
      qed
    qed
  qed
qed

lemma fit_complete:
  assumes "list_ok A ns" "fit ns {} (replicate MAXSZ None) 0 0 MAXSZ st = (limit, tbl, st')" "limit < 64"
  shows "complete ns tbl limit"
proof (rule fit_from_complete [OF assms(1) assms(2) [unfolded fit_def]])
  show "laid_out ns {} (\<lambda>i. 0) (replicate MAXSZ None) 0" by (simp add: laid_out_def MAXSZ_def)
qed (use assms(3) in \<open>simp_all add: found_def MAXSZ_def\<close>)

end
