(* ===== verification/Patricia_Table.thy ===== *)
theory Patricia_Table
  imports Patricia_Place
begin

text \<open>
  The table that the tool prints (\<open>src/tools/patricia-build.c\<close>) is read by \<open>walk_trie\<close> of
  \<open>src/libhttp/http.c\<close> as the dictionary of the words that were the tool's input.
\<close>

section \<open>The entries\<close>

text \<open>A placement with the facts that the printing needs: \<open>off\<close> gives the offset of every row.\<close>

definition placed :: "char set \<Rightarrow> lnode list \<Rightarrow> tblentry list \<Rightarrow> (nat \<Rightarrow> nat) \<Rightarrow> bool" where
  "placed A ns tbl off \<longleftrightarrow> list_ok A ns \<and> length tbl = 64
     \<and> (\<forall>i < length ns. \<forall>j c. row_at ns i j c \<longrightarrow> off i + 28 \<le> 64 \<and> tbl ! (j + off i) = Some (c, off i))
     \<and> (\<forall>q < 64. \<forall>c p. tbl ! q = Some (c, p) \<longrightarrow> 0 < c \<and> c < length ns \<and> p = off (ln_check (ns ! c))
         \<and> q = ctoi (hd (ln_elem (ns ! c))) + p)"

lemma complete_placed:
  assumes "list_ok A ns" "complete ns tbl sz"
  obtains off where "placed A ns tbl off"
proof -
  obtain vis off msk where c: "laid_out ns vis off tbl msk" "\<forall>i < length ns. ln_limit (ns ! i) \<noteq> 0 \<longrightarrow> i \<in> vis"
    using assms(2) unfolding complete_def by blast
  note o = c(1) [unfolded laid_out_def]
  have row: "off i + 28 \<le> 64 \<and> tbl ! (j + off i) = Some (q, off i)" if "i < length ns" "row_at ns i j q" for i j q
  proof -
    have "ln_tbl (ns ! i) \<noteq> []" using that(2) by (auto simp: row_at_def)
    then have "i \<in> vis" using list_ok_node(3) [OF assms(1) that(1)] c(2) that(1) by blast
    then show ?thesis using o that(2) by blast
  qed
  have ent: "0 < d \<and> d < length ns \<and> p = off (ln_check (ns ! d)) \<and> q = ctoi (hd (ln_elem (ns ! d))) + p"
    if e: "q < 64" "tbl ! q = Some (d, p)" for q d p
  proof -
    obtain i j where i: "i \<in> vis" "row_at ns i j d" "p = off i" "q = j + off i" using o e by blast
    then have "i < length ns" using o by blast
    then show ?thesis using list_ok_row [OF assms(1) _ i(2)] i by auto
  qed
  have "placed A ns tbl off" unfolding placed_def using assms(1) o row ent by blast
  then show thesis by (rule that)
qed

lemma placed_row:
  assumes "placed A ns tbl off" "i < length ns" "row_at ns i j c"
  shows "off i + 28 \<le> 64" "tbl ! (j + off i) = Some (c, off i)" "j < 28"
proof -
  have "\<forall>i < length ns. \<forall>j c. row_at ns i j c \<longrightarrow> off i + 28 \<le> 64 \<and> tbl ! (j + off i) = Some (c, off i)"
    using assms(1) unfolding placed_def by (elim conjE)
  then show "off i + 28 \<le> 64" "tbl ! (j + off i) = Some (c, off i)" using assms(2,3) by blast+
  show "j < 28" using list_ok_row [OF _ assms(2,3)] assms(1) unfolding placed_def by blast
qed

lemma placed_entry:
  assumes "placed A ns tbl off" "q < 64" "tbl ! q = Some (c, p)"
  shows "0 < c" "c < length ns" "p = off (ln_check (ns ! c))" "q = ctoi (hd (ln_elem (ns ! c))) + p"
proof -
  have "\<forall>q < 64. \<forall>c p. tbl ! q = Some (c, p) \<longrightarrow> 0 < c \<and> c < length ns \<and> p = off (ln_check (ns ! c))
         \<and> q = ctoi (hd (ln_elem (ns ! c))) + p"
    using assms(1) unfolding placed_def by (elim conjE)
  then have "0 < c \<and> c < length ns \<and> p = off (ln_check (ns ! c)) \<and> q = ctoi (hd (ln_elem (ns ! c))) + p"
    using assms(2,3) by blast
  then show "0 < c" "c < length ns" "p = off (ln_check (ns ! c))" "q = ctoi (hd (ln_elem (ns ! c))) + p" by blast+
qed

lemma placed_list: "placed A ns tbl off \<Longrightarrow> list_ok A ns" "placed A ns tbl off \<Longrightarrow> length tbl = 64"
  by (simp_all add: placed_def)

text \<open>Every node but the first has its entry.\<close>

lemma placed_node:
  assumes "placed A ns tbl off" "0 < c" "c < length ns"
  defines "i \<equiv> ln_check (ns ! c)" and "j \<equiv> ctoi (hd (ln_elem (ns ! c)))"
  shows "i < c" "row_at ns i j c" "off i + 28 \<le> 64" "tbl ! (j + off i) = Some (c, off i)" "ln_elem (ns ! c) \<noteq> []"
proof -
  note l = placed_list(1) [OF assms(1)]
  obtain j' where p: "i < c" "row_at ns i j' c" using list_ok_parent [OF l assms(2,3)] by (auto simp: i_def)
  then have i: "i < length ns" using assms(3) by simp
  have "j' = j" "ln_elem (ns ! c) \<noteq> []" using list_ok_row [OF l i p(2)] by (auto simp: j_def)
  then show "i < c" "row_at ns i j c" "off i + 28 \<le> 64" "tbl ! (j + off i) = Some (c, off i)" "ln_elem (ns ! c) \<noteq> []"
    using p placed_row [OF assms(1) i p(2)] by auto
qed

section \<open>The offsets\<close>

lemma fixate_Some: "Some (c, p) \<in> set tbl \<Longrightarrow> \<exists>p'. fixate tbl c = Some (c, p') \<and> Some (c, p') \<in> set tbl"
proof (induction tbl rule: rev_induct)
  case (snoc e tbl)
  have step: "fixate (tbl @ [e]) c = (case e of Some (n, off) \<Rightarrow> if n = c then Some (n, off) else fixate tbl c | None \<Rightarrow> fixate tbl c)"
    unfolding fixate_def by simp
  show ?case
  proof (cases "\<exists>p. e = Some (c, p)")
    case True
    then show ?thesis unfolding step by auto
  next
    case False
    then have "fixate (tbl @ [e]) c = fixate tbl c" unfolding step by (auto split: option.split)
    then show ?thesis using snoc False by auto
  qed
qed simp

lemma fixate_placed:
  assumes "placed A ns tbl off" "0 < c" "c < length ns"
  shows "fixate tbl c = Some (c, off (ln_check (ns ! c)))"
proof -
  note n = placed_node [OF assms] and l = placed_list(2) [OF assms(1)]
  have "ctoi (hd (ln_elem (ns ! c))) + off (ln_check (ns ! c)) < 64"
    using n(3) ctoi_less [of "hd (ln_elem (ns ! c))"] by linarith
  then have "Some (c, off (ln_check (ns ! c))) \<in> set tbl" using n(4) l by (metis nth_mem)
  then obtain p where p: "fixate tbl c = Some (c, p)" "Some (c, p) \<in> set tbl" using fixate_Some by blast
  then obtain q where "q < 64" "tbl ! q = Some (c, p)" using l by (metis in_set_conv_nth)
  then show ?thesis using placed_entry(3) [OF assms(1)] p(1) by simp
qed

text \<open>The offset that is printed: that of the row, if there is one.\<close>

definition row_offset :: "lnode list \<Rightarrow> (nat \<Rightarrow> nat) \<Rightarrow> nat \<Rightarrow> nat" where
  "row_offset ns off i = (if filter (\<lambda>c. c \<noteq> None) (ln_tbl (ns ! i)) = [] then 0 else off i)"

lemma row_offset_row: "row_at ns i j c \<Longrightarrow> row_offset ns off i = off i"
  by (auto simp: row_offset_def row_at_def filter_empty_conv) (metis nth_mem option.distinct(1))

lemma dumptbloffset_placed:
  assumes "placed A ns tbl off" "i < length ns"
  shows "dumptbloffset tbl (ns ! i) = Some (row_offset ns off i)"
proof (cases "filter (\<lambda>c. c \<noteq> None) (ln_tbl (ns ! i))")
  case Nil
  then show ?thesis by (simp add: dumptbloffset_def row_offset_def)
next
  case (Cons x xs)
  then have "x \<in> set (filter (\<lambda>c. c \<noteq> None) (ln_tbl (ns ! i)))" by simp
  then obtain c j where x: "x = Some c" "row_at ns i j c" by (auto simp: row_at_def in_set_conv_nth)
  have c: "i < c" "c < length ns" "ln_check (ns ! c) = i"
    using list_ok_row [OF placed_list(1) [OF assms(1)] assms(2) x(2)] by auto
  then have "fixate tbl c = Some (c, off i)" using fixate_placed [OF assms(1), of c] by auto
  then show ?thesis using Cons x by (simp add: dumptbloffset_def row_offset_def)
qed

section \<open>The printed lines\<close>

definition table_entry :: "(string \<Rightarrow> int) \<Rightarrow> lnode list \<Rightarrow> (nat \<Rightarrow> nat) \<Rightarrow> nat \<Rightarrow> patricia" where
  "table_entry val ns off c = pat (ln_elem (ns ! c)) (ln_check (ns ! c)) (if ln_limit (ns ! c) \<noteq> 0 then c else 99)
     (row_offset ns off c) (case ln_terminal (ns ! c) of None \<Rightarrow> 0 | Some t \<Rightarrow> val t)"

definition table_line :: "(string \<Rightarrow> int) \<Rightarrow> lnode list \<Rightarrow> (nat \<Rightarrow> nat) \<Rightarrow> tblentry list \<Rightarrow> nat \<Rightarrow> patricia" where
  "table_line val ns off tbl q = (if q < 64 then (case tbl ! q of None \<Rightarrow> no_pat | Some (c, p) \<Rightarrow> table_entry val ns off c)
     else no_pat)"

lemma dump_from_placed:
  assumes "placed A ns tbl off" "\<forall>c < length ns. line_ok (ln_elem (ns ! c))"
  shows "i \<le> sz \<Longrightarrow> \<exists>es. dump_from val ns tbl i sz = Some es \<and> sz \<le> i + length es
    \<and> (\<forall>q. i \<le> q \<longrightarrow> q < i + length es \<longrightarrow> es ! (q - i) = table_line val ns off tbl q)
    \<and> (\<forall>q c p. i \<le> q \<longrightarrow> q < i + length es \<longrightarrow> q < 64 \<longrightarrow> tbl ! q = Some (c, p) \<longrightarrow> row_offset ns off c + 28 \<le> i + length es)"
  using assms
proof (induction val ns tbl i sz rule: dump_from.induct)
  case (1 val ns tbl i sz)
  note pl = "1.prems"(2) and len = "1.prems"(3)
  note unf = dump_from.simps [of val ns tbl i sz]
  have line: "table_line val ns off tbl q = no_pat" if "\<not> (q < MAXSZ \<and> tbl ! q \<noteq> None)" for q
    using that by (cases "tbl ! q") (auto simp: table_line_def MAXSZ_def)
  consider (finished) "\<not> i < sz" | (node) "i < sz" "i < MAXSZ \<and> tbl ! i \<noteq> None"
    | (blank) "i < sz" "\<not> (i < MAXSZ \<and> tbl ! i \<noteq> None)"
    by (cases "i < sz"; cases "i < MAXSZ \<and> tbl ! i \<noteq> None"; (rule that; assumption))
  then show ?case
  proof cases
    case finished
    then have "dump_from val ns tbl i sz = Some []" unfolding unf by simp
    then show ?thesis using finished by (intro exI [of _ "[]"]) simp
  next
    case node
    then obtain c p where e: "tbl ! i = Some (c, p)" "i < 64" by (auto simp: MAXSZ_def)
    note c = placed_entry(1,2) [OF pl e(2,1)]
    let ?o = "row_offset ns off c"
    let ?sz = "if sz < ?o + TBLSZ then ?o + TBLSZ else sz"
    have off: "dumptbloffset tbl (ns ! c) = Some ?o" by (rule dumptbloffset_placed [OF pl c(2)])
    have ent: "dump_entry val ns c ?o = Some (table_entry val ns off c)"
      using len c(2) by (simp add: dump_entry_def table_entry_def Let_def)
    have off': "dumptbloffset tbl (ns ! fst (the (tbl ! i))) = Some ?o"
        "dump_entry val ns (fst (the (tbl ! i))) ?o = Some (table_entry val ns off c)" using off ent e by simp_all
    have "i + 1 \<le> ?sz" using node(1) by simp
    from "1.IH"(1) [OF node off' this pl len] obtain es where es: "dump_from val ns tbl (i + 1) ?sz = Some es"
      "?sz \<le> i + 1 + length es"
      "\<forall>q. i + 1 \<le> q \<longrightarrow> q < i + 1 + length es \<longrightarrow> es ! (q - (i + 1)) = table_line val ns off tbl q"
      "\<forall>q c p. i + 1 \<le> q \<longrightarrow> q < i + 1 + length es \<longrightarrow> q < 64 \<longrightarrow> tbl ! q = Some (c, p) \<longrightarrow> row_offset ns off c + 28 \<le> i + 1 + length es"
      by blast
    show ?thesis
    proof (intro exI conjI allI impI)
      show "dump_from val ns tbl i sz = Some (table_entry val ns off c # es)"
        using node off' es(1) by (simp add: unf)
      show "sz \<le> i + length (table_entry val ns off c # es)" using es(2) by (simp split: if_split_asm)
      show "(table_entry val ns off c # es) ! (q - i) = table_line val ns off tbl q"
        if "i \<le> q" "q < i + length (table_entry val ns off c # es)" for q
        using that es(3) e by (cases "q = i") (auto simp: table_line_def nth_Cons')
      show "row_offset ns off d + 28 \<le> i + length (table_entry val ns off c # es)"
        if q: "i \<le> q" "q < i + length (table_entry val ns off c # es)" "q < 64" "tbl ! q = Some (d, x)" for q d x
      proof (cases "q = i")
        case True
        then show ?thesis using q(4) es(2) e by (auto simp: TBLSZ_def split: if_split_asm)
      next
        case False
        then have "i + 1 \<le> q" "q < i + 1 + length es" using q(1,2) by auto
        then have "row_offset ns off d + 28 \<le> i + 1 + length es" using es(4) q(3,4) by blast
        then show ?thesis by simp
      qed
    qed
  next
    case blank
    have "i + 1 \<le> sz" using blank(1) by simp
    from "1.IH"(2) [OF blank this pl len] obtain es where es: "dump_from val ns tbl (i + 1) sz = Some es"
      "sz \<le> i + 1 + length es"
      "\<forall>q. i + 1 \<le> q \<longrightarrow> q < i + 1 + length es \<longrightarrow> es ! (q - (i + 1)) = table_line val ns off tbl q"
      "\<forall>q c p. i + 1 \<le> q \<longrightarrow> q < i + 1 + length es \<longrightarrow> q < 64 \<longrightarrow> tbl ! q = Some (c, p) \<longrightarrow> row_offset ns off c + 28 \<le> i + 1 + length es"
      by blast
    show ?thesis
    proof (intro exI conjI allI impI)
      show "dump_from val ns tbl i sz = Some (no_pat # es)" using blank es(1) by (auto simp: unf)
      show "sz \<le> i + length (no_pat # es)" using es(2) by simp
      show "(no_pat # es) ! (q - i) = table_line val ns off tbl q"
        if "i \<le> q" "q < i + length (no_pat # es)" for q
        using that es(3) line [OF blank(2)] by (cases "q = i") (auto simp: nth_Cons')
      show "row_offset ns off d + 28 \<le> i + length (no_pat # es)"
        if q: "i \<le> q" "q < i + length (no_pat # es)" "q < 64" "tbl ! q = Some (d, x)" for q d x
      proof -
        have "q \<noteq> i" using q(3,4) blank(2) by (auto simp: MAXSZ_def)
        then have "i + 1 \<le> q" "q < i + 1 + length es" using q(1,2) by auto
        then have "row_offset ns off d + 28 \<le> i + 1 + length es" using es(4) q(3,4) by blast
        then show ?thesis by simp
      qed
    qed
  qed
qed


section \<open>The table is a dictionary\<close>

text \<open>The printed table with what the placement says about it: every entry is there, and every row fits.\<close>

definition printed :: "(string \<Rightarrow> int) \<Rightarrow> lnode list \<Rightarrow> (nat \<Rightarrow> nat) \<Rightarrow> tblentry list \<Rightarrow> patricia list \<Rightarrow> bool" where
  "printed val ns off tbl tree \<longleftrightarrow> 28 \<le> length tree \<and> (\<forall>q < length tree. tree ! q = table_line val ns off tbl q)
     \<and> (\<forall>q < length tree. pat_offset (tree ! q) + 28 \<le> length tree)
     \<and> (\<forall>c. 0 < c \<longrightarrow> c < length ns \<longrightarrow> off (ln_check (ns ! c)) + 28 \<le> length tree)"

lemma dumptbl_printed:
  assumes "placed A ns tbl off" "\<forall>c < length ns. line_ok (ln_elem (ns ! c))" "row_offset ns off 0 = 0"
  obtains tree where "dumptbl val ns tbl = Some tree" "printed val ns off tbl tree"
proof -
  obtain tree where "dump_from val ns tbl 0 TBLSZ = Some tree \<and> TBLSZ \<le> 0 + length tree
    \<and> (\<forall>q. 0 \<le> q \<longrightarrow> q < 0 + length tree \<longrightarrow> tree ! (q - 0) = table_line val ns off tbl q)
    \<and> (\<forall>q c p. 0 \<le> q \<longrightarrow> q < 0 + length tree \<longrightarrow> q < 64 \<longrightarrow> tbl ! q = Some (c, p) \<longrightarrow> row_offset ns off c + 28 \<le> 0 + length tree)"
    using dump_from_placed [OF assms(1,2), of 0 TBLSZ val] by auto
  then have d: "dumptbl val ns tbl = Some tree" "28 \<le> length tree"
      "\<And>q. q < length tree \<Longrightarrow> tree ! q = table_line val ns off tbl q"
      "\<And>q c p. q < length tree \<Longrightarrow> q < 64 \<Longrightarrow> tbl ! q = Some (c, p) \<Longrightarrow> row_offset ns off c + 28 \<le> length tree"
    by (auto simp: dumptbl_def TBLSZ_def)
  have o: "pat_offset (tree ! q) + 28 \<le> length tree" if "q < length tree" for q
  proof (cases "q < 64 \<and> tbl ! q \<noteq> None")
    case True
    then obtain c p where e: "tbl ! q = Some (c, p)" by auto
    then have "pat_offset (tree ! q) = row_offset ns off c"
      using d(3) [OF that] True by (simp add: table_line_def table_entry_def pat_def)
    then show ?thesis using d(4) [OF that _ e] True by simp
  next
    case False
    then have "tree ! q = no_pat" using d(3) [OF that] by (cases "tbl ! q") (auto simp: table_line_def)
    then show ?thesis using d(2) by (simp add: no_pat_def)
  qed
  have "0 < c \<longrightarrow> c < length ns \<longrightarrow> off (ln_check (ns ! c)) + 28 \<le> length tree" for c
  proof (induction c rule: less_induct)
    case (less c)
    show ?case
    proof (intro impI)
      assume c: "0 < c" "c < length ns"
      let ?i = "ln_check (ns ! c)"
      note n = placed_node [OF assms(1) c]
      have r: "row_offset ns off ?i = off ?i" by (rule row_offset_row [OF n(2)])
      show "off ?i + 28 \<le> length tree"
      proof (cases "?i = 0")
        case True
        then show ?thesis using assms(3) r d(2) by simp
      next
        case False
        then have i: "0 < ?i" "?i < length ns" using n(1) c(2) by auto
        note m = placed_node [OF assms(1) i]
        let ?q = "ctoi (hd (ln_elem (ns ! ?i))) + off (ln_check (ns ! ?i))"
        have "?q < off (ln_check (ns ! ?i)) + 28" using ctoi_less by (metis add.commute add_less_cancel_left)
        then have "?q < length tree" "?q < 64" using less.IH [OF n(1)] i m(3) by linarith+
        then show ?thesis using d(4) m(4) r by metis
      qed
    qed
  qed
  then have "printed val ns off tbl tree" using d(2,3) o by (simp add: printed_def)
  then show thesis using that d(1) by blast
qed

text \<open>The characters that lead to an entry.\<close>

definition entry_path :: "lnode list \<Rightarrow> tblentry list \<Rightarrow> nat \<Rightarrow> string option" where
  "entry_path ns tbl q = (if q < 64 then map_option (\<lambda>(c, p). path ns c) (tbl ! q) else None)"

lemma path_child: "c < length ns \<Longrightarrow> ln_check (ns ! c) < c
    \<Longrightarrow> path ns c = path ns (ln_check (ns ! c)) @ ln_elem (ns ! ln_check (ns ! c))"
  by (subst path.simps) simp

lemma printed_entry:
  assumes "placed A ns tbl off" "printed val ns off tbl tree" "0 < c" "c < length ns"
  defines "q \<equiv> ctoi (hd (ln_elem (ns ! c))) + off (ln_check (ns ! c))"
  shows "q < length tree" "tree ! q = table_entry val ns off c" "entry_path ns tbl q = Some (path ns c)"
proof -
  note n = placed_node [OF assms(1,3,4)]
  have "q < off (ln_check (ns ! c)) + 28" unfolding q_def using ctoi_less by (metis add.commute add_less_cancel_left)
  then have q: "q < length tree" "q < 64" using assms(2-4) n(3) unfolding printed_def by (meson less_le_trans)+
  then show "q < length tree" "tree ! q = table_entry val ns off c" "entry_path ns tbl q = Some (path ns c)"
    using assms(2) n(4) by (auto simp: printed_def table_line_def entry_path_def q_def)
qed

lemma printed_line:
  assumes "placed A ns tbl off" "printed val ns off tbl tree" "q < length tree" "pat_prefix (tree ! q) = Some u"
  obtains c where "0 < c" "c < length ns" "q = ctoi (hd (ln_elem (ns ! c))) + off (ln_check (ns ! c))"
    "tree ! q = table_entry val ns off c" "u = ln_elem (ns ! c)" "entry_path ns tbl q = Some (path ns c)"
proof -
  have l: "tree ! q = table_line val ns off tbl q" using assms(2,3) by (simp add: printed_def)
  then have "q < 64 \<and> tbl ! q \<noteq> None" using assms(4) by (cases "tbl ! q") (auto simp: table_line_def no_pat_def split: if_split_asm)
  then obtain c p where e: "q < 64" "tbl ! q = Some (c, p)" by auto
  note c = placed_entry [OF assms(1) e]
  have t: "tree ! q = table_entry val ns off c" using l e by (simp add: table_line_def)
  then have "u = ln_elem (ns ! c)" using assms(4) by (simp add: table_entry_def pat_def)
  moreover have "entry_path ns tbl q = Some (path ns c)" using e by (simp add: entry_path_def)
  moreover have "q = ctoi (hd (ln_elem (ns ! c))) + off (ln_check (ns ! c))" using c(3,4) by simp
  ultimately show thesis using that c(1,2) t by blast
qed

text \<open>The words below the root, with the values of their terminals.\<close>

definition list_words :: "lnode list \<Rightarrow> (string \<Rightarrow> int) \<Rightarrow> (string \<times> int) list \<Rightarrow> bool" where
  "list_words ns val dict \<longleftrightarrow> (\<forall>w r. (w, r) \<in> set dict \<longleftrightarrow>
     (\<exists>c t. 0 < c \<and> c < length ns \<and> ln_terminal (ns ! c) = Some t \<and> w = path ns c @ ln_elem (ns ! c) \<and> r = val t))
     \<and> (\<forall>(w, r) \<in> set dict. 0 < r)"

definition initial_pat :: patricia where "initial_pat = pat [] 0 0 0 0"

text \<open>The function from characters to columns that the reader of the table uses.\<close>

definition columns :: "char set \<Rightarrow> (int \<Rightarrow> nat) \<Rightarrow> bool" where
  "columns A cmap \<longleftrightarrow> (\<forall>c \<in> A. cmap (char_int c) = ctoi c) \<and> (\<forall>x. cmap x < 28)"

lemma printed_hangs:
  assumes "placed A ns tbl off" "printed val ns off tbl tree" "columns A cmap"
    and "hangs tree cmap b q"
  obtains c where "0 < c" "c < length ns" "tree ! q = table_entry val ns off c" "entry_path ns tbl q = Some (path ns c)"
    "ln_check (ns ! c) = pat_next b"
proof -
  obtain u where u: "q < length tree" "pat_prefix (tree ! q) = Some u" "pat_check (tree ! q) = pat_next b"
    using assms(4) by (auto simp: hangs_def split: option.split_asm)
  obtain c where c: "0 < c" "c < length ns" "tree ! q = table_entry val ns off c" "entry_path ns tbl q = Some (path ns c)"
    by (rule printed_line [OF assms(1,2) u(1,2)])
  then show thesis using that u(3) by (simp add: table_entry_def pat_def)
qed

lemma hangs_printed:
  assumes "placed A ns tbl off" "printed val ns off tbl tree" "columns A cmap" "0 < c" "c < length ns"
    and "pat_next b = ln_check (ns ! c)" "pat_offset b = off (ln_check (ns ! c))"
  shows "hangs tree cmap b (ctoi (hd (ln_elem (ns ! c))) + off (ln_check (ns ! c)))"
proof -
  note n = placed_node [OF assms(1,4,5)] and e = printed_entry [OF assms(1,2,4,5)]
  have "hd (ln_elem (ns ! c)) \<in> A"
    using n(5) list_ok_node(1) [OF placed_list(1) [OF assms(1)] assms(5)] by (meson hd_in_set subsetD)
  then have "cmap (char_int (hd (ln_elem (ns ! c)))) = ctoi (hd (ln_elem (ns ! c)))"
    using assms(3) by (simp add: columns_def)
  then show ?thesis using e(1,2) n(5) assms(6,7) by (simp add: hangs_def table_entry_def pat_def)
qed

lemma printed_table:
  assumes "placed A ns tbl off" "printed val ns off tbl tree" "columns A cmap" "row_offset ns off 0 = 0"
    and "NUL \<notin> A" "list_words ns val dict"
  shows "trie_table tree initial_pat cmap (entry_path ns tbl) dict"
proof -
  note l = placed_list(1) [OF assms(1)]
  note root = list_ok_root [OF l]
  have elem: "ln_elem (ns ! c) \<noteq> [] \<and> NUL \<notin> set (ln_elem (ns ! c))" if "0 < c" "c < length ns" for c
    using placed_node(5) [OF assms(1) that] list_ok_node(1) [OF l that(2)] assms(5) by blast
  have at: "\<exists>c. 0 < c \<and> c < length ns \<and> q = ctoi (hd (ln_elem (ns ! c))) + off (ln_check (ns ! c)) \<and> w = path ns c"
    if "entry_path ns tbl q = Some w" for q w
    using that placed_entry [OF assms(1), of q] by (auto simp: entry_path_def split: if_split_asm)
  have words: "(w, r) \<in> set dict \<longleftrightarrow>
     (\<exists>c t. 0 < c \<and> c < length ns \<and> ln_terminal (ns ! c) = Some t \<and> w = path ns c @ ln_elem (ns ! c) \<and> r = val t)"
    and pos: "(w, r) \<in> set dict \<Longrightarrow> 0 < r" for w r
    using assms(6) unfolding list_words_def by blast+
  show ?thesis
  proof
    fix p q w u r d
    show "p < length tree \<and> (\<exists>u. pat_prefix (tree ! p) = Some u \<and> u \<noteq> [] \<and> NUL \<notin> set u)"
      if h: "entry_path ns tbl p = Some w"
    proof -
      obtain c where c: "0 < c" "c < length ns" "p = ctoi (hd (ln_elem (ns ! c))) + off (ln_check (ns ! c))"
        using at [OF h] by blast
      then show ?thesis using printed_entry(1,2) [OF assms(1,2) c(1,2)] elem [OF c(1,2)] by (simp add: table_entry_def pat_def)
    qed
    show "u \<noteq> [] \<and> hd u \<noteq> NUL" if pu: "q < length tree" "pat_prefix (tree ! q) = Some u"
    proof -
      obtain c where "0 < c" "c < length ns" "u = ln_elem (ns ! c)" by (rule printed_line [OF assms(1,2) pu])
      then show ?thesis using elem [of c] by (metis hd_in_set)
    qed
    show "pat_offset initial_pat + cmap d < length tree \<and> (\<forall>p < length tree. pat_offset (tree ! p) + cmap d < length tree)"
    proof -
      have "cmap d < 28" using assms(3) by (simp add: columns_def)
      then show ?thesis using assms(2) by (fastforce simp: printed_def initial_pat_def pat_def)
    qed
    show "entry_path ns tbl q = Some []" if h: "hangs tree cmap initial_pat q"
    proof -
      obtain c where c: "0 < c" "c < length ns" "entry_path ns tbl q = Some (path ns c)" "ln_check (ns ! c) = 0"
        by (rule printed_hangs [OF assms(1-3) h]) (simp add: initial_pat_def pat_def)
      have "ln_check (ns ! c) < c" using c(1,4) by simp
      from path_child [OF c(2) this] have "path ns c = path ns 0 @ ln_elem (ns ! 0)" unfolding c(4) .
      moreover have "path ns 0 = []" by (simp add: path.simps)
      ultimately show ?thesis using c(3) root by simp
    qed
    show "entry_path ns tbl q = Some (w @ u)"
      if p: "entry_path ns tbl p = Some w" "pat_prefix (tree ! p) = Some u" and h: "hangs tree cmap (tree ! p) q"
    proof -
      obtain i where i: "0 < i" "i < length ns" "p = ctoi (hd (ln_elem (ns ! i))) + off (ln_check (ns ! i))" "w = path ns i"
        using at [OF p(1)] by blast
      have t: "tree ! p = table_entry val ns off i" using printed_entry(2) [OF assms(1,2) i(1,2)] i(3) by simp
      obtain c where c: "0 < c" "c < length ns" "entry_path ns tbl q = Some (path ns c)" "ln_check (ns ! c) = pat_next (tree ! p)"
        by (rule printed_hangs [OF assms(1-3) h])
      have lt: "ln_check (ns ! c) < c" by (rule placed_node(1) [OF assms(1) c(1,2)])
      then have "ln_check (ns ! c) \<noteq> 99" using c(2) root by linarith
      then have "ln_check (ns ! c) = i" using c(4) t by (simp add: table_entry_def pat_def split: if_split_asm)
      then show ?thesis using c(3) i(4) p(2) t path_child [OF c(2) lt] by (simp add: table_entry_def pat_def)
    qed
    show "w = [] \<and> hangs tree cmap initial_pat q \<or> (\<exists>p v u. entry_path ns tbl p = Some v
        \<and> pat_prefix (tree ! p) = Some u \<and> w = v @ u \<and> hangs tree cmap (tree ! p) q)"
      if h: "entry_path ns tbl q = Some w"
    proof -
      obtain c where c: "0 < c" "c < length ns" "q = ctoi (hd (ln_elem (ns ! c))) + off (ln_check (ns ! c))" "w = path ns c"
        using at [OF h] by blast
      let ?i = "ln_check (ns ! c)"
      note n = placed_node [OF assms(1) c(1,2)]
      have o: "row_offset ns off ?i = off ?i" by (rule row_offset_row [OF n(2)])
      note pc = path_child [OF c(2) n(1)]
      show ?thesis
      proof (cases "?i = 0")
        case True
        moreover have "path ns 0 = []" by (simp add: path.simps)
        ultimately have "w = []" using pc c(4) root by simp
        moreover have "hangs tree cmap initial_pat q"
          unfolding c(3) by (rule hangs_printed [OF assms(1-3) c(1,2)]) (use True o assms(4) in \<open>simp_all add: initial_pat_def pat_def\<close>)
        ultimately show ?thesis by blast
      next
        case False
        then have i: "0 < ?i" "?i < length ns" using n(1) c(2) by auto
        let ?p = "ctoi (hd (ln_elem (ns ! ?i))) + off (ln_check (ns ! ?i))"
        note e = printed_entry [OF assms(1,2) i]
        have "ln_limit (ns ! ?i) \<noteq> 0"
          using list_ok_node(3) [OF l i(2)] n(2) by (cases "ln_limit (ns ! ?i) = 0") (simp_all add: row_at_def)
        then have "hangs tree cmap (tree ! ?p) q"
          unfolding c(3) by (intro hangs_printed [OF assms(1-3) c(1,2)]) (use e(2) o in \<open>simp_all add: table_entry_def pat_def\<close>)
        moreover have "pat_prefix (tree ! ?p) = Some (ln_elem (ns ! ?i))" using e(2) by (simp add: table_entry_def pat_def)
        ultimately show ?thesis using e(3) pc c(4) by blast
      qed
    qed
    show "0 < pat_terminal (tree ! p) \<and> (w @ u, pat_terminal (tree ! p)) \<in> set dict"
      if p: "entry_path ns tbl p = Some w" "pat_prefix (tree ! p) = Some u" "pat_terminal (tree ! p) \<noteq> 0"
    proof -
      obtain i where i: "0 < i" "i < length ns" "p = ctoi (hd (ln_elem (ns ! i))) + off (ln_check (ns ! i))" "w = path ns i"
        using at [OF p(1)] by blast
      have "tree ! p = table_entry val ns off i" using printed_entry(2) [OF assms(1,2) i(1,2)] i(3) by simp
      then obtain t where "ln_terminal (ns ! i) = Some t" "pat_terminal (tree ! p) = val t" "u = ln_elem (ns ! i)"
        using p(2,3) by (auto simp: table_entry_def pat_def split: option.split_asm)
      then have "(w @ u, pat_terminal (tree ! p)) \<in> set dict" using i words by blast
      then show ?thesis using pos by blast
    qed
    show "\<exists>p v u. entry_path ns tbl p = Some v \<and> pat_prefix (tree ! p) = Some u \<and> w = v @ u
      \<and> pat_terminal (tree ! p) = r \<and> 0 < r" if wr: "(w, r) \<in> set dict"
    proof -
      obtain c t where c: "0 < c" "c < length ns" "ln_terminal (ns ! c) = Some t" "w = path ns c @ ln_elem (ns ! c)" "r = val t"
        using words wr by blast
      show ?thesis
        using printed_entry(2,3) [OF assms(1,2) c(1,2)] c(3-5) pos [OF wr]
        by (intro exI [of _ "ctoi (hd (ln_elem (ns ! c))) + off (ln_check (ns ! c))"]) (simp add: table_entry_def pat_def)
    qed
  qed
qed


section \<open>Properties\<close>

text \<open>The characters of a node are a part of a word.\<close>

lemma elem_in_word:
  assumes "wf_node A root" "walk root = Some ns" "0 < c" "c < length ns"
  obtains v w t where "find_word root (v @ ln_elem (ns ! c) @ w) = Some t"
proof -
  note wl = walk_laid [OF assms(2)]
  note st = all_stand [OF assms(1) wl(1,2)]
  have "ln_check (ns ! c) < c \<and> Some c \<in> set (ln_tbl (ns ! ln_check (ns ! c)))"
    using wl(2) assms(3,4) by (auto simp: covered_def)
  then obtain j where p: "ln_check (ns ! c) < c" "row_at ns (ln_check (ns ! c)) j c" by (auto simp: row_at_def in_set_conv_nth)
  then have "ln_check (ns ! c) < length ns" using assms(4) by simp
  from st [OF this] obtain b where b: "stands A root ns (ln_check (ns ! c)) b" ..
  obtain d where d: "stands A root ns c d" "live d" by (rule stands_child [OF b p(2)])
  then have s: "laid ns c d" "wf_node A d" by (simp_all add: stands_def)
  obtain w t where w: "find_word d w = Some t" using live_find [OF s(2) d(2)] by blast
  then obtain r where r: "w = n_elem d @ r" using find_prefix [OF w] by (auto simp: prefix_def)
  then have "find_word root (path ns c @ ln_elem (ns ! c) @ r) = Some t"
    using d(1) w laid_sel(2) [OF s(1)] by (simp add: stands_def)
  then show thesis by (rule that)
qed

lemma walk_list_words:
  assumes "wf_node A root" "walk root = Some ns" "n_elem root = []" "\<forall>w \<in> set ws. w \<noteq> [] \<and> 0 < val (terminal_name pfx w)"
    and "\<And>w. find_word root w = (if w \<in> set ws then Some (terminal_name pfx w) else None)"
  shows "list_words ns val (map (\<lambda>w. (w, val (terminal_name pfx w))) ws)"
proof -
  note ww = walk_words [OF assms(1,2)] and wl = walk_laid [OF assms(2)]
  have root: "path ns 0 = []" "ln_elem (ns ! 0) = []"
    using laid_sel(2) [OF wl(1)] assms(3) by (simp_all add: path.simps)
  have "(w, r) \<in> set (map (\<lambda>w. (w, val (terminal_name pfx w))) ws) \<longleftrightarrow>
     (\<exists>c t. 0 < c \<and> c < length ns \<and> ln_terminal (ns ! c) = Some t \<and> w = path ns c @ ln_elem (ns ! c) \<and> r = val t)" for w r
  proof -
    have "(w, r) \<in> set (map (\<lambda>w. (w, val (terminal_name pfx w))) ws) \<longleftrightarrow> (\<exists>t. find_word root w = Some t \<and> r = val t)"
      unfolding assms(5) by auto
    also have "\<dots> \<longleftrightarrow> (\<exists>t. (\<exists>c < length ns. ln_terminal (ns ! c) = Some t \<and> w = path ns c @ ln_elem (ns ! c)) \<and> r = val t)"
      unfolding ww ..
    also have "\<dots> \<longleftrightarrow> (\<exists>c t. 0 < c \<and> c < length ns \<and> ln_terminal (ns ! c) = Some t \<and> w = path ns c @ ln_elem (ns ! c) \<and> r = val t)"
    proof -
      have "ln_terminal (ns ! 0) = None"
      proof (rule ccontr)
        assume "ln_terminal (ns ! 0) \<noteq> None"
        then obtain t where "find_word root [] = Some t" using ww [of "[]"] root wl(3) by fastforce
        then show False using assms(4,5) by (auto split: if_split_asm)
      qed
      then show ?thesis by (metis gr0I option.distinct(1))
    qed
    finally show ?thesis .
  qed
  then show ?thesis unfolding list_words_def using assms(4) by auto
qed

text \<open>Characters that a line of the input and a string of the output can have.\<close>

definition plain :: "char set \<Rightarrow> bool" where
  "plain A \<longleftrightarrow> A \<inter> {NUL, CHR 0x0a, CHR 0x0d, CHR 0x22, CHR 0x5c} = {}"

text \<open>C19. The tool and the parser fit together.  From words that are short, without duplicate
  and no prefix of an earlier one, over characters with different columns, whenever the search has found
  a table in which the row of the first node is at its beginning (the offset that the reader starts
  with, and that the tool does not print), the tool prints a table that \<open>walk_trie\<close> of the parser
  reads as the dictionary of exactly these words, each with the value of its name.  It does not matter
  when the search was stopped.\<close>
theorem build_table_correct:
  assumes "inj_on ctoi A" "plain A" "\<forall>w \<in> set ws. w \<noteq> [] \<and> set w \<subseteq> A \<and> length w \<le> 28"
    and "sorted_wrt (\<lambda>u v. \<not> prefix v u) ws" "\<forall>w \<in> set ws. 0 < val (terminal_name pfx w)"
    and "read_words pfx (map (\<lambda>w. w @ [CHR 0x0a]) ws) root_node = Some root" "walk root = Some ns"
    and "fit ns {} (replicate MAXSZ None) 0 0 MAXSZ st = (limit, tbl, st')" "limit < MAXSZ"
    and "dumptbloffset tbl (ns ! 0) = Some 0" "columns A cmap"
  shows "\<exists>tree. patricia_build val pfx (map (\<lambda>w. w @ [CHR 0x0a]) ws) st = Some (Inr tree)
    \<and> (\<forall>w t. NUL \<notin> set w \<longrightarrow> trie_lookup t cmap tree initial_pat w = map_of (map (\<lambda>w. (w, val (terminal_name pfx w))) ws) w)"
proof -
  obtain n where n: "read_words pfx (map (\<lambda>w. w @ [CHR 0x0a]) ws) root_node = Some n" "wf_node A n"
    "n_elem n = []" "n_limit n \<noteq> 0" "\<And>w. find_word n w = (if w \<in> set ws then Some (terminal_name pfx w) else None)"
    by (rule read_words_trie [OF assms(1) _ assms(4), of pfx]) (use assms(2,3) in \<open>auto simp: plain_def\<close>)
  then have root: "root = n" using assms(6) by simp
  note ok = walk_list_ok [OF n(2-4) assms(7) [unfolded root]]
  have "complete ns tbl limit" by (rule fit_complete [OF ok assms(8)]) (use assms(9) in \<open>simp add: MAXSZ_def\<close>)
  then obtain off where pl: "placed A ns tbl off" by (rule complete_placed [OF ok])
  have len: "line_ok (ln_elem (ns ! c))" if c: "c < length ns" for c
  proof (cases "c = 0")
    case False
    then obtain v w t where "find_word n (v @ ln_elem (ns ! c) @ w) = Some t"
      using elem_in_word [OF n(2) assms(7) [unfolded root] _ c] by auto
    then have "v @ ln_elem (ns ! c) @ w \<in> set ws" using n(5) by (metis option.distinct(1))
    then have "length (v @ ln_elem (ns ! c) @ w) \<le> 28" using assms(3) by blast
    moreover have "set (ln_elem (ns ! c)) \<subseteq> A" by (rule list_ok_node(1) [OF ok c])
    ultimately show ?thesis using assms(2) by (auto simp: line_ok_def plain_def)
  qed (use list_ok_root [OF ok] in \<open>simp add: line_ok_def\<close>)
  have o: "row_offset ns off 0 = 0"
    using dumptbloffset_placed [OF pl, of 0] assms(10) list_ok_root [OF ok] by simp
  obtain tree where tree: "dumptbl val ns tbl = Some tree" "printed val ns off tbl tree"
    using dumptbl_printed [OF pl _ o, of val] len by blast
  have "list_words ns val (map (\<lambda>w. (w, val (terminal_name pfx w))) ws)"
    by (rule walk_list_words [OF n(2) assms(7) [unfolded root] n(3)]) (use assms(3,5) n(5) in auto)
  from printed_table [OF pl tree(2) assms(11) o _ this]
  have t: "trie_table tree initial_pat cmap (entry_path ns tbl) (map (\<lambda>w. (w, val (terminal_name pfx w))) ws)"
    using assms(2) by (simp add: plain_def)
  have "patricia_build val pfx (map (\<lambda>w. w @ [CHR 0x0a]) ws) st = Some (Inr tree)"
    using assms(6-9) tree(1) by (simp add: patricia_build_def)
  then show ?thesis using trie_table.lookup_map_of [OF t] by blast
qed

text \<open>A run of the tool.\<close>

definition demo_words :: "string list" where
  "demo_words = [''from'', ''te'', ''trailer'']"

definition demo_lines :: "string list" where
  "demo_lines = map (\<lambda>w. w @ [CHR 0x0a]) demo_words"

definition demo_value :: "string \<Rightarrow> int" where
  "demo_value s = int (length s)"

definition demo_trie :: node where
  "demo_trie = the (read_words ''rq_'' demo_lines root_node)"

definition demo_list :: "lnode list" where
  "demo_list = the (walk demo_trie)"

definition demo_fit :: "nat \<times> tblentry list \<times> nat" where
  "demo_fit = fit demo_list {} (replicate MAXSZ None) 0 0 MAXSZ 100"

lemma demo_tool:
  "read_words ''rq_'' demo_lines root_node \<noteq> None" "walk demo_trie \<noteq> None" "fst demo_fit < MAXSZ"
  "dumptbloffset (fst (snd demo_fit)) (demo_list ! 0) = Some 0"
  by code_simp+

lemma build_table_witness:
  "\<exists>tree. patricia_build demo_value ''rq_'' demo_lines 100 = Some (Inr tree)
    \<and> trie_lookup 58 header_trie_map tree initial_pat ''trailer'' = Some 10
    \<and> trie_lookup 58 header_trie_map tree initial_pat ''tr'' = None"
proof -
  let ?A = "set ''aefilmort''"
  have A: "inj_on ctoi ?A" "plain ?A" by (simp_all add: inj_on_def ctoi_def plain_def)
  have w: "\<forall>w \<in> set demo_words. w \<noteq> [] \<and> set w \<subseteq> ?A \<and> length w \<le> 28"
    "sorted_wrt (\<lambda>u v. \<not> prefix v u) demo_words" "\<forall>w \<in> set demo_words. 0 < demo_value (terminal_name ''rq_'' w)"
    by (simp_all add: demo_words_def demo_value_def terminal_name_def)
  have t: "read_words ''rq_'' (map (\<lambda>w. w @ [CHR 0x0a]) demo_words) root_node = Some demo_trie" "walk demo_trie = Some demo_list"
    using demo_tool(1,2) by (simp_all add: demo_trie_def demo_list_def demo_lines_def)
  have "header_trie_map x < 28" for x using trie_map_bounds(2) [of x] by simp
  moreover have "\<forall>c \<in> ?A. header_trie_map (char_int c) = ctoi c" by (simp add: ctoi_def header_trie_map_def char_int_def)
  ultimately have c: "columns ?A header_trie_map" by (simp add: columns_def)
  obtain limit tbl st' where f: "demo_fit = (limit, tbl, st')" by (cases demo_fit)
  note g = f [unfolded demo_fit_def] and r = demo_tool(3,4) [unfolded f fst_conv snd_conv]
  from build_table_correct [where val = demo_value, OF A w t g r c] show ?thesis
    by (auto simp: demo_lines_def demo_words_def demo_value_def terminal_name_def)
qed

text \<open>The search may place the row of the first node elsewhere, when that makes a smaller table: with
  these two words it is at offset 1, and a reader that starts at 0 finds neither.\<close>

lemma root_row_moved:
  "case patricia_build demo_value ''rq_'' [''ba'' @ [CHR 0x0a], ''bb'' @ [CHR 0x0a]] 100 of
     Some (Inr tree) \<Rightarrow> trie_lookup 58 header_trie_map tree initial_pat ''ba'' = None
       \<and> trie_lookup 58 header_trie_map tree (pat [] 0 0 1 0) ''ba'' = Some 5
   | _ \<Rightarrow> False"
  by code_simp

end
