(* ===== verification/Http_Line.thy ===== *)
theory Http_Line
  imports Http_Resume
begin

text \<open>
  What the parser makes of the first line of a request, the states \<open>h_initial\<close> to
  \<open>h_prot_http_x_x\<close> of \<open>src/libhttp/http.c\<close>: the method, the path and the query with their
  escapes resolved, the version.
\<close>

section \<open>Scanning some characters\<close>

definition scans :: "bytes \<Rightarrow> http_ctx \<Rightarrow> http_ctx \<Rightarrow> bool" where
  "scans cs x y \<longleftrightarrow> http_scan False cs x = Wants y"

lemma scans_Nil [simp]: "scans [] x y \<longleftrightarrow> y = x"
  by (auto simp: scans_def)

lemma scans_trans: "scans cs x y \<Longrightarrow> scans ds y z \<Longrightarrow> scans (cs @ ds) x z"
  by (simp add: scans_def scan_append)

lemma scans_Cons: "http_char (char_int c) x = Break y \<Longrightarrow> s_nl y \<le> 1 \<Longrightarrow> scans cs (next_char y) z \<Longrightarrow> scans (c # cs) x z"
  by (simp add: scans_def)

lemma scans_one: "http_char (char_int c) x = Break y \<Longrightarrow> s_nl y \<le> 1 \<Longrightarrow> scans [c] x (next_char y)"
  by (simp add: scans_def)

lemma scans_other: "http_char (char_int c) x = http_char (char_int c) x' \<Longrightarrow> scans (c # cs) x' y \<Longrightarrow> scans (c # cs) x y"
  by (simp add: scans_def)

lemma scan_scans: "scans cs x y \<Longrightarrow> http_scan eof (cs @ ds) x = http_scan eof ds y"
  by (simp add: scans_def scan_append)

lemma char_looks: "http_char c x = (case http_switch c x of Again c1 x1 \<Rightarrow> (case http_switch c1 x1 of
    Again c2 x2 \<Rightarrow> (case http_switch c2 x2 of Again c3 x3 \<Rightarrow> (case http_switch c3 x3 of
      Again c4 x4 \<Rightarrow> (case http_switch c4 x4 of Again c5 x5 \<Rightarrow> Fault | z \<Rightarrow> z) | z \<Rightarrow> z) | z \<Rightarrow> z) | z \<Rightarrow> z) | z \<Rightarrow> z)"
  by (simp add: http_char_def eval_nat_numeral split: ctrl.split)

text \<open>A character that is looked at again; \<open>settles n\<close> says that \<open>n\<close> looks are enough.\<close>

fun settles :: "nat \<Rightarrow> int \<Rightarrow> http_ctx \<Rightarrow> bool" where
  "settles 0 c x = False"
| "settles (Suc n) c x = (case http_switch c x of Again c' x' \<Rightarrow> settles n c' x' | _ \<Rightarrow> True)"

lemma settles_dispatch: "settles n c x \<Longrightarrow> n \<le> m \<Longrightarrow> settles m c x \<and> dispatch m c x = dispatch n c x"
proof (induction n arbitrary: m c x)
  case (Suc n)
  from Suc.prems(2) obtain k where m: "m = Suc k" "n \<le> k" by (cases m) auto
  show ?case
  proof (cases "http_switch c x")
    case (Again c' y)
    then show ?thesis using Suc.IH [of c' y k] Suc.prems(1) m by simp
  qed (use m in simp_all)
qed simp

lemma char_again:
  assumes "http_switch c x = Again c' y" "settles n c' y" "n \<le> 4"
  shows "http_char c x = http_char c' y"
proof -
  have five: "(5 :: nat) = Suc 4" by simp
  have "http_char c x = dispatch 4 c' y" unfolding http_char_def five dispatch.simps assms(1) ctrl.case ..
  also have "\<dots> = dispatch n c' y" using settles_dispatch [OF assms(2,3)] by (rule conjunct2)
  also have "\<dots> = dispatch 5 c' y" using settles_dispatch [OF assms(2), of 5] assms(3) by (subst conjunct2 [OF settles_dispatch [OF assms(2), of 5]]) simp_all
  finally show ?thesis unfolding http_char_def .
qed

lemma settles_1: "s_st x \<in> {h_error_bad_request, h_error_internal_server_error, h_skipline} \<Longrightarrow> settles 1 c x"
  by (auto simp: One_nat_def http_switch_def sw_skipline_def Let_def)

lemma settles_2:
  assumes "\<And>c' y. http_switch c x = Again c' y \<Longrightarrow> s_st y \<in> {h_error_bad_request, h_error_internal_server_error, h_skipline}"
  shows "settles 2 c x"
proof -
  have two: "(2 :: nat) = Suc 1" by simp
  show ?thesis unfolding two settles.simps using assms settles_1 by (cases "http_switch c x") simp_all
qed

text \<open>What characters of the first line, or of the values of headers, leave alone.\<close>

definition kept :: "http_ctx \<Rightarrow> http_ctx \<Rightarrow> bool" where
  "kept x y \<longleftrightarrow> s_nl y = s_nl x \<and> s_flags y = s_flags x \<and> s_hmask y = s_hmask x \<and> s_httpv0 y = s_httpv0 x
     \<and> s_httpv1 y = s_httpv1 x"

definition kept_all :: "http_ctx \<Rightarrow> http_ctx \<Rightarrow> bool" where
  "kept_all x y \<longleftrightarrow> kept x y \<and> s_st y = s_st x \<and> s_est y = s_est x \<and> c_flag y = c_flag x \<and> c_rq y = c_rq x \<and> c_text y = c_text x"

lemma next_char_more [simp]:
  "s_httpv0 (next_char x) = s_httpv0 x" "s_httpv1 (next_char x) = s_httpv1 x" "c_flag (next_char x) = c_flag x"
  "c_tstate (next_char x) = c_tstate x" "s_esc (next_char x) = s_esc x"
  by (simp_all add: next_char_def)

text \<open>Literal characters.\<close>

lemma char_ints:
  "char_int (CHR '' '') = 32" "char_int (CHR 0x0D) = 13" "char_int (CHR 0x0A) = 10" "char_int (CHR ''%'') = 37"
  "char_int (CHR ''?'') = 63" "char_int (CHR ''/'') = 47" "char_int (CHR ''.'') = 46" "char_int (CHR '':'') = 58"
  "char_int (CHR ''0'') = 48" "char_int (CHR ''1'') = 49" "char_int (CHR ''9'') = 57"
  by code_simp+

section \<open>Room in the text block\<close>

definition text_room :: "textint \<Rightarrow> nat" where
  "text_room t = unat (ti_ints t) - unat (ti_text t)"

text \<open>\<open>t'\<close> is \<open>t\<close> with characters and integers behind its own.\<close>

definition text_adds :: "bytes \<Rightarrow> int list \<Rightarrow> textint \<Rightarrow> textint \<Rightarrow> bool" where
  "text_adds ws is t t' \<longleftrightarrow> textint_ok t' \<and> textint_text t' = textint_text t @ ws
     \<and> textint_ints t' = textint_ints t @ is \<and> ti_size t' = ti_size t"

lemma text_adds_nil: "textint_ok t \<Longrightarrow> text_adds [] [] t t"
  by (simp add: text_adds_def)

lemma text_adds_trans: "text_adds ws is t t' \<Longrightarrow> text_adds vs js t' t'' \<Longrightarrow> text_adds (ws @ vs) (is @ js) t t''"
  by (simp add: text_adds_def)

lemma text_adds_pos:
  assumes "textint_ok t" "text_adds ws is t t'"
  shows "unat (ti_text t') = unat (ti_text t) + length ws" "unat (ti_ints t') + 4 * length is = unat (ti_ints t)"
proof -
  have ok: "textint_ok t'" using assms(2) by (simp add: text_adds_def)
  have "length (textint_text t') = length (textint_text t) + length ws" using assms(2) by (simp add: text_adds_def)
  then show "unat (ti_text t') = unat (ti_text t) + length ws" by (simp add: length_textint_text assms(1) ok)
  have "textint_count t' = textint_count t + length is"
    using assms(2) unfolding length_textint_ints [symmetric] by (simp add: text_adds_def)
  then show "unat (ti_ints t') + 4 * length is = unat (ti_ints t)"
    using textint_count_mult [OF assms(1)] textint_count_mult [OF ok] textint_ok_nat(2) [OF assms(1)]
      textint_ok_nat(2) [OF ok] assms(2) by (simp add: text_adds_def)
qed

lemma text_adds_room: "textint_ok t \<Longrightarrow> text_adds ws is t t' \<Longrightarrow> text_room t' = text_room t - (length ws + 4 * length is)"
  using text_adds_pos [of t ws "is" t'] by (simp add: text_room_def)

lemma putc_or_adds:
  assumes "textint_ok (c_text x)" "0 < text_room (c_text x)"
  shows "putc_or code c x k = k (x\<lparr>c_text := textint_addc c (c_text x)\<rparr>)"
    "text_adds [c] [] (c_text x) (textint_addc c (c_text x))"
proof -
  have f: "\<not> textint_full (c_text x)" using assms(2) by (simp add: text_room_def textint_full_def)
  show "putc_or code c x k = k (x\<lparr>c_text := textint_addc c (c_text x)\<rparr>)"
    using assms(1) f by (simp add: putc_or_def minute_textint_putc_eq)
  show "text_adds [c] [] (c_text x) (textint_addc c (c_text x))"
    using assms(1) f by (simp add: text_adds_def textint_addc_ok textint_addc_text textint_addc_ints)
qed

lemma puti_or_adds:
  assumes "textint_ok (c_text x)" "4 < text_room (c_text x)"
  shows "puti_or code i x k = k (x\<lparr>c_text := textint_addi i (c_text x)\<rparr>)"
    "text_adds [] [c_int i] (c_text x) (textint_addi i (c_text x))"
proof -
  have f: "\<not> textint_ifull (c_text x)" using assms(2) by (auto simp: text_room_def textint_ifull_def)
  show "puti_or code i x k = k (x\<lparr>c_text := textint_addi i (c_text x)\<rparr>)"
    using assms(1) f by (simp add: puti_or_def minute_textint_puti_eq)
  show "text_adds [] [c_int i] (c_text x) (textint_addi i (c_text x))"
    using assms(1) f by (simp add: text_adds_def textint_addi_ok textint_addi_text textint_addi_ints)
qed

section \<open>Words of a trie\<close>

text \<open>Characters that only move the trie state, seen through \<open>f\<close>.\<close>

lemma scans_word:
  assumes step: "\<And>c y ts. c \<in> set w \<Longrightarrow> kept_all x y \<Longrightarrow>
      walk_trie (char_int (f c)) (cmap (char_int (f c))) tree (Some ini) (c_tstate y) = Some (0, ts)
      \<Longrightarrow> \<exists>z. http_char (char_int c) y = Break z \<and> kept_all x z \<and> c_tstate z = ts"
    and x: "walk_word cmap tree ini (c_tstate x) (map f w) = Some ts" "s_nl x = 0"
  shows "\<exists>y. scans w x y \<and> kept_all x y \<and> c_tstate y = ts"
proof -
  have "kept_all x y \<Longrightarrow> walk_word cmap tree ini (c_tstate y) (map f v) = Some ts \<Longrightarrow> set v \<subseteq> set w
      \<Longrightarrow> \<exists>z. scans v y z \<and> kept_all x z \<and> c_tstate z = ts" for v y
  proof (induction v arbitrary: y)
    case (Cons c v)
    from Cons.prems(2) obtain t where t: "walk_trie (char_int (f c)) (cmap (char_int (f c))) tree (Some ini) (c_tstate y) = Some (0, t)"
        "walk_word cmap tree ini t (map f v) = Some ts"
      by (auto split: option.splits if_splits)
    obtain z where z: "http_char (char_int c) y = Break z" "kept_all x z" "c_tstate z = t"
      using step [OF _ Cons.prems(1) t(1)] Cons.prems(3) by auto
    have n: "s_nl z = 0" "kept_all x (next_char z)" using z(2) x(2) by (simp_all add: kept_all_def kept_def)
    obtain u where "scans v (next_char z) u" "kept_all x u" "c_tstate u = ts"
      using Cons.IH [OF n(2)] t(2) z(3) Cons.prems(3) by auto
    then show ?case using scans_Cons [OF z(1)] n(1) by auto
  qed simp
  then show ?thesis using x(1) by (simp add: kept_all_def kept_def)
qed

text \<open>The terminator behind a word of the dictionary.\<close>

lemma lookup_walk:
  assumes "trie_lookup t cmap tree ini w = Some r"
  obtains ts ts' where "walk_word cmap tree ini \<lparr>ts_poff = 0, ts_slot = 0\<rparr> w = Some ts"
    "walk_trie 0 (cmap t) tree (Some ini) ts = Some (r, ts')" "0 < r"
  using assms by (auto simp: trie_lookup_def split: option.splits if_splits)

section \<open>The method\<close>

lemma char_initial:
  assumes "s_st x = h_initial" "c \<noteq> CR" "c \<noteq> LF"
  shows "http_char c x = http_char c (x\<lparr>s_esc := 0, s_st := h_method, c_tstate := \<lparr>ts_poff = 0, ts_slot = 0\<rparr>\<rparr>)"
proof -
  have 1: "http_switch c x = Again c (x\<lparr>s_esc := 0, s_st := h_method, c_tstate := \<lparr>ts_poff = 0, ts_slot = 0\<rparr>\<rparr>)"
    using assms by (simp add: http_switch_def sw_initial_def reset_def fresh_trie_def)
  show ?thesis using 1
    by (rule char_again [OF _ settles_2]) (auto simp: http_switch_def sw_method_def walk_def reset_def split: option.splits if_splits)
qed

lemma char_method:
  assumes "s_st x = h_method" "c \<noteq> SP" "walk_trie c (utility_trie_map c) utility (Some patinitial_method) (c_tstate x) = Some (0, ts)"
  shows "http_char c x = Break (mark (x\<lparr>c_tstate := ts\<rparr>))"
  using assms by (simp add: char_looks http_switch_def sw_method_def walk_def method_of_code_def http_methods_def)

lemma scans_method:
  assumes "(m, method_code h) \<in> set method_dict" "s_st x = h_initial" "s_nl x = 0"
  shows "\<exists>y. scans (m @ '' '') x y \<and> kept x y \<and> s_st y = h_method_sp \<and> c_text y = c_text x
    \<and> c_rq y = (c_rq x)\<lparr>rq_request_method := h\<rparr>"
proof -
  let ?z = "\<lparr>ts_poff = 0, ts_slot = 0\<rparr>"
  let ?x = "x\<lparr>s_esc := 0, s_st := h_method, c_tstate := ?z\<rparr>"
  have m: "m \<noteq> []" "set m \<subseteq> {c. char_int c \<notin> {SP, CR, LF}}" "NUL \<notin> set m"
    using assms(1) by (auto simp: method_dict_def char_int_blank)
  have h: "method_of_code (method_code h) = Some h" using assms(1) by (intro method_of_code_code) (auto simp: method_dict_def)
  have "trie_lookup 32 utility_trie_map utility patinitial_method m = Some (method_code h)"
    using method_trie.lookup_iff [OF m(3)] assms(1) by simp
  then obtain ts ts' where w: "walk_word utility_trie_map utility patinitial_method ?z m = Some ts"
      "walk_trie 0 (utility_trie_map 32) utility (Some patinitial_method) ts = Some (method_code h, ts')"
    by (rule lookup_walk)
  have "\<exists>y. scans m ?x y \<and> kept_all ?x y \<and> c_tstate y = ts"
    by (rule scans_word [where f = "\<lambda>c. c" and ini = patinitial_method])
      (use m(2) w(1) assms(3) char_method in \<open>auto simp: kept_all_def kept_def mark_def\<close>)
  then obtain y where y: "scans m ?x y" "kept_all ?x y" "c_tstate y = ts" by blast
  have "\<exists>z. http_char (char_int (CHR '' '')) y = Break z \<and> kept x z \<and> s_st z = h_method_sp \<and> c_text z = c_text x
      \<and> c_rq z = (c_rq x)\<lparr>rq_request_method := h\<rparr>"
    using w(2) h y(2,3) by (simp add: char_ints char_looks http_switch_def sw_method_def walk_def mark_def shift_def kept_all_def kept_def)
  then obtain z where z: "http_char (char_int (CHR '' '')) y = Break z" "kept x z" "s_st z = h_method_sp" "c_text z = c_text x"
      "c_rq z = (c_rq x)\<lparr>rq_request_method := h\<rparr>" by blast
  have "scans (m @ '' '') ?x (next_char z)"
    using y(1) scans_one [OF z(1)] z(2) assms(3) by (intro scans_trans) (auto simp: kept_def)
  moreover obtain c cs where c: "m = c # cs" using m(1) by (cases m) auto
  moreover have "http_char (char_int c) x = http_char (char_int c) ?x" using assms(2) m(2) c by (intro char_initial) auto
  ultimately have "scans (m @ '' '') x (next_char z)" using scans_other by simp
  then show ?thesis using z(2-5) by (auto simp: kept_def intro!: exI [of _ "next_char z"])
qed

section \<open>The path and the query\<close>

text \<open>A target as it is meant: characters that stand for themselves, and escapes with digits and lower
  case letters (for upper case ones \<open>uri_hex_conv\<close> is wrong).\<close>

datatype uri_char = Plain char | Escaped char char

fun uri_text :: "uri_char \<Rightarrow> bytes" where
  "uri_text (Plain c) = [c]"
| "uri_text (Escaped a b) = [CHR ''%'', a, b]"

definition hex_lower :: "char \<Rightarrow> bool" where
  "hex_lower c \<longleftrightarrow> in_range 48 57 (char_int c) \<or> in_range 97 102 (char_int c)"

definition hex_value :: "char \<Rightarrow> nat" where
  "hex_value c = (if char_int c \<le> 57 then nat (char_int c - 48) else nat (char_int c - 97) + 10)"

fun uri_value :: "uri_char \<Rightarrow> char" where
  "uri_value (Plain c) = c"
| "uri_value (Escaped a b) = char_of (16 * hex_value a + hex_value b)"

fun uri_ok :: "(int \<Rightarrow> bool) \<Rightarrow> uri_char \<Rightarrow> bool" where
  "uri_ok ok (Plain c) \<longleftrightarrow> ok (char_int c)"
| "uri_ok ok (Escaped a b) \<longleftrightarrow> hex_lower a \<and> hex_lower b"

definition path_char :: "int \<Rightarrow> bool" where
  "path_char c \<longleftrightarrow> uri_pchar c \<or> c = 47 \<or> c = 59"

lemma hex_pair: "a < 16 \<Longrightarrow> b < 16
    \<Longrightarrow> int_char (uint (push_bit 4 (word_of_int (int a) :: unsigned) OR word_of_int (int b))) = char_of (16 * a + b)"
proof -
  assume ab: "a < 16" "b < 16"
  have "push_bit 4 (int a) OR int b = concat_bit 4 (int b) (int a)"
    using ab(2) by (simp add: concat_bit_def or.commute take_bit_int_eq_self)
  also have "\<dots> = int (16 * a + b)"
    using ab(2) by (simp add: concat_bit_eq take_bit_int_eq_self push_bit_eq_mult)
  finally have "push_bit 4 (word_of_int (int a) :: unsigned) OR word_of_int (int b) = word_of_int (int (16 * a + b))"
    by (simp only: of_int_or_eq [symmetric] push_bit_of_int)
  moreover have "uint (word_of_int (int (16 * a + b)) :: unsigned) = int (16 * a + b)"
    using ab by (simp only: uint_word_of_int) (simp add: take_bit_int_eq_self)
  ultimately show ?thesis by (simp only: int_char_def char_of_nat)
qed

lemma hex_lower_conv:
  assumes "hex_lower c"
  shows "uri_hex (char_int c)" "uri_hex_conv (char_int c) = int (hex_value c)" "hex_value c < 16"
  using assms by (auto simp: hex_lower_def uri_hex_def uri_hex_conv_def hex_value_def)

definition reads_target :: "http_ctx \<Rightarrow> bool" where
  "reads_target x \<longleftrightarrow> textint_ok (c_text x) \<and> s_nl x = 0"

lemma char_target:
  assumes "s_st x = h_path \<and> path_char (char_int c) \<or> s_st x = h_query \<and> uri_uric (char_int c)"
    "reads_target x" "0 < text_room (c_text x)"
  shows "\<exists>y. http_char (char_int c) x = Break y \<and> kept x y \<and> s_st y = s_st x \<and> c_rq y = c_rq x
    \<and> text_adds [c] [] (c_text x) (c_text y)"
proof -
  have "http_switch (char_int c) x = putc_or 414 c x (\<lambda>x. Break (mark x))"
    using assms(1) unfolding path_char_def by (auto simp: http_switch_def sw_path_def sw_query_def) (metis int_char_char_int)+
  then show ?thesis
    using assms(2,3) putc_or_adds [of x] by (simp add: reads_target_def char_looks mark_def kept_def)
qed

lemma scans_escape:
  assumes "s_st x \<in> {h_path, h_query}" "hex_lower a" "hex_lower b" "reads_target x" "0 < text_room (c_text x)"
  shows "\<exists>y. scans [CHR ''%'', a, b] x y \<and> kept x y \<and> s_st y = s_st x \<and> c_rq y = c_rq x
    \<and> text_adds [uri_value (Escaped a b)] [] (c_text x) (c_text y)"
proof -
  note h = hex_lower_conv [OF assms(2)] hex_lower_conv [OF assms(3)]
  let ?x1 = "x\<lparr>s_est := s_st x, s_st := h_escaped_1, c_b := s_m x\<rparr>"
  let ?x2 = "(next_char ?x1)\<lparr>s_esc := word_of_int (int (hex_value a)), s_st := h_escaped_2\<rparr>"
  have u: "\<not> uri_pchar 37" "\<not> uri_uric 37" by code_simp+
  have "\<exists>y. http_char (char_int (CHR ''%'')) x = Break y \<and> kept x y \<and> s_st y = h_escaped_1 \<and> s_est y = s_st x
      \<and> c_text y = c_text x \<and> c_rq y = c_rq x"
    using assms(1) u by (auto simp: char_ints char_looks http_switch_def sw_path_def sw_query_def mark_def shift_def kept_def)
  then obtain y where y: "http_char (char_int (CHR ''%'')) x = Break y" "kept x y" "s_st y = h_escaped_1" "s_est y = s_st x"
      "c_text y = c_text x" "c_rq y = c_rq x" by blast
  have "\<exists>z. http_char (char_int a) (next_char y) = Break z \<and> kept x z \<and> s_st z = h_escaped_2 \<and> s_est z = s_st x
      \<and> c_text z = c_text x \<and> c_rq z = c_rq x \<and> s_esc z = word_of_int (int (hex_value a))"
    using y(2-) h by (simp add: char_looks http_switch_def sw_escaped_1_def shift_def kept_def)
  then obtain z where z: "http_char (char_int a) (next_char y) = Break z" "kept x z" "s_st z = h_escaped_2" "s_est z = s_st x"
      "c_text z = c_text x" "c_rq z = c_rq x" "s_esc z = word_of_int (int (hex_value a))" by blast
  have v: "int_char (uint (push_bit 4 (s_esc z) OR word_of_int (int (hex_value b)))) = uri_value (Escaped a b)"
    using hex_pair [OF h(3,6)] by (simp add: z(7))
  have "\<exists>w. http_char (char_int b) (next_char z) = Break w \<and> kept x w \<and> s_st w = s_st x \<and> c_rq w = c_rq x
      \<and> text_adds [uri_value (Escaped a b)] [] (c_text x) (c_text w)"
    using z(2-6) h v putc_or_adds [of "next_char z"] assms(4,5)
    by (simp add: reads_target_def char_looks http_switch_def sw_escaped_2_def shift_def kept_def Let_def del: uri_value.simps)
  then obtain w where w: "http_char (char_int b) (next_char z) = Break w" "kept x w" "s_st w = s_st x" "c_rq w = c_rq x"
      "text_adds [uri_value (Escaped a b)] [] (c_text x) (c_text w)" by blast
  have "scans [CHR ''%'', a, b] x (next_char w)"
    using y(2) z(2) w(2) assms(4) by (intro scans_Cons [OF y(1)] scans_Cons [OF z(1)] scans_Cons [OF w(1)])
      (auto simp: kept_def reads_target_def)
  then show ?thesis using w(2-5) by (auto simp: kept_def intro!: exI [of _ "next_char w"])
qed

lemma scans_target:
  assumes "s_st x = h_path \<and> list_all (uri_ok path_char) us \<or> s_st x = h_query \<and> list_all (uri_ok uri_uric) us"
    "reads_target x" "length us \<le> text_room (c_text x)"
  shows "\<exists>y. scans (concat (map uri_text us)) x y \<and> kept x y \<and> s_st y = s_st x \<and> c_rq y = c_rq x
    \<and> text_adds (map uri_value us) [] (c_text x) (c_text y)"
  using assms
proof (induction us arbitrary: x)
  case Nil
  then show ?case by (auto simp: kept_def reads_target_def text_adds_nil)
next
  case (Cons u us)
  have "\<exists>y. scans (uri_text u) x y \<and> kept x y \<and> s_st y = s_st x \<and> c_rq y = c_rq x
    \<and> text_adds [uri_value u] [] (c_text x) (c_text y)"
  proof (cases u)
    case (Plain c)
    then show ?thesis using char_target [of x c] Cons.prems scans_one [of c x]
      by (fastforce simp: kept_def reads_target_def)
  next
    case (Escaped a b)
    then show ?thesis using scans_escape [of x a b] Cons.prems by (auto simp del: uri_value.simps)
  qed
  then obtain y where y: "scans (uri_text u) x y" "kept x y" "s_st y = s_st x" "c_rq y = c_rq x"
      "text_adds [uri_value u] [] (c_text x) (c_text y)" by blast
  have "textint_ok (c_text x)" using Cons.prems(2) by (simp add: reads_target_def)
  from text_adds_room [OF this y(5)] have r: "length us \<le> text_room (c_text y)" using Cons.prems(3) by simp
  have "reads_target y" using Cons.prems(2) y(2,5) by (simp add: reads_target_def kept_def text_adds_def)
  then obtain z where "scans (concat (map uri_text us)) y z" "kept y z" "s_st z = s_st y" "c_rq z = c_rq y"
      "text_adds (map uri_value us) [] (c_text y) (c_text z)"
    using Cons.IH [of y] Cons.prems(1) r y(3) by auto
  then show ?case using scans_trans [OF y(1)] text_adds_trans [OF y(5)] y(2-4)
    by (auto simp: kept_def intro!: exI [of _ z])
qed

text \<open>From one stretch of characters to the next.\<close>

lemma leads_append: "\<exists>y. scans cs x y \<and> Q y \<Longrightarrow> (\<And>y. Q y \<Longrightarrow> \<exists>z. scans ds y z \<and> R z) \<Longrightarrow> \<exists>z. scans (cs @ ds) x z \<and> R z"
  using scans_trans by blast

lemma leads_Cons:
  assumes "\<exists>y. http_char (char_int c) x = Break y \<and> s_nl y \<le> 1 \<and> Q (next_char y)"
    and "\<And>y. Q y \<Longrightarrow> \<exists>z. scans cs y z \<and> R z"
  shows "\<exists>z. scans (c # cs) x z \<and> R z"
  using assms scans_Cons by blast

lemma leads_one: "\<exists>y. http_char (char_int c) x = Break y \<and> s_nl y \<le> 1 \<and> Q (next_char y) \<Longrightarrow> \<exists>z. scans [c] x z \<and> Q z"
  using scans_one by blast

lemma char_method_sp:
  assumes "s_st x = h_method_sp" "c \<noteq> SP"
  shows "http_char c x = http_char c (x\<lparr>s_st := h_path, c_b := s_m x, c_rq := (c_rq x)\<lparr>rq_path := ti_text (c_text x)\<rparr>\<rparr>)"
proof -
  let ?y = "(mark x)\<lparr>c_rq := (c_rq x)\<lparr>rq_path := ti_text (c_text x)\<rparr>, s_st := h_path\<rparr>"
  have 1: "http_switch c x = Again c ?y"
    using assms by (simp add: http_switch_def sw_method_sp_def reset_def mark_def)
  have 2: "?y = x\<lparr>s_st := h_path, c_b := s_m x, c_rq := (c_rq x)\<lparr>rq_path := ti_text (c_text x)\<rparr>\<rparr>"
    by (cases x) (simp add: mark_def)
  show ?thesis unfolding 2 [symmetric] using 1
    by (rule char_again [OF _ settles_2])
      (auto simp: http_switch_def sw_path_def putc_or_def reset_def shift_def Let_def split: option.splits if_splits)
qed

definition newline :: "bool \<Rightarrow> bytes" where
  "newline cr = (if cr then [CHR 0x0D, CHR 0x0A] else [CHR 0x0A])"

text \<open>The end of a path or a query.\<close>

lemma char_target_end:
  assumes "s_st x \<in> {h_path, h_query}" "reads_target x" "0 < text_room (c_text x)"
  shows "\<exists>y. http_char (char_int (CHR '' '')) x = Break y \<and> s_nl y \<le> 1 \<and> kept x (next_char y) \<and> s_st (next_char y) = h_path_sp
    \<and> c_rq (next_char y) = c_rq x \<and> text_adds [NUL] [] (c_text x) (c_text (next_char y))"
proof -
  have "\<not> uri_pchar 32" "\<not> uri_uric 32" by code_simp+
  then show ?thesis using assms putc_or_adds [of x]
    by (auto simp: reads_target_def char_ints char_looks http_switch_def sw_path_def sw_query_def mark_def shift_def kept_def)
qed

lemma char_question:
  assumes "s_st x = h_path" "reads_target x" "0 < text_room (c_text x)"
  shows "\<exists>y. http_char (char_int (CHR ''?'')) x = Break y \<and> s_nl y \<le> 1 \<and> kept x (next_char y) \<and> s_st (next_char y) = h_query
    \<and> text_adds [NUL] [] (c_text x) (c_text (next_char y))
    \<and> c_rq (next_char y) = (c_rq x)\<lparr>rq_query := ti_text (c_text (next_char y))\<rparr>"
proof -
  have "\<not> uri_pchar 63" by code_simp
  then show ?thesis using assms putc_or_adds [of x]
    by (auto simp: reads_target_def char_ints char_looks http_switch_def sw_path_def mark_def shift_def kept_def Let_def)
qed

section \<open>The version\<close>

fun version_digits :: "http_version \<Rightarrow> string" where
  "version_digits http_0_9 = ''0.9''"
| "version_digits http_1_0 = ''1.0''"
| "version_digits http_1_1 = ''1.1''"
| "version_digits http_unknown_version = []"

lemma char_path_sp:
  assumes "s_st x = h_path_sp" "c \<noteq> SP"
  shows "http_char c x = http_char c (x\<lparr>s_st := h_prot, c_tstate := \<lparr>ts_poff = 0, ts_slot = 0\<rparr>\<rparr>)"
proof -
  have 1: "http_switch c x = Again c (x\<lparr>s_st := h_prot, c_tstate := \<lparr>ts_poff = 0, ts_slot = 0\<rparr>\<rparr>)"
    using assms by (cases x) (simp add: http_switch_def sw_path_sp_def reset_def fresh_trie_def)
  show ?thesis using 1
    by (rule char_again [OF _ settles_2]) (auto simp: http_switch_def sw_prot_def walk_def reset_def split: option.splits if_splits)
qed

lemma scans_protocol:
  assumes "s_st x = h_path_sp" "s_nl x = 0"
  shows "\<exists>y. scans ''HTTP/'' x y \<and> kept x y \<and> s_st y = h_prot_slash \<and> c_rq y = c_rq x \<and> c_text y = c_text x"
proof -
  let ?z = "\<lparr>ts_poff = 0, ts_slot = 0\<rparr>"
  let ?x = "x\<lparr>s_st := h_prot, c_tstate := ?z\<rparr>"
  have "trie_lookup 47 utility_trie_map utility patinitial_protocol ''HTTP'' = Some http_proto" by code_simp
  then obtain ts ts' where w: "walk_word utility_trie_map utility patinitial_protocol ?z ''HTTP'' = Some ts"
      "walk_trie 0 (utility_trie_map 47) utility (Some patinitial_protocol) ts = Some (http_proto, ts')" "0 < http_proto"
    by (rule lookup_walk)
  have n: "char_int c \<noteq> 47" if "c \<in> set ''HTTP''" for c using that by (auto simp: char_int_def of_char_def)
  have "\<exists>y. scans ''HTTP'' ?x y \<and> kept_all ?x y \<and> c_tstate y = ts"
    by (rule scans_word [where f = "\<lambda>c. c" and ini = patinitial_protocol])
      (use n w(1,3) assms(2) in \<open>simp_all add: kept_all_def kept_def mark_def char_looks http_switch_def sw_prot_def walk_def
          http_proto_def del: walk_word.simps set_simps list.set\<close>)
  then have "\<exists>y. scans (''HTTP'' @ ''/'') ?x y \<and> kept x y \<and> s_st y = h_prot_slash \<and> c_rq y = c_rq x \<and> c_text y = c_text x"
  proof (rule leads_append)
    fix y
    assume y: "kept_all ?x y \<and> c_tstate y = ts"
    show "\<exists>z. scans ''/'' y z \<and> kept x z \<and> s_st z = h_prot_slash \<and> c_rq z = c_rq x \<and> c_text z = c_text x"
      using w(2,3) y assms(2) by (intro leads_one)
        (simp add: char_ints char_looks http_switch_def sw_prot_def walk_def mark_def shift_def kept_all_def kept_def)
  qed
  moreover have "http_char (char_int (CHR ''H'')) x = http_char (char_int (CHR ''H'')) ?x"
    using assms(1) by (intro char_path_sp) (simp_all add: char_int_blank)
  ultimately show ?thesis using scans_other [of "CHR ''H''" x ?x] by auto
qed

lemma scans_digits:
  assumes "s_st x = h_prot_slash" "s_nl x = 0" "s_httpv0 x = 0" "s_httpv1 x = 0"
    "rq_server_protocol (c_rq x) = http_unknown_version" "v \<noteq> http_unknown_version"
  shows "\<exists>y. scans (version_digits v @ newline cr) x y \<and> s_st y = h_nl \<and> s_nl y = 1 \<and> s_flags y = s_flags x \<and> s_hmask y = s_hmask x
    \<and> c_rq y = (c_rq x)\<lparr>rq_server_protocol := v\<rparr> \<and> c_text y = c_text x"
proof -
  have 1: "\<exists>y. scans (version_digits v) x y \<and> kept (x\<lparr>s_httpv0 := (if v = http_0_9 then 0 else 1),
        s_httpv1 := (if v = http_0_9 then 9 else if v = http_1_0 then 0 else 1)\<rparr>) y
      \<and> s_st y = h_prot_http_x_dot \<and> c_rq y = c_rq x \<and> c_text y = c_text x" (is "\<exists>y. _ \<and> ?Q y")
  proof -
    obtain a b where v: "version_digits v = [a, CHR ''.'', b]" using assms(6) by (cases v) auto
    show ?thesis unfolding v
    proof (rule leads_Cons)
      show "\<exists>y. http_char (char_int a) x = Break y \<and> s_nl y \<le> 1 \<and> (kept (x\<lparr>s_httpv0 := (if v = http_0_9 then 0 else 1)\<rparr>) (next_char y)
          \<and> s_st (next_char y) = h_prot_slash \<and> c_rq (next_char y) = c_rq x \<and> c_text (next_char y) = c_text x)"
        using v assms by (cases v) (auto simp: char_ints char_looks http_switch_def sw_prot_slash_def kept_def)
    next
      fix y
      assume y: "kept (x\<lparr>s_httpv0 := (if v = http_0_9 then 0 else 1)\<rparr>) y \<and> s_st y = h_prot_slash \<and> c_rq y = c_rq x \<and> c_text y = c_text x"
      show "\<exists>z. scans [CHR ''.'', b] y z \<and> ?Q z"
      proof (rule leads_Cons)
        show "\<exists>z. http_char (char_int (CHR ''.'')) y = Break z \<and> s_nl z \<le> 1 \<and> (kept y (next_char z)
            \<and> s_st (next_char z) = h_prot_http_x_dot \<and> c_rq (next_char z) = c_rq x \<and> c_text (next_char z) = c_text x)"
          using y assms(2) by (auto simp: char_ints char_looks http_switch_def sw_prot_slash_def sw_prot_http_x_def reset_def shift_def kept_def)
      next
        fix z
        assume z: "kept y z \<and> s_st z = h_prot_http_x_dot \<and> c_rq z = c_rq x \<and> c_text z = c_text x"
        show "\<exists>u. scans [b] z u \<and> ?Q u"
          using v y z assms by (intro leads_one; cases v) (auto simp: char_ints char_looks http_switch_def sw_prot_http_x_dot_def kept_def)
      qed
    qed
  qed
  show ?thesis
  proof (rule leads_append [OF 1])
    fix y
    assume y: "?Q y"
    have r: "c_rq x = (c_rq x)\<lparr>rq_server_protocol := http_unknown_version\<rparr>" using assms(5) by (cases "c_rq x") simp
    show "\<exists>z. scans (newline cr) y z \<and> s_st z = h_nl \<and> s_nl z = 1 \<and> s_flags z = s_flags x \<and> s_hmask z = s_hmask x
        \<and> c_rq z = (c_rq x)\<lparr>rq_server_protocol := v\<rparr> \<and> c_text z = c_text x" (is "\<exists>z. _ \<and> ?R z")
    proof (cases cr)
      case False
      then show ?thesis using y assms unfolding newline_def by (simp, intro leads_one; cases v)
        (auto simp: char_ints char_looks http_switch_def sw_prot_http_x_dot_def sw_prot_http_x_x_def reset_def shift_def kept_def Let_def)
    next
      case True
      have "\<exists>z. scans [CHR 0x0D, CHR 0x0A] y z \<and> ?R z"
      proof (rule leads_Cons)
        show "\<exists>z. http_char (char_int (CHR 0x0D)) y = Break z \<and> s_nl z \<le> 1 \<and> (kept y (next_char z) \<and> s_st (next_char z) = h_cr
            \<and> c_rq (next_char z) = (c_rq x)\<lparr>rq_server_protocol := v\<rparr> \<and> c_text (next_char z) = c_text x)"
          using y assms by (cases v)
            (auto simp: char_ints char_looks http_switch_def sw_prot_http_x_dot_def sw_prot_http_x_x_def reset_def shift_def kept_def Let_def)
      next
        fix z
        assume "kept y z \<and> s_st z = h_cr \<and> c_rq z = (c_rq x)\<lparr>rq_server_protocol := v\<rparr> \<and> c_text z = c_text x"
        then show "\<exists>u. scans [CHR 0x0A] z u \<and> ?R u"
          using y assms(2) by (intro leads_one) (auto simp: char_ints char_looks http_switch_def sw_cr_def shift_def kept_def)
      qed
      then show ?thesis using True by (simp add: newline_def)
    qed
  qed
qed

section \<open>The whole line\<close>

fun query_text :: "uri_char list option \<Rightarrow> bytes" where
  "query_text None = []"
| "query_text (Some q) = CHR ''?'' # concat (map uri_text q)"

fun query_value :: "uri_char list option \<Rightarrow> bytes" where
  "query_value None = []"
| "query_value (Some q) = map uri_value q @ [NUL]"

definition target_value :: "uri_char list \<Rightarrow> uri_char list option \<Rightarrow> bytes" where
  "target_value path query = map uri_value path @ [NUL] @ query_value query"

definition request_line :: "string \<Rightarrow> uri_char list \<Rightarrow> uri_char list option \<Rightarrow> http_version \<Rightarrow> bool \<Rightarrow> bytes" where
  "request_line m path query v cr =
     (m @ '' '') @ concat (map uri_text path) @ query_text query @ '' '' @ ''HTTP/'' @ version_digits v @ newline cr"

definition line_ok :: "string \<Rightarrow> http_method \<Rightarrow> uri_char list \<Rightarrow> uri_char list option \<Rightarrow> http_version \<Rightarrow> bool" where
  "line_ok m h path query v \<longleftrightarrow> (m, method_code h) \<in> set method_dict \<and> path \<noteq> [] \<and> list_all (uri_ok path_char) path
     \<and> (case query of None \<Rightarrow> True | Some q \<Rightarrow> list_all (uri_ok uri_uric) q) \<and> v \<noteq> http_unknown_version"

lemma text_adds_pos_word:
  assumes "textint_ok t" "text_adds ws is t t'"
  shows "ti_text t' = ti_text t + of_nat (length ws)"
  using arg_cong [OF text_adds_pos(1) [OF assms], of "of_nat :: nat \<Rightarrow> unsigned"] by simp

lemma scans_path:
  assumes "s_st x = h_method_sp" "path \<noteq> []" "list_all (uri_ok path_char) path" "reads_target x" "length path \<le> text_room (c_text x)"
  shows "\<exists>y. scans (concat (map uri_text path)) x y \<and> kept x y \<and> s_st y = h_path
    \<and> c_rq y = (c_rq x)\<lparr>rq_path := ti_text (c_text x)\<rparr> \<and> text_adds (map uri_value path) [] (c_text x) (c_text y)"
proof -
  let ?x = "x\<lparr>s_st := h_path, c_b := s_m x, c_rq := (c_rq x)\<lparr>rq_path := ti_text (c_text x)\<rparr>\<rparr>"
  obtain y where y: "scans (concat (map uri_text path)) ?x y" "kept ?x y" "s_st y = s_st ?x" "c_rq y = c_rq ?x"
      "text_adds (map uri_value path) [] (c_text ?x) (c_text y)"
    using scans_target [of ?x path] assms(3-5) by (auto simp: reads_target_def)
  obtain c cs where c: "concat (map uri_text path) = c # cs" "char_int c \<noteq> SP"
  proof (cases "hd path")
    case (Plain d)
    then show ?thesis using assms(2,3) that [of d] by (cases path) (auto simp: path_char_def uri_pchar_def uri_unreserved_def
        uri_alphanum_def uri_mark_def)
  next
    case (Escaped a b)
    then show ?thesis using assms(2) that [of "CHR ''%''"] by (cases path) (auto simp: char_ints)
  qed
  have "scans (c # cs) x y"
    using scans_other [OF char_method_sp [OF assms(1) c(2)]] y(1) unfolding c(1) .
  then show ?thesis using y(2-5) c(1) by (auto simp: kept_def)
qed

lemma scans_query:
  assumes "s_st x = h_path" "case query of None \<Rightarrow> True | Some q \<Rightarrow> list_all (uri_ok uri_uric) q" "reads_target x"
    "length (query_value query) < text_room (c_text x)"
  shows "\<exists>y. scans (query_text query @ '' '') x y \<and> kept x y \<and> s_st y = h_path_sp
    \<and> c_rq y = (c_rq x)\<lparr>rq_query := (if query = None then rq_query (c_rq x) else ti_text (c_text x) + 1)\<rparr>
    \<and> text_adds (NUL # query_value query) [] (c_text x) (c_text y)"
proof (cases query)
  case None
  have "\<exists>y. scans '' '' x y \<and> (kept x y \<and> s_st y = h_path_sp \<and> c_rq y = c_rq x \<and> text_adds [NUL] [] (c_text x) (c_text y))"
    using char_target_end [of x] assms by (intro leads_one) auto
  then show ?thesis using None by auto
next
  case (Some q)
  note ok = assms(3) [unfolded reads_target_def]
  have "\<exists>y. scans (CHR ''?'' # concat (map uri_text q) @ '' '') x y \<and> kept x y \<and> s_st y = h_path_sp
    \<and> c_rq y = (c_rq x)\<lparr>rq_query := ti_text (c_text x) + 1\<rparr> \<and> text_adds (NUL # map uri_value q @ [NUL]) [] (c_text x) (c_text y)"
  proof (rule leads_Cons)
    show "\<exists>y. http_char (char_int (CHR ''?'')) x = Break y \<and> s_nl y \<le> 1 \<and> (kept x (next_char y) \<and> s_st (next_char y) = h_query
        \<and> text_adds [NUL] [] (c_text x) (c_text (next_char y))
        \<and> c_rq (next_char y) = (c_rq x)\<lparr>rq_query := ti_text (c_text (next_char y))\<rparr>)"
      using char_question [of x] assms by auto
  next
    fix y
    assume y: "kept x y \<and> s_st y = h_query \<and> text_adds [NUL] [] (c_text x) (c_text y)
      \<and> c_rq y = (c_rq x)\<lparr>rq_query := ti_text (c_text y)\<rparr>"
    have t: "reads_target y" using y ok by (auto simp: reads_target_def kept_def text_adds_def)
    have pos: "ti_text (c_text y) = ti_text (c_text x) + 1" "length q + 1 \<le> text_room (c_text y)"
      using text_adds_pos_word [of "c_text x" "[NUL]" "[]"] text_adds_room [of "c_text x" "[NUL]" "[]"] y ok assms(4) Some by auto
    have q: "\<exists>z. scans (concat (map uri_text q)) y z \<and> (kept y z \<and> s_st z = s_st y \<and> c_rq z = c_rq y
        \<and> text_adds (map uri_value q) [] (c_text y) (c_text z))"
      using scans_target [of y q] y t pos(2) assms(2) Some by auto
    show "\<exists>z. scans (concat (map uri_text q) @ '' '') y z \<and> kept x z \<and> s_st z = h_path_sp
      \<and> c_rq z = (c_rq x)\<lparr>rq_query := ti_text (c_text x) + 1\<rparr> \<and> text_adds (NUL # map uri_value q @ [NUL]) [] (c_text x) (c_text z)"
    proof (rule leads_append [OF q])
      fix z
      assume z: "kept y z \<and> s_st z = s_st y \<and> c_rq z = c_rq y \<and> text_adds (map uri_value q) [] (c_text y) (c_text z)"
      have "reads_target z" using z t by (auto simp: reads_target_def kept_def text_adds_def)
      moreover have "0 < text_room (c_text z)"
        using text_adds_room [of "c_text y" "map uri_value q" "[]"] z t pos(2) by (auto simp: reads_target_def)
      ultimately have "\<exists>u. scans '' '' z u \<and> (kept z u \<and> s_st u = h_path_sp \<and> c_rq u = c_rq z \<and> text_adds [NUL] [] (c_text z) (c_text u))"
        using char_target_end [of z] z y by (intro leads_one) auto
      moreover have "text_adds (NUL # map uri_value q @ [NUL]) [] (c_text x) (c_text u)"
        if "text_adds [NUL] [] (c_text z) (c_text u)" for u
        using text_adds_trans [OF text_adds_trans, of "[NUL]" "[]" "c_text x" "c_text y" "map uri_value q" "[]" "c_text z" "[NUL]" "[]"]
          y z that by auto
      ultimately show "\<exists>u. scans '' '' z u \<and> kept x u \<and> s_st u = h_path_sp
          \<and> c_rq u = (c_rq x)\<lparr>rq_query := ti_text (c_text x) + 1\<rparr> \<and> text_adds (NUL # map uri_value q @ [NUL]) [] (c_text x) (c_text u)"
        using y z pos(1) by (auto simp: kept_def)
    qed
  qed
  then show ?thesis using Some by simp
qed

lemma scans_line:
  assumes "s_st x = h_initial" "s_nl x = 0" "s_httpv0 x = 0" "s_httpv1 x = 0" "rq_server_protocol (c_rq x) = http_unknown_version"
    and "textint_ok (c_text x)" "line_ok m h path query v" "length (target_value path query) \<le> text_room (c_text x)"
  shows "\<exists>y. scans (request_line m path query v cr) x y \<and> s_st y = h_nl \<and> s_nl y = 1 \<and> s_flags y = s_flags x \<and> s_hmask y = s_hmask x
    \<and> c_rq y = (c_rq x)\<lparr>rq_server_protocol := v, rq_request_method := h, rq_path := ti_text (c_text x),
         rq_query := (if query = None then rq_query (c_rq x) else ti_text (c_text x) + of_nat (length path + 1))\<rparr>
    \<and> text_adds (target_value path query) [] (c_text x) (c_text y)" (is "\<exists>y. _ \<and> ?R y")
proof -
  note l = assms(7) [unfolded line_ok_def]
  have room: "length path + length (query_value query) < text_room (c_text x)" using assms(8) by (simp add: target_value_def)
  show ?thesis unfolding request_line_def
  proof (rule leads_append)
    show "\<exists>y. scans (m @ '' '') x y \<and> (kept x y \<and> s_st y = h_method_sp \<and> c_text y = c_text x
        \<and> c_rq y = (c_rq x)\<lparr>rq_request_method := h\<rparr>)"
      using scans_method [of m h x] l assms(1,2) by auto
  next
    fix y1
    assume y1: "kept x y1 \<and> s_st y1 = h_method_sp \<and> c_text y1 = c_text x \<and> c_rq y1 = (c_rq x)\<lparr>rq_request_method := h\<rparr>"
    have t1: "reads_target y1" using y1 assms(2,6) by (auto simp: reads_target_def kept_def)
    show "\<exists>z. scans (concat (map uri_text path) @ query_text query @ '' '' @ ''HTTP/'' @ version_digits v @ newline cr) y1 z \<and> ?R z"
    proof (rule leads_append)
      show "\<exists>y. scans (concat (map uri_text path)) y1 y \<and> (kept y1 y \<and> s_st y = h_path
          \<and> c_rq y = (c_rq y1)\<lparr>rq_path := ti_text (c_text y1)\<rparr> \<and> text_adds (map uri_value path) [] (c_text y1) (c_text y))"
        using scans_path [of y1 path] y1 t1 l room by auto
    next
      fix y2
      assume y2: "kept y1 y2 \<and> s_st y2 = h_path \<and> c_rq y2 = (c_rq y1)\<lparr>rq_path := ti_text (c_text y1)\<rparr>
        \<and> text_adds (map uri_value path) [] (c_text y1) (c_text y2)"
      have t2: "reads_target y2" using y2 t1 by (auto simp: reads_target_def kept_def text_adds_def)
      have p2: "ti_text (c_text y2) = ti_text (c_text x) + of_nat (length path)" "length (query_value query) < text_room (c_text y2)"
        using text_adds_pos_word [of "c_text x" "map uri_value path" "[]"] text_adds_room [of "c_text x" "map uri_value path" "[]"]
          y1 y2 assms(6) room by auto
      have "\<exists>z. scans ((query_text query @ '' '') @ ''HTTP/'' @ version_digits v @ newline cr) y2 z \<and> ?R z"
      proof (rule leads_append)
        show "\<exists>y. scans (query_text query @ '' '') y2 y \<and> (kept y2 y \<and> s_st y = h_path_sp
          \<and> c_rq y = (c_rq y2)\<lparr>rq_query := (if query = None then rq_query (c_rq y2) else ti_text (c_text y2) + 1)\<rparr>
          \<and> text_adds (NUL # query_value query) [] (c_text y2) (c_text y))"
          using scans_query [of y2 query] y2 t2 p2(2) l by auto
      next
        fix y3
        assume y3: "kept y2 y3 \<and> s_st y3 = h_path_sp
          \<and> c_rq y3 = (c_rq y2)\<lparr>rq_query := (if query = None then rq_query (c_rq y2) else ti_text (c_text y2) + 1)\<rparr>
          \<and> text_adds (NUL # query_value query) [] (c_text y2) (c_text y3)"
        have k: "s_nl y3 = 0" "s_httpv0 y3 = 0" "s_httpv1 y3 = 0" "s_flags y3 = s_flags x" "s_hmask y3 = s_hmask x"
          using y1 y2 y3 assms(2-4) by (auto simp: kept_def)
        have rq: "c_rq y3 = (c_rq x)\<lparr>rq_request_method := h, rq_path := ti_text (c_text x),
            rq_query := (if query = None then rq_query (c_rq x) else ti_text (c_text x) + of_nat (length path + 1))\<rparr>"
          using y1 y2 y3 p2(1) by (simp add: add.assoc add.commute)
        have tx: "text_adds (target_value path query) [] (c_text x) (c_text y3)"
          using text_adds_trans [of "map uri_value path" "[]" "c_text x" "c_text y2" "NUL # query_value query" "[]" "c_text y3"] y1 y2 y3
          by (simp add: target_value_def)
        show "\<exists>z. scans (''HTTP/'' @ version_digits v @ newline cr) y3 z \<and> ?R z"
        proof (rule leads_append)
          show "\<exists>y. scans ''HTTP/'' y3 y \<and> (kept y3 y \<and> s_st y = h_prot_slash \<and> c_rq y = c_rq y3 \<and> c_text y = c_text y3)"
            using scans_protocol [of y3] y3 k(1) by auto
        next
          fix y4
          assume y4: "kept y3 y4 \<and> s_st y4 = h_prot_slash \<and> c_rq y4 = c_rq y3 \<and> c_text y4 = c_text y3"
          then obtain z where "scans (version_digits v @ newline cr) y4 z" "s_st z = h_nl" "s_nl z = 1" "s_flags z = s_flags y4"
              "s_hmask z = s_hmask y4" "c_rq z = (c_rq y4)\<lparr>rq_server_protocol := v\<rparr>" "c_text z = c_text y4"
            using scans_digits [of y4 v cr] k rq l assms(5) by (auto simp: kept_def)
          then show "\<exists>z. scans (version_digits v @ newline cr) y4 z \<and> ?R z"
            using y4 k rq tx by (intro exI [of _ z]) (simp add: kept_def)
        qed
      qed
      then show "\<exists>z. scans (query_text query @ '' '' @ ''HTTP/'' @ version_digits v @ newline cr) y2 z \<and> ?R z" by simp
    qed
  qed
qed

end
