(* ===== verification/Http_Fields.thy ===== *)
theory Http_Fields
  imports Http_Line "HOL-Library.Sublist"
begin

text \<open>
  What the parser makes of a header line, the states \<open>h_nl\<close> to \<open>h_skipline\<close> of
  \<open>src/libhttp/http.c\<close>: the names in the trie, the values that are collected, the headers the
  server reads itself.
\<close>

section \<open>The rest of a line\<close>

definition plain_char :: "char \<Rightarrow> bool" where
  "plain_char c \<longleftrightarrow> c \<noteq> NUL \<and> char_int c \<notin> {CR, LF, H_EOF}"

definition line_end :: "http_ctx \<Rightarrow> http_ctx \<Rightarrow> bool" where
  "line_end x y \<longleftrightarrow> s_st y = h_nl \<and> s_nl y = 1 \<and> s_hmask y = s_hmask x"

lemma scans_break_line:
  assumes "s_nl x = 0"
    and cr: "\<exists>y. http_char 13 x = Break y \<and> s_st y = h_cr \<and> s_nl y = 0 \<and> s_hmask y = s_hmask x \<and> Q (c_rq y) (c_text y)"
    and lf: "\<exists>y. http_char 10 x = Break y \<and> s_st y = h_nl \<and> s_nl y = 1 \<and> s_hmask y = s_hmask x \<and> Q' (c_rq y) (c_text y)"
  shows "\<exists>y. scans (newline b) x y \<and> line_end x y \<and> (if b then Q else Q') (c_rq y) (c_text y)"
proof (cases b)
  case False
  have "\<exists>y. scans [CHR 0x0A] x y \<and> (line_end x y \<and> Q' (c_rq y) (c_text y))"
    using lf by (intro leads_one) (auto simp: char_ints line_end_def)
  then show ?thesis using False by (simp add: newline_def)
next
  case True
  have "\<exists>y. scans [CHR 0x0D, CHR 0x0A] x y \<and> (line_end x y \<and> Q (c_rq y) (c_text y))"
  proof (rule leads_Cons)
    show "\<exists>y. http_char (char_int (CHR 0x0D)) x = Break y \<and> s_nl y \<le> 1 \<and> (s_st (next_char y) = h_cr \<and> s_nl (next_char y) = 0
        \<and> s_hmask (next_char y) = s_hmask x \<and> Q (c_rq (next_char y)) (c_text (next_char y)))"
      using cr by (auto simp: char_ints)
  next
    fix y :: http_ctx
    assume y: "s_st y = h_cr \<and> s_nl y = 0 \<and> s_hmask y = s_hmask x \<and> Q (c_rq y) (c_text y)"
    then show "\<exists>z. scans [CHR 0x0A] y z \<and> (line_end x z \<and> Q (c_rq z) (c_text z))"
      by (intro leads_one) (auto simp: char_ints char_looks http_switch_def sw_cr_def shift_def line_end_def)
  qed
  then show ?thesis using True by (simp add: newline_def)
qed

lemma char_skip:
  assumes "s_st x = h_skipline" "c \<notin> {CR, LF, H_EOF}"
  shows "http_char c x = Break (mark x)"
  using assms by (simp add: char_looks http_switch_def sw_skipline_def Let_def)

lemma scans_skip_end:
  assumes "s_st x = h_skipline" "s_nl x = 0"
  shows "\<exists>y. scans (newline b) x y \<and> line_end x y \<and> c_rq y = c_rq x \<and> c_text y = c_text x"
  using scans_break_line [of x "\<lambda>rq t. rq = c_rq x \<and> t = c_text x" "\<lambda>rq t. rq = c_rq x \<and> t = c_text x" b] assms
  by (auto simp: char_looks http_switch_def sw_skipline_def mark_def shift_def Let_def)

lemma scans_skip:
  assumes "s_st x = h_skipline" "s_nl x = 0" "list_all plain_char v"
  shows "\<exists>y. scans (v @ newline b) x y \<and> line_end x y \<and> c_rq y = c_rq x \<and> c_text y = c_text x"
  using assms
proof (induction v arbitrary: x)
  case Nil
  then show ?case using scans_skip_end by simp
next
  case (Cons c v)
  have "\<exists>y. scans ((c # v) @ newline b) x y \<and> (line_end x y \<and> c_rq y = c_rq x \<and> c_text y = c_text x)"
    unfolding append_Cons
  proof (rule leads_Cons)
    show "\<exists>y. http_char (char_int c) x = Break y \<and> s_nl y \<le> 1 \<and> (s_st (next_char y) = h_skipline \<and> s_nl (next_char y) = 0
        \<and> s_hmask (next_char y) = s_hmask x \<and> c_rq (next_char y) = c_rq x \<and> c_text (next_char y) = c_text x)"
      using Cons.prems char_skip [of x "char_int c"] by (auto simp: plain_char_def mark_def)
  next
    fix y :: http_ctx
    assume "s_st y = h_skipline \<and> s_nl y = 0 \<and> s_hmask y = s_hmask x \<and> c_rq y = c_rq x \<and> c_text y = c_text x"
    then show "\<exists>z. scans (v @ newline b) y z \<and> (line_end x z \<and> c_rq z = c_rq x \<and> c_text z = c_text x)"
      using Cons.IH [of y] Cons.prems(3) by (auto simp: line_end_def)
  qed
  then show ?case by simp
qed

section \<open>A value that is collected\<close>

definition blank :: "char \<Rightarrow> bool" where
  "blank c \<longleftrightarrow> char_int c = SP \<or> char_int c = HT"

text \<open>Blanks in front are dropped, others become one space.\<close>

fun squeeze :: "bool \<Rightarrow> string \<Rightarrow> string" where
  "squeeze lead [] = []"
| "squeeze lead (c # cs) =
     (if blank c then (if lead then squeeze True cs else CHR '' '' # squeeze True cs) else c # squeeze False cs)"

text \<open>The two states of a value, \<open>h_value_lead\<close> behind a blank.\<close>

definition at_value :: "bool \<Rightarrow> http_ctx \<Rightarrow> bool" where
  "at_value lead x \<longleftrightarrow> (if lead then s_st x = h_value_lead \<and> s_est x = h_value else s_st x = h_value) \<and> s_nl x = 0"

lemma char_value_lead:
  assumes "s_st x = h_value_lead" "s_est x = h_value" "c \<notin> {SP, HT}"
  shows "http_char c x = http_char c (x\<lparr>s_st := h_value, c_b := s_m x\<rparr>)"
proof -
  have 1: "http_switch c x = Again c (x\<lparr>s_st := h_value, c_b := s_m x\<rparr>)"
    using assms by (cases x) (simp add: http_switch_def sw_value_lead_def reset_def mark_def)
  then show ?thesis
    by (rule char_again [OF _ settles_2])
      (auto simp: http_switch_def sw_value_def putc_or_def Let_def split: option.splits if_splits)
qed

lemma scans_value:
  assumes "at_value lead x" "textint_ok (c_text x)" "list_all plain_char v" "length (squeeze lead v) < text_room (c_text x)"
  shows "\<exists>y. scans (v @ newline b) x y \<and> line_end x y \<and> c_rq y = c_rq x
    \<and> text_adds (squeeze lead v @ [NUL]) [] (c_text x) (c_text y)"
  using assms
proof (induction v arbitrary: lead x)
  case Nil
  let ?Q = "\<lambda>rq t. rq = c_rq x \<and> text_adds [NUL] [] (c_text x) t"
  obtain u where u: "http_char 13 x = http_char 13 u" "http_char 10 x = http_char 10 u" "s_st u = h_value" "s_nl u = 0"
      "c_text u = c_text x" "c_rq u = c_rq x" "s_hmask u = s_hmask x"
  proof (cases lead)
    case True
    then show ?thesis using Nil.prems(1) char_value_lead [of x] that [of "x\<lparr>s_st := h_value, c_b := s_m x\<rparr>"]
      by (simp add: at_value_def)
  next
    case False
    then show ?thesis using Nil.prems(1) that [of x] by (simp add: at_value_def)
  qed
  have r: "textint_ok (c_text u)" "0 < text_room (c_text u)" using Nil.prems(2,4) u(5) by simp_all
  have "\<exists>y. scans (newline b) x y \<and> line_end x y \<and> (if b then ?Q else ?Q) (c_rq y) (c_text y)"
  proof (rule scans_break_line)
    show "s_nl x = 0" using Nil.prems(1) by (simp add: at_value_def)
    show "\<exists>y. http_char 13 x = Break y \<and> s_st y = h_cr \<and> s_nl y = 0 \<and> s_hmask y = s_hmask x \<and> ?Q (c_rq y) (c_text y)"
      using u r putc_or_adds(2) [OF r, of NUL]
      by (simp add: char_looks http_switch_def sw_value_def putc_or_adds(1) mark_def shift_def Let_def)
    show "\<exists>y. http_char 10 x = Break y \<and> s_st y = h_nl \<and> s_nl y = 1 \<and> s_hmask y = s_hmask x \<and> ?Q (c_rq y) (c_text y)"
      using u r putc_or_adds(2) [OF r, of NUL]
      by (simp add: char_looks http_switch_def sw_value_def putc_or_adds(1) mark_def shift_def Let_def)
  qed
  then show ?case by simp
next
  case (Cons c v)
  let ?w = "if blank c then (if lead then [] else '' '') else [c]"
  have w: "squeeze lead (c # v) = ?w @ squeeze (blank c) v" by simp
  have "\<exists>y. scans (c # v @ newline b) x y \<and> (line_end x y \<and> c_rq y = c_rq x
      \<and> text_adds ((?w @ squeeze (blank c) v) @ [NUL]) [] (c_text x) (c_text y))"
  proof (rule leads_Cons)
    have p: "c \<noteq> NUL" "char_int c \<notin> {CR, LF, H_EOF}" using Cons.prems(3) by (auto simp: plain_char_def)
    have r: "0 < text_room (c_text x)" using Cons.prems(4) by linarith
    show "\<exists>y. http_char (char_int c) x = Break y \<and> s_nl y \<le> 1 \<and> (at_value (blank c) (next_char y)
        \<and> s_hmask (next_char y) = s_hmask x \<and> c_rq (next_char y) = c_rq x \<and> text_adds ?w [] (c_text x) (c_text (next_char y)))"
    proof (cases "blank c \<and> lead")
      case True
      then show ?thesis using Cons.prems(1,2)
        by (auto simp: at_value_def blank_def char_looks http_switch_def sw_value_lead_def text_adds_nil)
    next
      case False
      obtain u where u: "http_char (char_int c) x = http_char (char_int c) u" "s_st u = h_value" "s_nl u = 0"
          "c_text u = c_text x" "c_rq u = c_rq x" "s_hmask u = s_hmask x"
      proof (cases lead)
        case True
        then show ?thesis using Cons.prems(1) False char_value_lead [of x "char_int c"] that [of "x\<lparr>s_st := h_value, c_b := s_m x\<rparr>"]
          by (simp add: at_value_def blank_def)
      next
        case False
        then show ?thesis using Cons.prems(1) that [of x] by (simp add: at_value_def)
      qed
      have ok: "textint_ok (c_text u)" "0 < text_room (c_text u)" using Cons.prems(2) r u(4) by simp_all
      show ?thesis
      proof (cases "blank c")
        case True
        then show ?thesis using u ok p putc_or_adds(2) [OF ok, of "CHR '' ''"] False
          by (auto simp: at_value_def blank_def char_looks http_switch_def sw_value_def putc_or_adds(1) mark_def shift_def Let_def)
      next
        case False
        then show ?thesis using u ok p putc_or_adds(2) [OF ok, of c]
          by (simp add: at_value_def blank_def char_looks http_switch_def sw_value_def putc_or_adds(1) mark_def shift_def Let_def)
      qed
    qed
  next
    fix y :: http_ctx
    assume y: "at_value (blank c) y \<and> s_hmask y = s_hmask x \<and> c_rq y = c_rq x \<and> text_adds ?w [] (c_text x) (c_text y)"
    have "textint_ok (c_text y)" "length (squeeze (blank c) v) < text_room (c_text y)"
      using y text_adds_room [OF Cons.prems(2), of ?w "[]" "c_text y"] Cons.prems(4) unfolding w
      by (auto simp: text_adds_def)
    then obtain z where "scans (v @ newline b) y z" "line_end y z" "c_rq z = c_rq y"
        "text_adds (squeeze (blank c) v @ [NUL]) [] (c_text y) (c_text z)"
      using Cons.IH [of "blank c" y] y Cons.prems(3) by auto
    then show "\<exists>z. scans (v @ newline b) y z \<and> (line_end x z \<and> c_rq z = c_rq x
      \<and> text_adds ((?w @ squeeze (blank c) v) @ [NUL]) [] (c_text x) (c_text z))"
      using y text_adds_trans [of ?w "[]" "c_text x" "c_text y" "squeeze (blank c) v @ [NUL]" "[]" "c_text z"]
      by (intro exI [of _ z]) (simp add: line_end_def)
  qed
  then show ?case unfolding w by simp
qed

section \<open>Words that are in a trie, and words that are not\<close>

definition known :: "(string \<times> int) list \<Rightarrow> string \<Rightarrow> bool" where
  "known dict w \<longleftrightarrow> (\<exists>r. (w, r) \<in> set dict)"

text \<open>A word that is no beginning of a word of the dictionary either.\<close>

definition strange :: "(string \<times> int) list \<Rightarrow> string \<Rightarrow> bool" where
  "strange dict w \<longleftrightarrow> list_all (\<lambda>(v, r). \<not> prefix w v) dict"

context trie_table begin

lemma stuck_in_word:
  "valid ts \<Longrightarrow> NUL \<notin> set w \<Longrightarrow> walk_word cmap tree initial ts w = None
   \<Longrightarrow> \<exists>u c v t. w = u @ c # v \<and> walk_word cmap tree initial ts u = Some t
        \<and> walk_trie (char_int c) (cmap (char_int c)) tree (Some initial) t = Some (-1, t)"
proof (induction w arbitrary: ts)
  case (Cons c w)
  have "c \<noteq> NUL" using Cons.prems(2) by auto
  with Cons.prems(1) show ?case
  proof (cases rule: walk_char)
    case (step t)
    then obtain u d v t' where "w = u @ d # v" "walk_word cmap tree initial t u = Some t'"
        "walk_trie (char_int d) (cmap (char_int d)) tree (Some initial) t' = Some (-1, t')"
      using Cons.IH [of t] Cons.prems(2,3) by auto
    then show ?thesis using step by (intro exI [of _ "c # u"] exI [of _ d] exI [of _ v] exI [of _ t']) simp
  next
    case stuck
    then show ?thesis by (intro exI [of _ "[]"] exI [of _ c] exI [of _ w] exI [of _ ts]) simp
  qed
qed simp

lemma strange_stuck:
  assumes live: "\<And>p w u. path p = Some w \<Longrightarrow> pat_prefix (tree ! p) = Some u \<Longrightarrow> \<not> strange dict (w @ u)"
    and w: "strange dict w" "NUL \<notin> set w" "dict \<noteq> []"
  shows "\<exists>u c v t. w = u @ c # v \<and> walk_word cmap tree initial \<lparr>ts_poff = 0, ts_slot = 0\<rparr> u = Some t
        \<and> walk_trie (char_int c) (cmap (char_int c)) tree (Some initial) t = Some (-1, t)"
proof -
  have "walk_word cmap tree initial \<lparr>ts_poff = 0, ts_slot = 0\<rparr> w = None"
  proof (rule ccontr)
    assume "walk_word cmap tree initial \<lparr>ts_poff = 0, ts_slot = 0\<rparr> w \<noteq> None"
    then obtain ts where "walk_word cmap tree initial \<lparr>ts_poff = 0, ts_slot = 0\<rparr> w = Some ts" by auto
    then have ts: "valid ts" "spelled ts = w" using walk_word_sound valid_start w(2) by fastforce+
    show False
    proof (cases "ts_poff ts = 0")
      case True
      then have "w = []" using ts(2) by (simp add: spelled_def)
      then show False using w(1,3) by (cases dict) (auto simp: strange_def)
    next
      case False
      then obtain v u where vu: "path (ts_slot ts) = Some v" "pat_prefix (tree ! ts_slot ts) = Some u"
        using ts(1) by (auto simp: valid_def)
      then have "prefix w (v @ u)" using ts(2) False by (auto simp: spelled_def take_is_prefix)
      then have "\<not> strange dict w" using live [OF vu] by (auto simp: strange_def list_all_iff intro: prefix_order.trans)
      then show False using w(1) by simp
    qed
  qed
  then show ?thesis using stuck_in_word [OF valid_start(1)] w(2) by blast
qed

end

text \<open>No path of the tables in use leads nowhere.\<close>

definition nodes_live :: "patricia list \<Rightarrow> (nat \<times> string) list \<Rightarrow> (string \<times> int) list \<Rightarrow> bool" where
  "nodes_live tree nodes dict \<longleftrightarrow> dict \<noteq> [] \<and> list_all (\<lambda>(p, w).
     \<not> strange dict (w @ (case pat_prefix (tree ! p) of Some u \<Rightarrow> u | None \<Rightarrow> []))) nodes"

lemma nodes_liveD: "nodes_live tree nodes dict \<Longrightarrow> map_of nodes p = Some w \<Longrightarrow> pat_prefix (tree ! p) = Some u
    \<Longrightarrow> \<not> strange dict (w @ u)"
  using map_of_SomeD [of nodes p w] by (fastforce simp: nodes_live_def list_all_iff)

lemma tables_live: "nodes_live headers header_nodes header_dict" "nodes_live utility connection_nodes connection_dict"
  "nodes_live utility transfer_nodes transfer_dict" "nodes_live utility expect_nodes expect_dict"
  by code_simp+

section \<open>The name\<close>

definition name_char :: "char \<Rightarrow> bool" where
  "name_char c \<longleftrightarrow> plain_char c \<and> c \<noteq> CHR '':''"

lemma lower_colon: "lower c = 58 \<longleftrightarrow> c = 58"
  by (auto simp: lower_def)

lemma header_dict_chars: "(w, r) \<in> set header_dict \<Longrightarrow> 0 < r \<and> r < 2 ^ 31 \<and> w \<noteq> [] \<and> NUL \<notin> set w
    \<and> (\<forall>c \<in> set w. char_int c \<notin> {SP, HT, CR, LF, H_EOF, 58})"
proof -
  have "\<forall>(w, r) \<in> set header_dict. 0 < r \<and> r < 2 ^ 31 \<and> w \<noteq> [] \<and> NUL \<notin> set w \<and> (\<forall>c \<in> set w. char_int c \<notin> {SP, HT, CR, LF, H_EOF, 58})"
    by code_simp
  then show "(w, r) \<in> set header_dict \<Longrightarrow> 0 < r \<and> r < 2 ^ 31 \<and> w \<noteq> [] \<and> NUL \<notin> set w
    \<and> (\<forall>c \<in> set w. char_int c \<notin> {SP, HT, CR, LF, H_EOF, 58})" by blast
qed

lemma settles_header: "s_st x = h_header \<Longrightarrow> settles 2 c x"
  by (rule settles_2) (auto simp: http_switch_def sw_header_def sw_header_found_def walk_def puti_or_def reset_def Let_def
      split: option.splits if_splits)

lemma char_nl:
  assumes "s_st x = h_nl" "c \<notin> {CR, LF, SP, HT}"
  shows "http_char c x = http_char c (x\<lparr>s_nl := 0, s_st := h_header, c_b := s_m x, c_tstate := \<lparr>ts_poff = 0, ts_slot = 0\<rparr>\<rparr>)"
proof -
  have 1: "http_switch c x = Again c (x\<lparr>s_nl := 0, s_st := h_header, c_b := s_m x, c_tstate := \<lparr>ts_poff = 0, ts_slot = 0\<rparr>\<rparr>)"
    using assms by (cases x) (simp add: http_switch_def sw_nl_def reset_def mark_def fresh_trie_def Let_def)
  then show ?thesis by (rule char_again [OF _ settles_header]) simp_all
qed

lemma char_header:
  assumes "s_st x = h_header" "c \<noteq> 58" "walk_trie (lower c) (header_trie_map (lower c)) headers (Some patinitial_headers) (c_tstate x) = Some (0, ts)"
  shows "\<exists>y. http_char c x = Break y \<and> kept_all x y \<and> c_tstate y = ts"
  using assms lower_colon [of c] by (simp add: char_looks http_switch_def sw_header_def walk_def Let_def kept_all_def kept_def mark_def)

lemma char_header_strange:
  assumes "s_st x = h_header" "c \<noteq> 58" "c \<notin> {CR, LF, H_EOF}"
    "walk_trie (lower c) (header_trie_map (lower c)) headers (Some patinitial_headers) (c_tstate x) = Some (-1, ts)"
  shows "\<exists>y. http_char c x = Break y \<and> kept x y \<and> s_st y = h_skipline \<and> c_rq y = c_rq x \<and> c_text y = c_text x"
proof -
  let ?y = "x\<lparr>c_tstate := ts, s_st := h_skipline\<rparr>"
  have 1: "http_switch c x = Again (lower c) ?y"
    using assms lower_colon [of c] by (simp add: http_switch_def sw_header_def walk_def reset_def Let_def)
  have l: "lower c \<notin> {CR, LF, H_EOF}" using assms(3) by (auto simp: lower_def)
  have "http_char c x = http_char (lower c) ?y" by (rule char_again [OF 1 settles_1]) simp_all
  then show ?thesis using char_skip [of ?y "lower c"] l by (simp add: kept_def mark_def)
qed

definition same_data :: "http_ctx \<Rightarrow> http_ctx \<Rightarrow> bool" where
  "same_data x y \<longleftrightarrow> s_nl y = 0 \<and> s_hmask y = s_hmask x \<and> c_rq y = c_rq x \<and> c_text y = c_text x"

lemma name_chars:
  assumes "(map char_lower n, r) \<in> set header_dict" "c \<in> set n"
  shows "char_int c \<notin> {SP, HT, CR, LF, 58}"
proof -
  have "char_int (char_lower c) \<notin> {SP, HT, CR, LF, H_EOF, 58}" using header_dict_chars [OF assms(1)] assms(2) by simp
  then show ?thesis unfolding lower_char_int [symmetric] by (auto simp: lower_def)
qed

lemma scans_name:
  assumes "(map char_lower n, r) \<in> set header_dict" "s_st x = h_nl"
  shows "\<exists>y. scans n x y \<and> (s_st y = h_header \<and> same_data x y
    \<and> (\<exists>ts. walk_trie 0 (header_trie_map 58) headers (Some patinitial_headers) (c_tstate y) = Some (r, ts)))"
proof -
  let ?z = "\<lparr>ts_poff = 0, ts_slot = 0\<rparr>"
  let ?x = "x\<lparr>s_nl := 0, s_st := h_header, c_b := s_m x, c_tstate := ?z\<rparr>"
  note d = header_dict_chars [OF assms(1)]
  have nul: "NUL \<notin> set (map char_lower n)" using d by (elim conjE)
  have "trie_lookup 58 header_trie_map headers patinitial_headers (map char_lower n) = Some r"
    by (rule iffD2 [OF header_trie.lookup_iff [OF nul] assms(1)])
  then obtain ts ts' where w: "walk_word header_trie_map headers patinitial_headers ?z (map char_lower n) = Some ts"
      "walk_trie 0 (header_trie_map 58) headers (Some patinitial_headers) ts = Some (r, ts')"
    by (rule lookup_walk)
  have "\<exists>y. scans n ?x y \<and> kept_all ?x y \<and> c_tstate y = ts"
  proof (rule scans_word)
    fix c y t
    assume c: "c \<in> set n" "kept_all ?x y"
      "walk_trie (char_int (char_lower c)) (header_trie_map (char_int (char_lower c))) headers (Some patinitial_headers) (c_tstate y) = Some (0, t)"
    have "\<exists>z. http_char (char_int c) y = Break z \<and> kept_all y z \<and> c_tstate z = t"
      using c name_chars [OF assms(1) c(1)] by (intro char_header) (auto simp: kept_all_def lower_char_int)
    then show "\<exists>z. http_char (char_int c) y = Break z \<and> kept_all ?x z \<and> c_tstate z = t"
      using c(2) by (auto simp: kept_all_def kept_def)
  qed (use w(1) in simp_all)
  then obtain y where y: "scans n ?x y" "kept_all ?x y" "c_tstate y = ts" by blast
  obtain c cs where c: "n = c # cs" using d by (cases n) auto
  have "http_char (char_int c) x = http_char (char_int c) ?x"
    using name_chars [OF assms(1), of c] assms(2) c by (intro char_nl) auto
  then have "scans n x y" using y(1) scans_other unfolding c by blast
  then show ?thesis using y(2,3) w(2) by (auto simp: kept_all_def kept_def same_data_def)
qed

lemma char_lower_NUL: "char_lower c = NUL \<longleftrightarrow> c = NUL"
proof -
  have "char_int c = 0 \<longleftrightarrow> lower (char_int c) = 0" by (auto simp: lower_def)
  then show ?thesis using header_trie.char_int_zero_iff unfolding lower_char_int by simp
qed

lemma lower_no_NUL: "NUL \<notin> set n \<Longrightarrow> NUL \<notin> set (map char_lower n)"
  unfolding set_map by (metis imageE char_lower_NUL)

text \<open>A word that leaves the trie: the rest of the line is skipped.\<close>

lemma scans_stuck:
  assumes step: "\<And>d y ts. d \<in> set u \<Longrightarrow> kept_all x y \<Longrightarrow>
      walk_trie (char_int (char_lower d)) (cmap (char_int (char_lower d))) tree (Some ini) (c_tstate y) = Some (0, ts)
      \<Longrightarrow> \<exists>z. http_char (char_int d) y = Break z \<and> kept_all y z \<and> c_tstate z = ts"
    and stuck: "\<And>y. kept_all x y \<Longrightarrow> c_tstate y = t \<Longrightarrow>
      \<exists>z. http_char (char_int c) y = Break z \<and> kept y z \<and> s_st z = h_skipline \<and> c_rq z = c_rq y \<and> c_text z = c_text y"
    and x: "walk_word cmap tree ini (c_tstate x) (map char_lower u) = Some t" "s_nl x = 0" "list_all plain_char v"
  shows "\<exists>y. scans (u @ c # v @ newline b) x y \<and> (line_end x y \<and> c_rq y = c_rq x \<and> c_text y = c_text x)"
proof (rule leads_append)
  show "\<exists>y. scans u x y \<and> (kept_all x y \<and> c_tstate y = t)"
  proof (rule scans_word [OF _ x(1,2)])
    fix d y ts
    assume d: "d \<in> set u" "kept_all x y"
      "walk_trie (char_int (char_lower d)) (cmap (char_int (char_lower d))) tree (Some ini) (c_tstate y) = Some (0, ts)"
    show "\<exists>z. http_char (char_int d) y = Break z \<and> kept_all x z \<and> c_tstate z = ts"
      using step [OF d] d(2) by (auto simp: kept_all_def kept_def)
  qed
next
  fix y
  assume y: "kept_all x y \<and> c_tstate y = t"
  show "\<exists>z. scans (c # v @ newline b) y z \<and> (line_end x z \<and> c_rq z = c_rq x \<and> c_text z = c_text x)"
  proof (rule leads_Cons)
    show "\<exists>z. http_char (char_int c) y = Break z \<and> s_nl z \<le> 1 \<and> (s_st (next_char z) = h_skipline \<and> same_data x (next_char z))"
      using stuck [of y] y x(2) by (auto simp: kept_all_def kept_def same_data_def)
  next
    fix z
    assume "s_st z = h_skipline \<and> same_data x z"
    then show "\<exists>u. scans (v @ newline b) z u \<and> (line_end x u \<and> c_rq u = c_rq x \<and> c_text u = c_text x)"
      using scans_skip [of z v b] x(3) by (auto simp: same_data_def line_end_def)
  qed
qed

lemma scans_strange_name:
  assumes "strange header_dict (map char_lower n)" "list_all name_char n" "n \<noteq> []" "\<not> blank (hd n)" "s_st x = h_nl" "list_all plain_char v"
  shows "\<exists>y. scans (n @ '':'' @ v @ newline b) x y \<and> line_end x y \<and> c_rq y = c_rq x \<and> c_text y = c_text x"
proof -
  let ?z = "\<lparr>ts_poff = 0, ts_slot = 0\<rparr>"
  let ?x = "x\<lparr>s_nl := 0, s_st := h_header, c_b := s_m x, c_tstate := ?z\<rparr>"
  have "NUL \<notin> set n" using assms(2) by (auto simp: list_all_iff name_char_def plain_char_def)
  then have nul: "NUL \<notin> set (map char_lower n)" by (rule lower_no_NUL)
  have "\<exists>u c v t. map char_lower n = u @ c # v \<and> walk_word header_trie_map headers patinitial_headers ?z u = Some t
        \<and> walk_trie (char_int c) (header_trie_map (char_int c)) headers (Some patinitial_headers) t = Some (-1, t)"
    using header_trie.strange_stuck [OF nodes_liveD [OF tables_live(1)] assms(1) nul] tables_live(1) by (simp add: nodes_live_def)
  then obtain u c w t where n: "n = u @ c # w" and
    t: "walk_word header_trie_map headers patinitial_headers ?z (map char_lower u) = Some t"
      "walk_trie (char_int (char_lower c)) (header_trie_map (char_int (char_lower c))) headers (Some patinitial_headers) t = Some (-1, t)"
    by (auto simp: map_eq_append_conv map_eq_Cons_conv)
  have ok: "name_char d" if "d \<in> set n" for d using assms(2) that by (simp add: list_all_iff)
  have colon: "char_int d \<noteq> 58" if "d \<in> set n" for d
    using ok [OF that] char_ints(8) char_int_inject unfolding name_char_def by metis
  have "plain_char (CHR '':'')" by (simp add: plain_char_def char_ints)
  then have plain: "list_all plain_char (w @ '':'' @ v)" using ok n assms(6) by (auto simp: list_all_iff name_char_def)
  have "\<exists>y. scans (u @ c # (w @ '':'' @ v) @ newline b) ?x y \<and> (line_end ?x y \<and> c_rq y = c_rq ?x \<and> c_text y = c_text ?x)"
  proof (rule scans_stuck [OF _ _ _ _ plain])
    show "walk_word header_trie_map headers patinitial_headers (c_tstate ?x) (map char_lower u) = Some t" using t(1) by simp
  next
    fix d y ts
    assume "d \<in> set u" "kept_all ?x y"
      "walk_trie (char_int (char_lower d)) (header_trie_map (char_int (char_lower d))) headers (Some patinitial_headers) (c_tstate y) = Some (0, ts)"
    then show "\<exists>z. http_char (char_int d) y = Break z \<and> kept_all y z \<and> c_tstate z = ts"
      using colon n by (intro char_header) (auto simp: kept_all_def lower_char_int)
  next
    fix y
    assume "kept_all ?x y" "c_tstate y = t"
    then show "\<exists>z. http_char (char_int c) y = Break z \<and> kept y z \<and> s_st z = h_skipline \<and> c_rq z = c_rq y \<and> c_text z = c_text y"
      using ok [of c] colon [of c] n t(2) by (intro char_header_strange) (auto simp: kept_all_def lower_char_int name_char_def plain_char_def)
  qed simp
  then have "\<exists>y. scans (n @ '':'' @ v @ newline b) ?x y \<and> (line_end x y \<and> c_rq y = c_rq x \<and> c_text y = c_text x)"
    using n by (simp add: line_end_def)
  moreover obtain d ds where d: "n = d # ds" using assms(3) by (cases n) auto
  moreover have "http_char (char_int d) x = http_char (char_int d) ?x"
    using assms(4,5) ok [of d] d by (intro char_nl) (auto simp: name_char_def plain_char_def blank_def)
  ultimately show ?thesis using scans_other [of d x ?x] by auto
qed

section \<open>The colon\<close>

text \<open>The headers the server reads itself.\<close>

definition own_state :: "int \<Rightarrow> http_request_state option" where
  "own_state r =
     (if r = rq_code http_rq_connection then Some h_head_connection
      else if r = rq_code http_rq_content_length then Some h_head_content_length
      else if r = rq_code http_rq_expect then Some h_head_expect
      else if r = rq_code http_rq_transfer_encoding then Some h_head_transfer_encoding
      else None)"

lemma char_colon_own:
  assumes "s_st x = h_header" "s_nl x = 0" "walk_trie 0 (header_trie_map 58) headers (Some patinitial_headers) (c_tstate x) = Some (r, ts)"
    "0 < r" "own_state r = Some st"
  shows "\<exists>y. http_char 58 x = Break y \<and> s_st y = h_value_lead \<and> s_est y = st \<and> same_data x y
    \<and> c_tstate y = \<lparr>ts_poff = 0, ts_slot = 0\<rparr> \<and> (st = h_head_content_length \<longrightarrow> s_esc y = 0)"
  using assms
  by (auto simp: char_looks http_switch_def sw_header_def walk_def sw_header_found_def own_state_def lower_def shift_def
      fresh_trie_def mark_def same_data_def Let_def split: if_splits)

lemma char_colon_skipped:
  assumes "s_st x = h_header" "s_nl x = 0" "walk_trie 0 (header_trie_map 58) headers (Some patinitial_headers) (c_tstate x) = Some (r, ts)"
    "0 < r" "own_state r = None" "s_hmask x AND header_mask r = 0"
  shows "\<exists>y. http_char 58 x = Break y \<and> s_st y = h_skipline \<and> same_data x y"
  using assms
  by (auto simp: char_looks http_switch_def sw_header_def walk_def sw_header_found_def own_state_def lower_def shift_def
      fresh_trie_def mark_def same_data_def Let_def split: if_splits)

lemma char_colon_collected:
  assumes "s_st x = h_header" "s_nl x = 0" "walk_trie 0 (header_trie_map 58) headers (Some patinitial_headers) (c_tstate x) = Some (r, ts)"
    "0 < r" "own_state r = None" "s_hmask x AND header_mask r \<noteq> 0" "textint_ok (c_text x)" "8 < text_room (c_text x)"
  shows "\<exists>y. http_char 58 x = Break y \<and> at_value True y \<and> s_hmask y = s_hmask x \<and> c_rq y = c_rq x
    \<and> text_adds [] [c_int r, c_int (sint (ti_text (c_text x)))] (c_text x) (c_text y)"
proof -
  let ?t = "textint_addi r (c_text x)"
  have a: "text_adds [] [c_int r] (c_text x) ?t" using assms(8) by (intro puti_or_adds(2) assms(7)) simp
  have ok: "textint_ok ?t" "4 < text_room ?t"
    using a text_adds_room [OF assms(7) a] assms(8) by (simp_all add: text_adds_def)
  let ?u = "textint_addi (sint (ti_text (c_text x))) ?t"
  have "text_adds [] [c_int (sint (ti_text (c_text x)))] ?t ?u" using puti_or_adds(2) [of "x\<lparr>c_text := ?t\<rparr>"] ok by simp
  then have adds: "text_adds [] [c_int r, c_int (sint (ti_text (c_text x)))] (c_text x) ?u"
    using text_adds_trans [OF a] by fastforce
  show ?thesis using assms ok adds
    by (auto simp: char_looks http_switch_def sw_header_def walk_def sw_header_found_def own_state_def lower_def shift_def
      fresh_trie_def mark_def puti_or_adds(1) at_value_def Let_def split: if_splits)
qed

section \<open>Content-Length\<close>

lemma scans_blanks:
  assumes "s_st x = h_value_lead" "list_all blank bs" "s_nl x = 0"
  shows "\<exists>y. scans bs x y \<and> (kept_all x y \<and> c_tstate y = c_tstate x \<and> s_esc y = s_esc x)"
  using assms
proof (induction bs arbitrary: x)
  case Nil
  then show ?case by (simp add: kept_all_def kept_def)
next
  case (Cons c bs)
  show ?case
  proof (rule leads_Cons)
    show "\<exists>y. http_char (char_int c) x = Break y \<and> s_nl y \<le> 1
        \<and> (kept_all x (next_char y) \<and> c_tstate (next_char y) = c_tstate x \<and> s_esc (next_char y) = s_esc x)"
      using Cons.prems by (auto simp: blank_def char_looks http_switch_def sw_value_lead_def kept_all_def kept_def)
  next
    fix y
    assume "kept_all x y \<and> c_tstate y = c_tstate x \<and> s_esc y = s_esc x"
    then show "\<exists>z. scans bs y z \<and> (kept_all x z \<and> c_tstate z = c_tstate x \<and> s_esc z = s_esc x)"
      using Cons.IH [of y] Cons.prems by (auto simp: kept_all_def kept_def)
  qed
qed

text \<open>The first character of a value that the server reads itself.\<close>

lemma char_value_own:
  assumes "s_st x = h_value_lead" "c \<notin> {SP, HT}" "settles 4 c (x\<lparr>s_st := s_est x, c_b := s_m x\<rparr>)"
  shows "http_char c x = http_char c (x\<lparr>s_st := s_est x, c_b := s_m x\<rparr>)"
proof -
  have 1: "http_switch c x = Again c (x\<lparr>s_st := s_est x, c_b := s_m x\<rparr>)"
    using assms(1,2) by (cases x) (simp add: http_switch_def sw_value_lead_def reset_def mark_def)
  then show ?thesis by (rule char_again [OF _ assms(3)]) simp
qed

lemma settles_Suc: "(\<And>c' y. http_switch c x = Again c' y \<Longrightarrow> settles n c' y) \<Longrightarrow> settles (Suc n) c x"
  by (cases "http_switch c x") simp_all

lemma settles_length: "s_st x = h_head_content_length \<Longrightarrow> settles 4 c x"
proof -
  assume st: "s_st x = h_head_content_length"
  have cr: "settles 2 c' y" if "s_st y = h_cr" for c' y
    by (rule settles_2) (use that in \<open>auto simp: http_switch_def sw_cr_def reset_def shift_def split: if_splits\<close>)
  have "settles 2 c' y" if "http_switch c x = Again c' y" for c' y
    using that st settles_dispatch [OF settles_1, of y 2 c'] cr [of y c']
    by (auto simp: http_switch_def sw_head_content_length_def reset_def split: if_splits)
  then have "settles (Suc 2) c x" by (rule settles_Suc)
  then show ?thesis using settles_dispatch [of "Suc 2" c x 4] by simp
qed

definition digit :: "char \<Rightarrow> bool" where
  "digit c \<longleftrightarrow> 48 \<le> char_int c \<and> char_int c \<le> 57"

definition number :: "string \<Rightarrow> nat" where
  "number ds = foldl (\<lambda>n c. 10 * n + nat (char_int c - 48)) 0 ds"

lemma scans_digit_list:
  assumes "s_st x = h_head_content_length" "s_nl x = 0" "list_all digit ds" "s_esc x = of_nat n"
  shows "\<exists>y. scans ds x y \<and> (s_st y = h_head_content_length \<and> same_data x y
    \<and> s_esc y = of_nat (foldl (\<lambda>n c. 10 * n + nat (char_int c - 48)) n ds))"
  using assms
proof (induction ds arbitrary: x n)
  case Nil
  then show ?case by (simp add: same_data_def)
next
  case (Cons c ds)
  show ?case
  proof (rule leads_Cons)
    show "\<exists>y. http_char (char_int c) x = Break y \<and> s_nl y \<le> 1 \<and> (s_st (next_char y) = h_head_content_length \<and> same_data x (next_char y)
        \<and> s_esc (next_char y) = of_nat (10 * n + nat (char_int c - 48)))"
      using Cons.prems by (auto simp: digit_def char_looks http_switch_def sw_head_content_length_def same_data_def)
  next
    fix y
    assume "s_st y = h_head_content_length \<and> same_data x y \<and> s_esc y = of_nat (10 * n + nat (char_int c - 48))"
    then show "\<exists>z. scans ds y z \<and> (s_st z = h_head_content_length \<and> same_data x z
        \<and> s_esc z = of_nat (foldl (\<lambda>n c. 10 * n + nat (char_int c - 48)) n (c # ds)))"
      using Cons.IH [of y "10 * n + nat (char_int c - 48)"] Cons.prems by (auto simp: same_data_def)
  qed
qed

lemma value_first: obtains c cs where "dropWhile blank v @ newline b = c # cs" "char_int c \<notin> {SP, HT}"
proof (cases "dropWhile blank v")
  case Nil
  show ?thesis using that [unfolded Nil] by (cases b) (simp_all add: newline_def char_ints)
next
  case (Cons c cs)
  then have "\<not> blank c" using hd_dropWhile [of blank v] by simp
  then show ?thesis using Cons that [of c "cs @ newline b"] by (simp add: blank_def)
qed

definition length_rq :: "bool \<Rightarrow> string \<Rightarrow> minute_http_rq \<Rightarrow> minute_http_rq" where
  "length_rq cr ds rq =
     (if cr then rq\<lparr>rq_flags := rq_flags rq OR http_content_length, rq_content_length := of_nat (number ds)\<rparr> else rq)"

lemma scans_length:
  assumes "s_st x = h_value_lead" "s_est x = h_head_content_length" "s_esc x = 0" "s_nl x = 0" "list_all digit (dropWhile blank v)"
  shows "\<exists>y. scans (v @ newline b) x y \<and> (line_end x y \<and> c_rq y = length_rq b (dropWhile blank v) (c_rq x) \<and> c_text y = c_text x)"
proof -
  let ?ds = "dropWhile blank v"
  have "\<exists>y. scans (takeWhile blank v @ ?ds @ newline b) x y
    \<and> (line_end x y \<and> c_rq y = length_rq b ?ds (c_rq x) \<and> c_text y = c_text x)"
  proof (rule leads_append)
    show "\<exists>y. scans (takeWhile blank v) x y \<and> (kept_all x y \<and> c_tstate y = c_tstate x \<and> s_esc y = s_esc x)"
      using assms(1,4) by (intro scans_blanks) (auto simp: list_all_iff dest: set_takeWhileD)
  next
    fix y
    assume y: "kept_all x y \<and> c_tstate y = c_tstate x \<and> s_esc y = s_esc x"
    let ?y = "y\<lparr>s_st := s_est y, c_b := s_m y\<rparr>"
    have y': "s_st ?y = h_head_content_length" "s_nl ?y = 0" "s_esc ?y = of_nat 0"
      using y assms by (simp_all add: kept_all_def kept_def)
    have "\<exists>z. scans (?ds @ newline b) ?y z \<and> (line_end x z \<and> c_rq z = length_rq b ?ds (c_rq x) \<and> c_text z = c_text x)"
    proof (rule leads_append [OF scans_digit_list [OF y'(1,2) assms(5) y'(3)]])
      fix z
      assume z: "s_st z = h_head_content_length \<and> same_data ?y z
        \<and> s_esc z = of_nat (foldl (\<lambda>n c. 10 * n + nat (char_int c - 48)) 0 ?ds)"
      have d: "s_nl z = 0" "s_hmask z = s_hmask x" "c_rq z = c_rq x" "c_text z = c_text x"
        using z y by (simp_all add: same_data_def kept_all_def kept_def)
      have "\<exists>u. scans (newline b) z u \<and> line_end z u \<and>
          (if b then (\<lambda>rq t. rq = length_rq True ?ds (c_rq x) \<and> t = c_text x) else (\<lambda>rq t. rq = c_rq x \<and> t = c_text x)) (c_rq u) (c_text u)"
        using z d(1) by (intro scans_break_line; simp add: char_looks http_switch_def sw_head_content_length_def sw_cr_def reset_def
            shift_def same_data_def d length_rq_def number_def)
      then show "\<exists>u. scans (newline b) z u \<and> (line_end x u \<and> c_rq u = length_rq b ?ds (c_rq x) \<and> c_text u = c_text x)"
        using d(2) by (cases b) (auto simp: line_end_def length_rq_def)
    qed
    moreover obtain c cs where c: "?ds @ newline b = c # cs" "char_int c \<notin> {SP, HT}" by (rule value_first)
    moreover have "http_char (char_int c) y = http_char (char_int c) ?y"
      using y assms(1) c(2) settles_length [OF y'(1)] by (intro char_value_own) (auto simp: kept_all_def)
    ultimately show "\<exists>z. scans (?ds @ newline b) y z \<and> (line_end x z \<and> c_rq z = length_rq b ?ds (c_rq x) \<and> c_text z = c_text x)"
      using scans_other [of c y ?y] by auto
  qed
  then show ?thesis by (simp only: append_assoc [symmetric] takeWhile_dropWhile_id)
qed

section \<open>Connection, Expect and Transfer-Encoding\<close>

fun flag_trie :: "http_request_state \<Rightarrow> patricia" where
  "flag_trie h_head_connection = patinitial_connection"
| "flag_trie h_head_expect = patinitial_expect"
| "flag_trie _ = patinitial_transfer"

fun flag_nodes :: "http_request_state \<Rightarrow> (nat \<times> string) list" where
  "flag_nodes h_head_connection = connection_nodes"
| "flag_nodes h_head_expect = expect_nodes"
| "flag_nodes _ = transfer_nodes"

fun flag_dict :: "http_request_state \<Rightarrow> (string \<times> int) list" where
  "flag_dict h_head_connection = connection_dict"
| "flag_dict h_head_expect = expect_dict"
| "flag_dict _ = transfer_dict"

abbreviation (input) flag_heads :: "http_request_state set" where
  "flag_heads \<equiv> {h_head_connection, h_head_expect, h_head_transfer_encoding}"

lemma flag_table:
  assumes "st \<in> flag_heads"
  shows "trie_table utility (flag_trie st) utility_trie_map (map_of (flag_nodes st)) (flag_dict st)"
    "nodes_live utility (flag_nodes st) (flag_dict st)"
  using assms connection_trie.trie_table_axioms expect_trie.trie_table_axioms transfer_trie.trie_table_axioms tables_live by auto

lemma flag_words: "st \<in> flag_heads \<Longrightarrow> (w, r) \<in> set (flag_dict st) \<Longrightarrow> 0 < r \<and> NUL \<notin> set w \<and> (\<forall>c \<in> set w. char_int c \<notin> {CR, LF})"
proof -
  have "\<forall>(w, r) \<in> set (connection_dict @ expect_dict @ transfer_dict). 0 < r \<and> NUL \<notin> set w \<and> (\<forall>c \<in> set w. char_int c \<notin> {CR, LF})"
    by code_simp
  moreover assume "st \<in> flag_heads" "(w, r) \<in> set (flag_dict st)"
  ultimately show ?thesis by fastforce
qed

lemma settles_flag: "s_st x = h_head_flag \<Longrightarrow> settles 2 c x"
  by (rule settles_2) (auto simp: http_switch_def sw_head_flag_def walk_def reset_def mark_def Let_def split: option.splits if_splits)

lemma char_flag_first:
  assumes "s_st x = h_value_lead" "s_est x \<in> flag_heads" "c \<notin> {SP, HT}"
  shows "http_char c x = http_char c (x\<lparr>s_st := h_head_flag, c_b := s_m x, c_flag := Some (flag_trie (s_est x))\<rparr>)"
proof -
  let ?x = "x\<lparr>s_st := s_est x, c_b := s_m x\<rparr>"
  let ?y = "x\<lparr>s_st := h_head_flag, c_b := s_m x, c_flag := Some (flag_trie (s_est x))\<rparr>"
  have 1: "http_switch c ?x = Again c ?y"
    using assms(2) by (cases x) (auto simp: http_switch_def sw_head_connection_def sw_head_expect_def
        sw_head_transfer_encoding_def reset_def)
  have y: "settles 2 c ?y" by (rule settles_flag) simp
  then have "settles (Suc 2) c ?x" by (intro settles_Suc) (simp add: 1)
  then have "settles 4 c ?x" using settles_dispatch [of "Suc 2" c ?x 4] by simp
  then show ?thesis using char_value_own [OF assms(1,3)] char_again [OF 1 y] by simp
qed

lemma lower_line_end: "lower c \<in> {CR, LF} \<longleftrightarrow> c \<in> {CR, LF}" "lower c \<in> {CR, LF, H_EOF} \<longleftrightarrow> c \<in> {CR, LF, H_EOF}"
  by (auto simp: lower_def)

lemma char_flag:
  assumes "s_st x = h_head_flag" "c_flag x = Some ini" "c \<notin> {CR, LF}"
    "walk_trie (lower c) (utility_trie_map (lower c)) utility (Some ini) (c_tstate x) = Some (0, ts)"
  shows "\<exists>y. http_char c x = Break y \<and> kept_all x y \<and> c_tstate y = ts"
  using assms lower_line_end(1) [of c] by (simp add: char_looks http_switch_def sw_head_flag_def walk_def Let_def kept_all_def kept_def)

lemma char_flag_strange:
  assumes "s_st x = h_head_flag" "c_flag x = Some ini" "c \<notin> {CR, LF, H_EOF}"
    "walk_trie (lower c) (utility_trie_map (lower c)) utility (Some ini) (c_tstate x) = Some (-1, ts)"
  shows "\<exists>y. http_char c x = Break y \<and> kept x y \<and> s_st y = h_skipline \<and> c_rq y = c_rq x \<and> c_text y = c_text x"
proof -
  let ?y = "x\<lparr>c_tstate := ts, s_st := h_skipline\<rparr>"
  have 1: "http_switch c x = Again (lower c) ?y"
    using assms lower_line_end(1) [of c] by (simp add: http_switch_def sw_head_flag_def walk_def reset_def Let_def)
  have "http_char c x = http_char (lower c) ?y" by (rule char_again [OF 1 settles_1]) simp_all
  then show ?thesis using char_skip [of ?y "lower c"] lower_line_end(2) [of c] assms(3) by (simp add: kept_def mark_def)
qed

lemma char_flag_end:
  assumes "s_st x = h_head_flag" "c_flag x = Some ini" "c \<in> {CR, LF}"
    "walk_trie 0 (utility_trie_map c) utility (Some ini) (c_tstate x) = Some (r, ts)" "0 < r"
  shows "http_char c x = http_char c (x\<lparr>s_st := h_skipline, c_b := s_m x, c_tstate := ts,
      c_rq := (c_rq x)\<lparr>rq_flags := rq_flags (c_rq x) OR word_of_int r\<rparr>\<rparr>)"
proof -
  let ?y = "x\<lparr>s_st := h_skipline, c_b := s_m x, c_tstate := ts, c_rq := (c_rq x)\<lparr>rq_flags := rq_flags (c_rq x) OR word_of_int r\<rparr>\<rparr>"
  have l: "lower c = c" using assms(3) by (auto simp: lower_def)
  have "http_switch c x = Again c ?y"
    using assms by (cases x) (auto simp: l http_switch_def sw_head_flag_def walk_def reset_def mark_def Let_def)
  then show ?thesis by (rule char_again [OF _ settles_1]) simp_all
qed

definition flag_rq :: "http_request_state \<Rightarrow> string \<Rightarrow> minute_http_rq \<Rightarrow> minute_http_rq" where
  "flag_rq st t rq = (case map_of (flag_dict st) (map char_lower t) of
     None \<Rightarrow> rq | Some r \<Rightarrow> rq\<lparr>rq_flags := rq_flags rq OR word_of_int r\<rparr>)"

text \<open>A token that is not understood may not be the beginning of one that is.\<close>

definition token_ok :: "http_request_state \<Rightarrow> string \<Rightarrow> bool" where
  "token_ok st t \<longleftrightarrow> list_all plain_char t
     \<and> (map_of (flag_dict st) (map char_lower t) \<noteq> None \<or> strange (flag_dict st) (map char_lower t))"

lemma scans_known_flag:
  assumes "s_st x = h_head_flag" "s_nl x = 0" "c_flag x = Some (flag_trie st)" "c_tstate x = \<lparr>ts_poff = 0, ts_slot = 0\<rparr>"
    "st \<in> flag_heads" "list_all plain_char t" "map_of (flag_dict st) (map char_lower t) = Some r"
  shows "\<exists>y. scans (t @ newline b) x y \<and> (line_end x y
    \<and> c_rq y = (c_rq x)\<lparr>rq_flags := rq_flags (c_rq x) OR word_of_int r\<rparr> \<and> c_text y = c_text x)"
proof -
  note T = flag_table(1) [OF assms(5)]
  have mem: "(map char_lower t, r) \<in> set (flag_dict st)" using assms(7) by (rule map_of_SomeD)
  note d = flag_words [OF assms(5) mem]
  obtain e es where e: "newline b = e # es" "char_int e \<in> {CR, LF}"
    by (cases b) (auto simp: newline_def char_ints)
  have nul: "NUL \<notin> set (map char_lower t)" using d by (elim conjE)
  have "trie_lookup (char_int e) utility_trie_map utility (flag_trie st) (map char_lower t) = Some r"
    by (rule iffD2 [OF trie_table.lookup_iff [OF T nul] mem])
  then obtain ts ts' where w: "walk_word utility_trie_map utility (flag_trie st) (c_tstate x) (map char_lower t) = Some ts"
      "walk_trie 0 (utility_trie_map (char_int e)) utility (Some (flag_trie st)) ts = Some (r, ts')" "0 < r"
    unfolding assms(4) by (rule lookup_walk)
  show ?thesis
  proof (rule leads_append)
    show "\<exists>y. scans t x y \<and> (kept_all x y \<and> c_tstate y = ts)"
    proof (rule scans_word [OF _ w(1) assms(2)])
      fix c y t'
      assume c: "c \<in> set t" "kept_all x y"
        "walk_trie (char_int (char_lower c)) (utility_trie_map (char_int (char_lower c))) utility (Some (flag_trie st)) (c_tstate y) = Some (0, t')"
      have "plain_char c" using assms(6) c(1) by (simp add: list_all_iff)
      then have "\<exists>z. http_char (char_int c) y = Break z \<and> kept_all y z \<and> c_tstate z = t'"
        using c assms(1,3) by (intro char_flag) (auto simp: kept_all_def lower_char_int plain_char_def)
      then show "\<exists>z. http_char (char_int c) y = Break z \<and> kept_all x z \<and> c_tstate z = t'"
        using c(2) by (auto simp: kept_all_def kept_def)
    qed
  next
    fix y
    assume y: "kept_all x y \<and> c_tstate y = ts"
    let ?y = "y\<lparr>s_st := h_skipline, c_b := s_m y, c_tstate := ts', c_rq := (c_rq y)\<lparr>rq_flags := rq_flags (c_rq y) OR word_of_int r\<rparr>\<rparr>"
    have "http_char (char_int e) y = http_char (char_int e) ?y"
      using y assms(1,3) e(2) w(2,3) by (intro char_flag_end) (auto simp: kept_all_def)
    then have "scans (newline b) ?y z \<Longrightarrow> scans (newline b) y z" for z unfolding e(1) using scans_other by blast
    moreover obtain z where "scans (newline b) ?y z" "line_end ?y z" "c_rq z = c_rq ?y" "c_text z = c_text ?y"
      using scans_skip_end [of ?y b] y assms(2) by (auto simp: kept_all_def kept_def)
    ultimately show "\<exists>z. scans (newline b) y z \<and> (line_end x z
        \<and> c_rq z = (c_rq x)\<lparr>rq_flags := rq_flags (c_rq x) OR word_of_int r\<rparr> \<and> c_text z = c_text x)"
      using y by (intro exI [of _ z]) (simp add: kept_all_def kept_def line_end_def)
  qed
qed

lemma scans_strange_flag:
  assumes "s_st x = h_head_flag" "s_nl x = 0" "c_flag x = Some (flag_trie st)" "c_tstate x = \<lparr>ts_poff = 0, ts_slot = 0\<rparr>"
    "st \<in> flag_heads" "list_all plain_char t" "strange (flag_dict st) (map char_lower t)"
  shows "\<exists>y. scans (t @ newline b) x y \<and> (line_end x y \<and> c_rq y = c_rq x \<and> c_text y = c_text x)"
proof -
  note live = flag_table(2) [OF assms(5)]
  have "NUL \<notin> set t" using assms(6) by (auto simp: list_all_iff plain_char_def)
  then have nul: "NUL \<notin> set (map char_lower t)" by (rule lower_no_NUL)
  have ne: "flag_dict st \<noteq> []" using live by (simp add: nodes_live_def)
  have "\<exists>u c v k. map char_lower t = u @ c # v
      \<and> walk_word utility_trie_map utility (flag_trie st) \<lparr>ts_poff = 0, ts_slot = 0\<rparr> u = Some k
      \<and> walk_trie (char_int c) (utility_trie_map (char_int c)) utility (Some (flag_trie st)) k = Some (-1, k)"
    by (rule trie_table.strange_stuck [OF flag_table(1) [OF assms(5)] nodes_liveD [OF live] assms(7) nul ne])
  then obtain u c v k where t: "t = u @ c # v" and
    k: "walk_word utility_trie_map utility (flag_trie st) (c_tstate x) (map char_lower u) = Some k"
      "walk_trie (char_int (char_lower c)) (utility_trie_map (char_int (char_lower c))) utility (Some (flag_trie st)) k = Some (-1, k)"
    unfolding assms(4) by (auto simp: map_eq_append_conv map_eq_Cons_conv)
  have ok: "plain_char d" if "d \<in> set t" for d using assms(6) that by (simp add: list_all_iff)
  have "\<exists>y. scans (u @ c # v @ newline b) x y \<and> (line_end x y \<and> c_rq y = c_rq x \<and> c_text y = c_text x)"
  proof (rule scans_stuck [OF _ _ k(1) assms(2)])
    fix d y ts
    assume d: "d \<in> set u" "kept_all x y"
      "walk_trie (char_int (char_lower d)) (utility_trie_map (char_int (char_lower d))) utility (Some (flag_trie st)) (c_tstate y) = Some (0, ts)"
    then show "\<exists>z. http_char (char_int d) y = Break z \<and> kept_all y z \<and> c_tstate z = ts"
      using ok [of d] t assms(1,3) by (intro char_flag) (auto simp: kept_all_def lower_char_int plain_char_def)
  next
    fix y
    assume "kept_all x y" "c_tstate y = k"
    then show "\<exists>z. http_char (char_int c) y = Break z \<and> kept y z \<and> s_st z = h_skipline \<and> c_rq z = c_rq y \<and> c_text z = c_text y"
      using ok [of c] t assms(1,3) k(2) by (intro char_flag_strange) (auto simp: kept_all_def lower_char_int plain_char_def)
  qed (use ok t in \<open>simp add: list_all_iff\<close>)
  then show ?thesis using t by simp
qed

lemma scans_flag:
  assumes "s_st x = h_value_lead" "s_est x \<in> flag_heads" "s_nl x = 0" "c_tstate x = \<lparr>ts_poff = 0, ts_slot = 0\<rparr>"
    "token_ok (s_est x) (dropWhile blank v)"
  shows "\<exists>y. scans (v @ newline b) x y \<and> (line_end x y \<and> c_rq y = flag_rq (s_est x) (dropWhile blank v) (c_rq x) \<and> c_text y = c_text x)"
proof -
  let ?t = "dropWhile blank v" and ?st = "s_est x"
  have "\<exists>y. scans (takeWhile blank v @ ?t @ newline b) x y \<and> (line_end x y \<and> c_rq y = flag_rq ?st ?t (c_rq x) \<and> c_text y = c_text x)"
  proof (rule leads_append)
    show "\<exists>y. scans (takeWhile blank v) x y \<and> (kept_all x y \<and> c_tstate y = c_tstate x \<and> s_esc y = s_esc x)"
      using assms(1,3) by (intro scans_blanks) (auto simp: list_all_iff dest: set_takeWhileD)
  next
    fix y
    assume y: "kept_all x y \<and> c_tstate y = c_tstate x \<and> s_esc y = s_esc x"
    let ?y = "y\<lparr>s_st := h_head_flag, c_b := s_m y, c_flag := Some (flag_trie ?st)\<rparr>"
    have y': "s_st ?y = h_head_flag" "s_nl ?y = 0" "c_flag ?y = Some (flag_trie ?st)" "c_tstate ?y = \<lparr>ts_poff = 0, ts_slot = 0\<rparr>"
        "c_rq ?y = c_rq x" "c_text ?y = c_text x" "s_hmask ?y = s_hmask x"
      using y assms by (simp_all add: kept_all_def kept_def)
    have p: "list_all plain_char ?t" using assms(5) by (simp add: token_ok_def)
    have "\<exists>z. scans (?t @ newline b) ?y z \<and> (line_end ?y z \<and> c_rq z = flag_rq ?st ?t (c_rq ?y) \<and> c_text z = c_text ?y)"
    proof (cases "map_of (flag_dict ?st) (map char_lower ?t)")
      case None
      then show ?thesis using scans_strange_flag [OF y'(1-4) assms(2) p] assms(5) by (auto simp: token_ok_def flag_rq_def)
    next
      case (Some r)
      then show ?thesis using scans_known_flag [OF y'(1-4) assms(2) p Some] by (auto simp: flag_rq_def)
    qed
    moreover obtain c cs where c: "?t @ newline b = c # cs" "char_int c \<notin> {SP, HT}" by (rule value_first)
    moreover have "http_char (char_int c) y = http_char (char_int c) ?y"
      using y assms(1,2) c(2) char_flag_first [of y "char_int c"] by (simp add: kept_all_def)
    ultimately show "\<exists>z. scans (?t @ newline b) y z \<and> (line_end x z \<and> c_rq z = flag_rq ?st ?t (c_rq x) \<and> c_text z = c_text x)"
      using scans_other [of c y ?y] y'(5-7) by (auto simp: line_end_def)
  qed
  then show ?thesis by (simp only: append_assoc [symmetric] takeWhile_dropWhile_id)
qed

end
