(* ===== verification/Http_Message.thy ===== *)
theory Http_Message
  imports Http_Fields
begin

text \<open>
  The head of a request as it is meant, and what \<open>minute_http_read\<close> of \<open>src/libhttp/http.c\<close> makes of
  it: the fields of the request, the text behind them and the table of collected headers.
\<close>

section \<open>Header lines\<close>

text \<open>A name, a value, and whether the line ends with a carriage return.\<close>

type_synonym field = "string \<times> string \<times> bool"

fun field_text :: "field \<Rightarrow> bytes" where
  "field_text (n, v, b) = n @ '':'' @ v @ newline b"

definition header_of :: "string \<Rightarrow> int option" where
  "header_of n = map_of header_dict (map char_lower n)"

fun field_ok :: "field \<Rightarrow> bool" where
  "field_ok (n, v, b) \<longleftrightarrow> list_all plain_char v \<and> list_all name_char n \<and> n \<noteq> [] \<and> \<not> blank (hd n)
     \<and> (case header_of n of
          None \<Rightarrow> strange header_dict (map char_lower n)
        | Some r \<Rightarrow> (case own_state r of
              None \<Rightarrow> True
            | Some st \<Rightarrow> if st = h_head_content_length then list_all digit (dropWhile blank v)
                else token_ok st (dropWhile blank v)))"

text \<open>What a header the server reads itself does to the request.\<close>

fun field_rq :: "field \<Rightarrow> minute_http_rq \<Rightarrow> minute_http_rq" where
  "field_rq (n, v, b) rq =
     (case header_of n of
        None \<Rightarrow> rq
      | Some r \<Rightarrow> (case own_state r of
            None \<Rightarrow> rq
          | Some st \<Rightarrow> if st = h_head_content_length then length_rq b (dropWhile blank v) rq
              else flag_rq st (dropWhile blank v) rq))"

text \<open>The headers that are collected, with their values.\<close>

fun field_value :: "unsigned \<Rightarrow> field \<Rightarrow> (int \<times> string) list" where
  "field_value hmask (n, v, b) =
     (case header_of n of
        None \<Rightarrow> []
      | Some r \<Rightarrow> if own_state r = None \<and> hmask AND header_mask r \<noteq> 0 then [(r, squeeze True v)] else [])"

definition collected :: "unsigned \<Rightarrow> field list \<Rightarrow> (int \<times> string) list" where
  "collected hmask fs = concat (map (field_value hmask) fs)"

text \<open>Their strings in the text, and the table with the place of each.\<close>

definition header_words :: "(int \<times> string) list \<Rightarrow> bytes" where
  "header_words hs = concat (map (\<lambda>(r, w). w @ [NUL]) hs)"

fun header_table :: "nat \<Rightarrow> (int \<times> string) list \<Rightarrow> int list" where
  "header_table pos [] = []"
| "header_table pos ((r, w) # hs) = r # int pos # header_table (pos + length w + 1) hs"

lemma header_words_simps [simp]: "header_words [] = []" "header_words ((r, w) # hs) = w @ NUL # header_words hs"
  "header_words (hs @ gs) = header_words hs @ header_words gs"
  by (simp_all add: header_words_def)

lemma length_header_table: "length (header_table pos hs) = 2 * length hs"
  by (induction pos hs rule: header_table.induct) simp_all

lemma header_table_append: "header_table pos (hs @ gs) = header_table pos hs @ header_table (pos + length (header_words hs)) gs"
  by (induction pos hs rule: header_table.induct) (simp_all add: ac_simps)

definition table_room :: "(int \<times> string) list \<Rightarrow> nat" where
  "table_room hs = length (header_words hs) + 8 * length hs"

definition adds_headers :: "(int \<times> string) list \<Rightarrow> textint \<Rightarrow> textint \<Rightarrow> bool" where
  "adds_headers hs t t' \<longleftrightarrow> text_adds (header_words hs) (header_table (unat (ti_text t)) hs) t t'"

lemma adds_headers_trans:
  assumes "textint_ok t" "adds_headers hs t u" "adds_headers gs u t'"
  shows "adds_headers (hs @ gs) t t'"
  using text_adds_trans [OF assms(2,3) [unfolded adds_headers_def]] text_adds_pos(1) [OF assms(1) assms(2) [unfolded adds_headers_def]]
  by (simp add: adds_headers_def header_table_append)

lemma adds_headers_room:
  "textint_ok t \<Longrightarrow> adds_headers hs t u \<Longrightarrow> text_room u = text_room t - table_room hs"
  using text_adds_room [of t] by (simp add: adds_headers_def table_room_def length_header_table)

lemma c_int_small: "0 \<le> i \<Longrightarrow> i < 2 ^ 31 \<Longrightarrow> c_int i = i"
  by (simp add: c_int_def signed_of_int signed_take_bit_int_eq_self)

section \<open>One line\<close>

text \<open>The parser at the start of a line of the head.\<close>

definition at_line :: "http_ctx \<Rightarrow> bool" where
  "at_line x \<longleftrightarrow> s_st x = h_nl \<and> s_nl x = 1 \<and> textint_ok (c_text x) \<and> unat (ti_size (c_text x)) < 2 ^ 31"

lemma scans_colon:
  assumes "(map char_lower n, r) \<in> set header_dict" "at_line x"
    and "\<And>y. s_st y = h_header \<Longrightarrow> same_data x y
      \<Longrightarrow> \<exists>ts. walk_trie 0 (header_trie_map 58) headers (Some patinitial_headers) (c_tstate y) = Some (r, ts)
      \<Longrightarrow> \<exists>z. http_char 58 y = Break z \<and> s_nl z \<le> 1 \<and> Q (next_char z)"
    and "\<And>y. Q y \<Longrightarrow> \<exists>z. scans w y z \<and> R z"
  shows "\<exists>y. scans (n @ '':'' @ w) x y \<and> R y"
proof (rule leads_append)
  show "\<exists>y. scans n x y \<and> (s_st y = h_header \<and> same_data x y
      \<and> (\<exists>ts. walk_trie 0 (header_trie_map 58) headers (Some patinitial_headers) (c_tstate y) = Some (r, ts)))"
    using scans_name [OF assms(1)] assms(2) by (auto simp: at_line_def)
next
  fix y
  assume y: "s_st y = h_header \<and> same_data x y
      \<and> (\<exists>ts. walk_trie 0 (header_trie_map 58) headers (Some patinitial_headers) (c_tstate y) = Some (r, ts))"
  have "\<exists>z. scans (CHR '':'' # w) y z \<and> R z"
    by (rule leads_Cons [where Q = Q]) (use y assms(3) [of y] char_ints(8) assms(4) in auto)
  then show "\<exists>z. scans ('':'' @ w) y z \<and> R z" by simp
qed

lemma colon_walk:
  "\<exists>ts. walk_trie 0 (header_trie_map 58) headers (Some patinitial_headers) (c_tstate y) = Some (r, ts) \<Longrightarrow> same_data x y
   \<Longrightarrow> \<exists>ts. walk_trie 0 (header_trie_map 58) headers (Some patinitial_headers) (c_tstate y) = Some (r, ts) \<and> s_nl y = 0"
  by (simp add: same_data_def)

lemma scans_own_field:
  assumes "at_line x" "field_ok (n, v, b)" "header_of n = Some r" "own_state r = Some st"
  shows "\<exists>y. scans (field_text (n, v, b)) x y \<and> (line_end x y \<and> c_rq y = field_rq (n, v, b) (c_rq x) \<and> c_text y = c_text x)"
  unfolding field_text.simps
proof -
  have mem: "(map char_lower n, r) \<in> set header_dict" using assms(3) by (simp add: header_of_def map_of_SomeD)
  have r: "0 < r" using header_dict_chars [OF mem] by blast
  show "\<exists>y. scans (n @ '':'' @ v @ newline b) x y \<and> (line_end x y \<and> c_rq y = field_rq (n, v, b) (c_rq x) \<and> c_text y = c_text x)"
  proof (rule scans_colon [OF mem assms(1)])
    fix y
    assume y: "s_st y = h_header" "same_data x y"
      "\<exists>ts. walk_trie 0 (header_trie_map 58) headers (Some patinitial_headers) (c_tstate y) = Some (r, ts)"
    obtain ts where ts: "walk_trie 0 (header_trie_map 58) headers (Some patinitial_headers) (c_tstate y) = Some (r, ts)" "s_nl y = 0"
      using colon_walk [OF y(3,2)] by blast
    obtain z where "http_char 58 y = Break z" "s_st z = h_value_lead" "s_est z = st" "same_data y z"
        "c_tstate z = \<lparr>ts_poff = 0, ts_slot = 0\<rparr>" "st = h_head_content_length \<longrightarrow> s_esc z = 0"
      using char_colon_own [OF y(1) ts(2,1) r assms(4)] by blast
    then show "\<exists>z. http_char 58 y = Break z \<and> s_nl z \<le> 1 \<and> (s_st (next_char z) = h_value_lead \<and> s_est (next_char z) = st
        \<and> same_data x (next_char z) \<and> c_tstate (next_char z) = \<lparr>ts_poff = 0, ts_slot = 0\<rparr>
        \<and> (st = h_head_content_length \<longrightarrow> s_esc (next_char z) = 0))"
      using y(2) by (auto simp: same_data_def)
  next
    fix y
    assume y: "s_st y = h_value_lead \<and> s_est y = st \<and> same_data x y \<and> c_tstate y = \<lparr>ts_poff = 0, ts_slot = 0\<rparr>
        \<and> (st = h_head_content_length \<longrightarrow> s_esc y = 0)"
    have d: "s_nl y = 0" "c_rq y = c_rq x" "c_text y = c_text x" "s_hmask y = s_hmask x" using y by (simp_all add: same_data_def)
    show "\<exists>z. scans (v @ newline b) y z \<and> (line_end x z \<and> c_rq z = field_rq (n, v, b) (c_rq x) \<and> c_text z = c_text x)"
    proof (cases "st = h_head_content_length")
      case True
      then show ?thesis using scans_length [of y v b] y d assms(2-4) by (auto simp: line_end_def)
    next
      case False
      then have "st \<in> flag_heads" using assms(4) by (auto simp: own_state_def split: if_splits)
      then show ?thesis using False scans_flag [of y v b] y d assms(2-4) by (auto simp: line_end_def)
    qed
  qed
qed

lemma scans_skipped_field:
  assumes "at_line x" "list_all plain_char v" "header_of n = Some r" "own_state r = None" "s_hmask x AND header_mask r = 0"
  shows "\<exists>y. scans (field_text (n, v, b)) x y \<and> (line_end x y \<and> c_rq y = c_rq x \<and> c_text y = c_text x)"
  unfolding field_text.simps
proof -
  have mem: "(map char_lower n, r) \<in> set header_dict" using assms(3) by (simp add: header_of_def map_of_SomeD)
  have r: "0 < r" using header_dict_chars [OF mem] by blast
  show "\<exists>y. scans (n @ '':'' @ v @ newline b) x y \<and> (line_end x y \<and> c_rq y = c_rq x \<and> c_text y = c_text x)"
  proof (rule scans_colon [OF mem assms(1)])
    fix y
    assume y: "s_st y = h_header" "same_data x y"
      "\<exists>ts. walk_trie 0 (header_trie_map 58) headers (Some patinitial_headers) (c_tstate y) = Some (r, ts)"
    obtain ts where ts: "walk_trie 0 (header_trie_map 58) headers (Some patinitial_headers) (c_tstate y) = Some (r, ts)" "s_nl y = 0"
      using colon_walk [OF y(3,2)] by blast
    show "\<exists>z. http_char 58 y = Break z \<and> s_nl z \<le> 1 \<and> (s_st (next_char z) = h_skipline \<and> same_data x (next_char z))"
      using char_colon_skipped [OF y(1) ts(2,1) r assms(4)] y(2) assms(5) by (auto simp: same_data_def)
  next
    fix y
    assume "s_st y = h_skipline \<and> same_data x y"
    then show "\<exists>z. scans (v @ newline b) y z \<and> (line_end x z \<and> c_rq z = c_rq x \<and> c_text z = c_text x)"
      using scans_skip [of y v b] assms(2) by (auto simp: same_data_def line_end_def)
  qed
qed

lemma scans_collected_field:
  assumes "at_line x" "list_all plain_char v" "header_of n = Some r" "own_state r = None" "s_hmask x AND header_mask r \<noteq> 0"
    and room: "length (squeeze True v) + 9 \<le> text_room (c_text x)"
  shows "\<exists>y. scans (field_text (n, v, b)) x y \<and> (line_end x y \<and> c_rq y = c_rq x
    \<and> text_adds (squeeze True v @ [NUL]) [r, int (unat (ti_text (c_text x)))] (c_text x) (c_text y))"
  unfolding field_text.simps
proof -
  let ?w = "squeeze True v" and ?p = "unat (ti_text (c_text x))"
  have mem: "(map char_lower n, r) \<in> set header_dict" using assms(3) by (simp add: header_of_def map_of_SomeD)
  have r: "0 < r" "r < 2 ^ 31" using header_dict_chars [OF mem] by blast+
  have ok: "textint_ok (c_text x)" using assms(1) by (simp add: at_line_def)
  have p: "?p < 2 ^ 31" using assms(1) textint_ok_nat(1,2) [OF ok] by (simp add: at_line_def)
  then have "int ?p < int (2 ^ 31)" by (simp only: of_nat_less_iff)
  then have pos: "c_int (sint (ti_text (c_text x))) = int ?p"
    unfolding sint_small [OF p] by (intro c_int_small) simp_all
  show "\<exists>y. scans (n @ '':'' @ v @ newline b) x y \<and> (line_end x y \<and> c_rq y = c_rq x
      \<and> text_adds (?w @ [NUL]) [r, int ?p] (c_text x) (c_text y))"
  proof (rule scans_colon [OF mem assms(1)])
    fix y
    assume y: "s_st y = h_header" "same_data x y"
      "\<exists>ts. walk_trie 0 (header_trie_map 58) headers (Some patinitial_headers) (c_tstate y) = Some (r, ts)"
    obtain ts where ts: "walk_trie 0 (header_trie_map 58) headers (Some patinitial_headers) (c_tstate y) = Some (r, ts)" "s_nl y = 0"
      using colon_walk [OF y(3,2)] by blast
    show "\<exists>z. http_char 58 y = Break z \<and> s_nl z \<le> 1 \<and> (at_value True (next_char z) \<and> s_hmask (next_char z) = s_hmask x
        \<and> c_rq (next_char z) = c_rq x \<and> text_adds [] [r, int ?p] (c_text x) (c_text (next_char z)))"
      using char_colon_collected [OF y(1) ts(2,1) r(1) assms(4)] y(2) assms(5) ok room pos c_int_small [of r] r
      by (auto simp: same_data_def at_value_def)
  next
    fix y
    assume y: "at_value True y \<and> s_hmask y = s_hmask x \<and> c_rq y = c_rq x \<and> text_adds [] [r, int ?p] (c_text x) (c_text y)"
    have "textint_ok (c_text y)" "length ?w < text_room (c_text y)"
      using y text_adds_room [OF ok, of "[]" "[r, int ?p]" "c_text y"] room by (auto simp: text_adds_def)
    then obtain z where "scans (v @ newline b) y z" "line_end y z" "c_rq z = c_rq y" "text_adds (?w @ [NUL]) [] (c_text y) (c_text z)"
      using scans_value [of True y v b] y assms(2) by blast
    then show "\<exists>z. scans (v @ newline b) y z \<and> (line_end x z \<and> c_rq z = c_rq x
        \<and> text_adds (?w @ [NUL]) [r, int ?p] (c_text x) (c_text z))"
      using y text_adds_trans [of "[]" "[r, int ?p]" "c_text x" "c_text y" "?w @ [NUL]" "[]" "c_text z"]
      by (intro exI [of _ z]) (simp add: line_end_def)
  qed
qed

lemma scans_field:
  assumes "at_line x" "field_ok f" "table_room (field_value (s_hmask x) f) \<le> text_room (c_text x)"
  shows "\<exists>y. scans (field_text f) x y \<and> (line_end x y \<and> c_rq y = field_rq f (c_rq x)
    \<and> adds_headers (field_value (s_hmask x) f) (c_text x) (c_text y))"
proof -
  obtain n v b where f: "f = (n, v, b)" by (cases f)
  note ok = assms(2) [unfolded f]
  have none: "adds_headers [] (c_text x) (c_text x)"
    using text_adds_nil [of "c_text x"] assms(1) by (simp add: adds_headers_def at_line_def)
  consider (strange) "header_of n = None" | (own) r st where "header_of n = Some r" "own_state r = Some st"
    | (skipped) r where "header_of n = Some r" "own_state r = None" "s_hmask x AND header_mask r = 0"
    | (collected) r where "header_of n = Some r" "own_state r = None" "s_hmask x AND header_mask r \<noteq> 0"
    by (cases "header_of n"; cases "own_state (the (header_of n))") auto
  then show ?thesis
  proof cases
    case strange
    have "\<exists>y. scans (field_text f) x y \<and> line_end x y \<and> c_rq y = c_rq x \<and> c_text y = c_text x"
      unfolding f field_text.simps
      by (rule scans_strange_name) (use ok strange assms(1) in \<open>simp_all add: at_line_def\<close>)
    moreover have "field_value (s_hmask x) f = []" "field_rq f (c_rq x) = c_rq x" using strange f by simp_all
    ultimately show ?thesis using none by metis
  next
    case own
    have "field_value (s_hmask x) f = []" using own f by simp
    then show ?thesis using scans_own_field [OF assms(1) ok own] none f by metis
  next
    case skipped
    have "field_value (s_hmask x) f = []" "field_rq f (c_rq x) = c_rq x" using skipped f by simp_all
    moreover have "list_all plain_char v" using ok by simp
    ultimately show ?thesis using scans_skipped_field [OF assms(1) _ skipped, of v b] none f by metis
  next
    case (collected r)
    have v: "field_value (s_hmask x) f = [(r, squeeze True v)]" "field_rq f (c_rq x) = c_rq x" using collected f by simp_all
    have plain: "list_all plain_char v" using ok by simp
    have "length (squeeze True v) + 9 \<le> text_room (c_text x)" using assms(3) by (simp add: v table_room_def)
    from scans_collected_field [OF assms(1) plain collected this, of b] show ?thesis
      unfolding v by (simp add: f adds_headers_def del: field_text.simps)
  qed
qed

section \<open>All lines\<close>

lemma scans_fields:
  assumes "at_line x" "list_all field_ok fs" "table_room (collected (s_hmask x) fs) \<le> text_room (c_text x)"
  shows "\<exists>y. scans (concat (map field_text fs)) x y \<and> (at_line y \<and> c_rq y = fold field_rq fs (c_rq x)
    \<and> adds_headers (collected (s_hmask x) fs) (c_text x) (c_text y))"
  using assms
proof (induction fs arbitrary: x)
  case Nil
  then show ?case using text_adds_nil [of "c_text x"] by (simp add: at_line_def collected_def adds_headers_def)
next
  case (Cons f fs)
  let ?h = "field_value (s_hmask x) f" and ?hs = "collected (s_hmask x) fs"
  have c: "collected (s_hmask x) (f # fs) = ?h @ ?hs" by (simp add: collected_def)
  have ok: "textint_ok (c_text x)" using Cons.prems(1) by (simp add: at_line_def)
  have room: "table_room ?h + table_room ?hs \<le> text_room (c_text x)" using Cons.prems(3) by (simp add: c table_room_def)
  have "\<exists>y. scans (field_text f @ concat (map field_text fs)) x y \<and> (at_line y \<and> c_rq y = fold field_rq (f # fs) (c_rq x)
    \<and> adds_headers (?h @ ?hs) (c_text x) (c_text y))"
  proof (rule leads_append)
    show "\<exists>y. scans (field_text f) x y \<and> (line_end x y \<and> c_rq y = field_rq f (c_rq x) \<and> adds_headers ?h (c_text x) (c_text y))"
      using scans_field [of x f] Cons.prems(1,2) room by simp
  next
    fix y
    assume y: "line_end x y \<and> c_rq y = field_rq f (c_rq x) \<and> adds_headers ?h (c_text x) (c_text y)"
    have l: "at_line y" "s_hmask y = s_hmask x" using y Cons.prems(1) by (auto simp: at_line_def line_end_def adds_headers_def text_adds_def)
    have "table_room ?hs \<le> text_room (c_text y)" using adds_headers_room [OF ok, of ?h] y room by simp
    then obtain z where z: "scans (concat (map field_text fs)) y z" "at_line z" "c_rq z = fold field_rq fs (c_rq y)"
        "adds_headers ?hs (c_text y) (c_text z)"
      using Cons.IH [OF l(1)] Cons.prems(2) by (auto simp: l(2))
    then show "\<exists>z. scans (concat (map field_text fs)) y z \<and> (at_line z \<and> c_rq z = fold field_rq (f # fs) (c_rq x)
        \<and> adds_headers (?h @ ?hs) (c_text x) (c_text z))"
      using y adds_headers_trans [OF ok] by auto
  qed
  then show ?case by (simp only: c list.map concat.simps)
qed

section \<open>The head\<close>

definition request_head ::
    "string \<Rightarrow> uri_char list \<Rightarrow> uri_char list option \<Rightarrow> http_version \<Rightarrow> bool \<Rightarrow> field list \<Rightarrow> bool \<Rightarrow> bytes" where
  "request_head m path query v cr fs b = request_line m path query v cr @ concat (map field_text fs) @ newline b"

text \<open>No line of it is folded.\<close>

lemma unfolded_inside: "CHR 0x0A \<notin> set xs \<Longrightarrow> unfolded False (xs @ ys) = unfolded False ys"
proof (induction xs)
  case (Cons c xs)
  then have "c \<noteq> CHR 0x0A" by (metis list.set_intros(1))
  then show ?case using Cons by simp
qed simp

lemma unfolded_line:
  assumes "CHR 0x0A \<notin> set xs" "st \<longrightarrow> xs \<noteq> [] \<and> \<not> blank (hd xs)"
  shows "unfolded st (xs @ newline b @ ys) = unfolded True ys"
proof -
  have n: "unfolded False (newline b @ ys) = unfolded True ys" by (simp add: newline_def)
  show ?thesis
  proof (cases xs)
    case Nil
    then show ?thesis using n assms(2) by simp
  next
    case (Cons c cs)
    have "\<not> (st \<and> (c = CHR '' '' \<or> c = CHR 0x09))" using assms(2) Cons by (auto simp: blank_def char_int_blank)
    moreover have "c \<noteq> CHR 0x0A" using assms(1) Cons by (metis list.set_intros(1))
    moreover have "CHR 0x0A \<notin> set cs" using assms(1) Cons by simp
    ultimately show ?thesis using Cons unfolded_inside [of cs] n by simp
  qed
qed

lemma plain_no_LF: "list_all plain_char xs \<Longrightarrow> CHR 0x0A \<notin> set xs"
proof
  assume "list_all plain_char xs" "CHR 0x0A \<in> set xs"
  then have "plain_char (CHR 0x0A)" unfolding list_all_iff by (rule bspec)
  then show False by (simp add: plain_char_def char_ints)
qed

lemma unfolded_fields: "list_all field_ok fs \<Longrightarrow> unfolded True (concat (map field_text fs) @ ys) = unfolded True ys"
proof (induction fs)
  case (Cons f fs)
  obtain n v b where f: "f = (n, v, b)" by (cases f)
  have ok: "list_all plain_char v" "list_all name_char n" "n \<noteq> []" "\<not> blank (hd n)" using Cons.prems f by simp_all
  have "list_all plain_char n" using ok(2) by (simp add: list_all_iff name_char_def)
  then have "CHR 0x0A \<notin> set (n @ '':'' @ v)" using plain_no_LF [of n] plain_no_LF [OF ok(1)] by simp
  from unfolded_line [OF this, of True b "concat (map field_text fs) @ ys"] show ?case
    using ok(3,4) Cons.IH Cons.prems f by simp
qed simp

lemma uri_no_LF:
  assumes "list_all (uri_ok ok) us" "\<not> ok 10"
  shows "CHR 0x0A \<notin> set (concat (map uri_text us))"
proof -
  have "CHR 0x0A \<notin> set (uri_text u)" if u: "uri_ok ok u" for u
  proof (cases u)
    case (Plain c)
    then have "c \<noteq> CHR 0x0A" using u assms(2) char_ints(3) by fastforce
    then show ?thesis using Plain by simp
  next
    case (Escaped c d)
    have "\<not> hex_lower (CHR 0x0A)" by code_simp
    then have "c \<noteq> CHR 0x0A" "d \<noteq> CHR 0x0A" using u Escaped by auto
    then show ?thesis using Escaped by simp
  qed
  then show ?thesis using assms(1) by (induction us) simp_all
qed

lemma unfolded_request_line:
  assumes "line_ok m h path query v"
  shows "unfolded False (request_line m path query v cr @ ys) = unfolded True ys"
proof -
  have c: "\<not> path_char 10" "\<not> uri_uric 10" by code_simp+
  have "CHR 0x0A \<notin> set m" using assms by (auto simp: line_ok_def method_dict_def)
  moreover have "CHR 0x0A \<notin> set (concat (map uri_text path))" using assms uri_no_LF c(1) by (auto simp: line_ok_def)
  moreover have "CHR 0x0A \<notin> set (query_text query)"
    using assms uri_no_LF [of uri_uric] c(2) by (cases query) (auto simp: line_ok_def)
  moreover have "CHR 0x0A \<notin> set (version_digits v)" by (cases v) simp_all
  ultimately have "CHR 0x0A \<notin> set ((m @ '' '') @ concat (map uri_text path) @ query_text query @ '' '' @ ''HTTP/'' @ version_digits v)"
    by simp
  from unfolded_line [OF this, of False cr ys] show ?thesis by (simp add: request_line_def)
qed

text \<open>The empty line.\<close>

lemma scans_before_end:
  assumes "at_line x"
  shows "\<exists>y. scans (if b then [CHR 0x0D] else []) x y
    \<and> (s_st y \<in> {h_nl, h_cr} \<and> s_nl y = 1 \<and> c_rq y = c_rq x \<and> c_text y = c_text x)"
proof (cases b)
  case True
  have "\<exists>y. scans [CHR 0x0D] x y \<and> (s_st y = h_cr \<and> s_nl y = 1 \<and> c_rq y = c_rq x \<and> c_text y = c_text x)"
    using assms by (intro leads_one)
      (auto simp: at_line_def char_ints char_looks http_switch_def sw_nl_def mark_def shift_def Let_def)
  then show ?thesis using True by auto
qed (use assms in \<open>simp add: at_line_def\<close>)

lemma char_end:
  assumes "s_st x \<in> {h_nl, h_cr}" "s_nl x = 1"
  shows "\<exists>y. http_char (char_int (CHR 0x0A)) x = Break y \<and> s_nl y = 2 \<and> c_rq y = c_rq x \<and> c_text y = c_text x \<and> s_m y = s_m x"
  using assms by (auto simp: char_ints char_looks http_switch_def sw_nl_def sw_cr_def mark_def shift_def Let_def)

lemma newline_split: "newline b = (if b then [CHR 0x0D] else []) @ [CHR 0x0A]"
  by (simp add: newline_def)

lemma fold_safe_scans: "scans cs x y \<Longrightarrow> fold_safe cs x \<Longrightarrow> fold_safe (cs @ ds) x = fold_safe ds y"
proof (induction cs arbitrary: x)
  case (Cons c cs)
  from Cons.prems(1) obtain z where z: "http_char (char_int c) x = Break z" "\<not> 1 < s_nl z" "scans cs (next_char z) y"
    by (auto simp: scans_def split: ctrl.splits if_splits)
  then show ?case using Cons.IH [OF z(3)] Cons.prems(2) by simp
qed simp

text \<open>The scan of the whole head.\<close>

lemma scan_head:
  assumes "http_inv x" "s_st x = h_initial" "s_nl x = 0" "s_httpv0 x = 0" "s_httpv1 x = 0"
    and rq: "rq_server_protocol (c_rq x) = http_unknown_version"
    and ok: "textint_ok (c_text x)" "unat (ti_size (c_text x)) < 2 ^ 31"
    and head: "line_ok m h path query v" "list_all field_ok fs"
    and room: "length (target_value path query) + table_room (collected (s_hmask x) fs) \<le> text_room (c_text x)"
  shows "\<exists>y. http_scan eof (request_head m path query v cr fs b @ rest) x = Done 0 y
    \<and> fold_safe (request_head m path query v cr fs b @ rest) x
    \<and> s_m y = s_m x + of_nat (length (request_head m path query v cr fs b))
    \<and> c_rq y = fold field_rq fs ((c_rq x)\<lparr>rq_server_protocol := v, rq_request_method := h, rq_path := ti_text (c_text x),
         rq_query := (if query = None then rq_query (c_rq x) else ti_text (c_text x) + of_nat (length path + 1))\<rparr>)
    \<and> text_adds (target_value path query @ header_words (collected (s_hmask x) fs))
        (header_table (unat (ti_text (c_text x)) + length (target_value path query)) (collected (s_hmask x) fs))
        (c_text x) (c_text y)" (is "\<exists>y. _ \<and> _ \<and> _ \<and> c_rq y = fold field_rq fs ?rq \<and> ?T y")
proof -
  let ?cr = "if b then [CHR 0x0D] else [] :: bytes"
  let ?pre = "request_line m path query v cr @ concat (map field_text fs) @ ?cr"
  have "\<exists>y. scans ?pre x y \<and> (s_st y \<in> {h_nl, h_cr} \<and> s_nl y = 1 \<and> c_rq y = fold field_rq fs ?rq \<and> ?T y)"
  proof (rule leads_append)
    show "\<exists>y. scans (request_line m path query v cr) x y \<and> (at_line y \<and> s_hmask y = s_hmask x \<and> c_rq y = ?rq
        \<and> text_adds (target_value path query) [] (c_text x) (c_text y))"
      using scans_line [OF assms(2-5) rq ok(1) head(1), of cr] room ok(2) by (auto simp: at_line_def text_adds_def)
  next
    fix y
    assume y: "at_line y \<and> s_hmask y = s_hmask x \<and> c_rq y = ?rq \<and> text_adds (target_value path query) [] (c_text x) (c_text y)"
    then have r: "table_room (collected (s_hmask y) fs) \<le> text_room (c_text y)"
      using room text_adds_room [OF ok(1), of "target_value path query" "[]"] by simp
    show "\<exists>z. scans (concat (map field_text fs) @ ?cr) y z
        \<and> (s_st z \<in> {h_nl, h_cr} \<and> s_nl z = 1 \<and> c_rq z = fold field_rq fs ?rq \<and> ?T z)"
    proof (rule leads_append)
      show "\<exists>z. scans (concat (map field_text fs)) y z \<and> (at_line z \<and> c_rq z = fold field_rq fs (c_rq y)
          \<and> adds_headers (collected (s_hmask y) fs) (c_text y) (c_text z))"
        using scans_fields [OF _ head(2) r] y by blast
    next
      fix z
      assume z: "at_line z \<and> c_rq z = fold field_rq fs (c_rq y) \<and> adds_headers (collected (s_hmask y) fs) (c_text y) (c_text z)"
      have "?T z"
        using text_adds_trans [of "target_value path query" "[]" "c_text x" "c_text y"] y z
          text_adds_pos(1) [OF ok(1), of "target_value path query" "[]" "c_text y"] by (auto simp: adds_headers_def)
      then show "\<exists>u. scans ?cr z u \<and> (s_st u \<in> {h_nl, h_cr} \<and> s_nl u = 1 \<and> c_rq u = fold field_rq fs ?rq \<and> ?T u)"
        using scans_before_end [of z b] y z by auto
    qed
  qed
  then obtain z where z: "scans ?pre x z" "s_st z \<in> {h_nl, h_cr}" "s_nl z = 1" "c_rq z = fold field_rq fs ?rq" "?T z" by blast
  obtain u where u: "http_char (char_int (CHR 0x0A)) z = Break u" "s_nl u = 2" "c_rq u = c_rq z" "c_text u = c_text z" "s_m u = s_m z"
    using char_end [OF z(2,3)] by blast
  have head_eq: "request_head m path query v cr fs b = ?pre @ [CHR 0x0A]" by (simp add: request_head_def newline_split)
  have "unfolded False ?pre = unfolded True ?cr"
    using unfolded_request_line [OF head(1)] unfolded_fields [OF head(2)] by simp
  then have safe: "fold_safe ?pre x" using unfolded_fold_safe [OF assms(1), of ?pre] assms(2) by simp
  have "verdict_ok False x (length ?pre) (Wants z)" using scan_ok [OF assms(1) safe, of False] z(1) by (simp add: scans_def)
  then have m: "s_m z = s_m x + of_nat (length ?pre)" by (simp add: verdict_ok_def)
  have "http_scan eof (?pre @ CHR 0x0A # rest) x = Done 0 (next_char u)"
    unfolding scan_scans [OF z(1)] using u(1,2) by simp
  moreover have "fold_safe (?pre @ CHR 0x0A # rest) x"
    unfolding fold_safe_scans [OF z(1) safe] using u(1,2) by (simp add: stale_fold_def char_ints)
  ultimately show ?thesis using u m z(4,5) by (intro exI [of _ "next_char u"]) (simp add: head_eq)
qed

section \<open>What is read\<close>

definition head_rq ::
    "http_method \<Rightarrow> uri_char list \<Rightarrow> uri_char list option \<Rightarrow> http_version \<Rightarrow> field list \<Rightarrow> minute_http_rq" where
  "head_rq h path query v fs = fold field_rq fs
     \<lparr>rq_flags = 0, rq_server_protocol = v, rq_request_method = h, rq_path = 1,
      rq_query = (if query = None then 0 else of_nat (length path + 2)), rq_content_length = 0\<rparr>"

text \<open>The scan of a head from where \<open>minute_http_init\<close> leaves the parser.\<close>

lemma scan_request:
  assumes "iobuf_ok io" "textint_ok t" "unat (ti_size t) < 2 ^ 31" "minute_http_init hmask io t = Some (s, t0)"
    and "line_ok m h path query v" "list_all field_ok fs"
    and "length (target_value path query) + table_room (collected hmask fs) < unat (ti_size t)"
  shows "\<exists>y. http_scan eof (request_head m path query v cr fs b @ rest) (http_enter zero_rq s io t0) = Done 0 y
    \<and> http_inv (http_enter zero_rq s io t0)
    \<and> fold_safe (request_head m path query v cr fs b @ rest) (http_enter zero_rq s io t0)
    \<and> s_m (http_enter zero_rq s io t0) = io_read io
    \<and> s_m y = io_read io + of_nat (length (request_head m path query v cr fs b))
    \<and> c_rq y = head_rq h path query v fs \<and> textint_ok (c_text y)
    \<and> textint_text (c_text y) = NUL # target_value path query @ header_words (collected hmask fs)
    \<and> textint_ints (c_text y) = header_table (1 + length (target_value path query)) (collected hmask fs)"
proof -
  let ?x = "http_enter zero_rq s io t0" and ?head = "request_head m path query v cr fs b"
  have ready: "s = minute_http_rqs_init hmask io" "reader_ok s io t0" "unread s io = iobuf_bytes io" "textint_text t0 = [NUL]"
      "textint_ints t0 = []" "ti_size t0 = ti_size t"
    using http_init_ready [OF assms(1,2), of hmask] assms(4) by auto
  have t0: "textint_ok t0" "http_inv ?x"
    using ready(2) by (simp_all add: reader_ok_def http_inv_def text_inv_def)
  have pos: "unat (ti_text t0) = 1" using length_textint_text [OF t0(1)] ready(4) by simp
  have "textint_count t0 = 0" using ready(5) length_textint_ints [of t0] by simp
  then have room: "text_room t0 = unat (ti_size t) - 1"
    using textint_count_mult [OF t0(1)] textint_ok_nat(2) [OF t0(1)] pos ready(6) by (simp add: text_room_def)
  have word: "ti_text t0 = 1" using arg_cong [OF pos, of "of_nat :: nat \<Rightarrow> unsigned"] by simp
  have x: "s_st ?x = h_initial" "s_nl ?x = 0" "s_httpv0 ?x = 0" "s_httpv1 ?x = 0" "s_hmask ?x = hmask" "c_text ?x = t0"
      "c_rq ?x = zero_rq" "rq_server_protocol (c_rq ?x) = http_unknown_version"
    by (simp_all add: ready(1) minute_http_rqs_init_def zero_rq_def)
  have query: "(if query = None then rq_query (c_rq ?x) else ti_text (c_text ?x) + of_nat (length path + 1))
      = (if query = None then 0 else of_nat (length path + 2))"
    by (simp add: x word) (simp add: zero_rq_def)
  have r: "length (target_value path query) + table_room (collected (s_hmask ?x) fs) \<le> text_room (c_text ?x)"
    unfolding x room using assms(7) by linarith
  have tx: "textint_ok (c_text ?x)" "unat (ti_size (c_text ?x)) < 2 ^ 31" using t0(1) assms(3) ready(6) by (simp_all add: x)
  obtain y where "http_scan eof (?head @ rest) ?x = Done 0 y" "fold_safe (?head @ rest) ?x"
      "s_m y = s_m ?x + of_nat (length ?head)" "c_rq y = head_rq h path query v fs"
      "text_adds (target_value path query @ header_words (collected hmask fs))
        (header_table (1 + length (target_value path query)) (collected hmask fs)) t0 (c_text y)"
    using scan_head [OF t0(2) x(1-4,8) tx assms(5,6) r, of eof cr b rest]
    unfolding query unfolding x pos word head_rq_def by (auto simp: zero_rq_def)
  moreover have "s_m ?x = io_read io" using ready(1) by (simp add: minute_http_rqs_init_def)
  ultimately show ?thesis using t0(2) ready(4,5) by (auto simp: text_adds_def)
qed

text \<open>C3. What a request says is what the server reads.  For a request line with one of the eight methods,
  a path and a query of permitted characters and of escapes with decimal and lower case digits (the
  upper case ones are decoded wrongly), and a version, and for header lines with
  any names, in any letter case, ended by line feeds with or without carriage returns, one call of
  \<open>minute_http_read\<close> answers 0 with the method and the version of the line; path and query stand in the
  text with their escapes resolved; \<open>Content-Length\<close> (of a line with a carriage return: the length of a
  line that ends with a lone line feed is lost), \<open>Connection\<close>, \<open>Expect\<close> and \<open>Transfer-Encoding\<close> are in the
  request, every other known header is in the table with its value in the text behind, headers with
  unknown names and unknown values are passed over, and the buffer is at the first byte behind the head.\<close>
theorem request_read:
  assumes "iobuf_ok io" "textint_ok t" "unat (ti_size t) < 2 ^ 31" "minute_http_init hmask io t = Some (s, t0)"
    and "iobuf_bytes io = request_head m path query v cr fs b @ rest"
    and "line_ok m h path query v" "list_all field_ok fs"
    and "length (target_value path query) + table_room (collected hmask fs) < unat (ti_size t)"
  shows "\<exists>s' io' t'. minute_http_read zero_rq s io t0 = Some (Some (0, head_rq h path query v fs, s', io', t'))
    \<and> iobuf_bytes io' = rest \<and> textint_ok t'
    \<and> textint_text t' = NUL # target_value path query @ header_words (collected hmask fs)
    \<and> textint_ints t' = header_table (1 + length (target_value path query)) (collected hmask fs)"
proof -
  let ?x = "http_enter zero_rq s io t0" and ?head = "request_head m path query v cr fs b"
  obtain y where y: "http_scan (at_eof io) (?head @ rest) ?x = Done 0 y" "http_inv ?x" "fold_safe (?head @ rest) ?x"
      "s_m ?x = io_read io" "s_m y = io_read io + of_nat (length ?head)" "c_rq y = head_rq h path query v fs"
      "textint_ok (c_text y)" "textint_text (c_text y) = NUL # target_value path query @ header_words (collected hmask fs)"
      "textint_ints (c_text y) = header_table (1 + length (target_value path query)) (collected hmask fs)"
    using scan_request [OF assms(1-4,6-8)] by metis
  have "http_go io None ?x = scan_result (http_scan (at_eof io) (?head @ rest) ?x)"
    by (rule http_go_scan [OF assms(1) y(2,3), of 0]) (use assms(5) y(4) in simp_all)
  then have "minute_http_read zero_rq s io t0 = Some (Some (http_leave s io 0 y))"
    by (simp add: minute_http_read_def y(1) scan_result_def)
  moreover have "length ?head \<le> unat (minute_iobuf_used io)" using assms(5) length_iobuf_bytes [of io] by simp
  then have "iobuf_bytes (io\<lparr>io_read := s_m y\<rparr>) = rest"
    using iobuf_skip_bytes [OF assms(1)] y(5) assms(5) by (simp add: iobuf_skip_def)
  ultimately show ?thesis using y(6-9) by (simp add: http_leave_def EAGAIN_def)
qed

text \<open>A request with an escape, a query, a collected header, one that is not known, and a length.\<close>

definition demo_message :: bytes where
  "demo_message = request_head ''GET'' [Plain (CHR ''/''), Escaped (CHR ''4'') (CHR ''1'')] (Some [Plain (CHR ''q'')]) http_1_1 True
     [(''host'', '' a  b'', False), (''X'', ''1'', True), (''Content-Length'', ''2'', True)] True"

definition demo_message_in :: iobuf where
  "demo_message_in = \<lparr>io_read = 0, io_write = 59, io_mask = 127, io_flags = 0,
     io_data = demo_message @ ''ok'' @ replicate 69 NUL\<rparr>"

definition demo_message_text :: textint where
  "demo_message_text = minute_textint_init 32 (replicate 32 NUL)"

lemma demo_message_in_ok: "iobuf_ok demo_message_in" "iobuf_bytes demo_message_in = demo_message @ ''ok''"
proof -
  have f: "iobuf_size demo_message_in = 2 ^ 7" "length (io_data demo_message_in) = 128"
    "unat (minute_iobuf_used demo_message_in) = 59" by code_simp+
  show "iobuf_ok demo_message_in" using f by (auto simp: iobuf_ok_def intro!: exI [of _ 7])
  show "iobuf_bytes demo_message_in = demo_message @ ''ok''" by code_simp
qed

lemma request_read_witness:
  "\<exists>s t0 s' io' t'. minute_http_init (NOT 0) demo_message_in demo_message_text = Some (s, t0)
    \<and> minute_http_read zero_rq s demo_message_in t0 = Some (Some (0,
         \<lparr>rq_flags = http_content_length, rq_server_protocol = http_1_1, rq_request_method = http_get, rq_path = 1,
          rq_query = 4, rq_content_length = 2\<rparr>, s', io', t'))
    \<and> iobuf_bytes io' = ''ok'' \<and> textint_text t' = [NUL] @ ''/A'' @ [NUL] @ ''q'' @ [NUL] @ ''a b'' @ [NUL]
    \<and> textint_ints t' = [rq_code http_rq_host, 6]"
proof -
  let ?path = "[Plain (CHR ''/''), Escaped (CHR ''4'') (CHR ''1'')]" and ?query = "Some [Plain (CHR ''q'')]"
    and ?fs = "[(''host'', '' a  b'', False), (''X'', ''1'', True), (''Content-Length'', ''2'', True)]"
  have ok: "line_ok ''GET'' http_get ?path ?query http_1_1" "list_all field_ok ?fs" by code_simp+
  have c: "collected (NOT 0) ?fs = [(rq_code http_rq_host, ''a b'')]" by code_simp
  have v: "target_value ?path ?query = ''/A'' @ [NUL] @ ''q'' @ [NUL]" by code_simp
  have rq: "head_rq http_get ?path ?query http_1_1 ?fs = \<lparr>rq_flags = http_content_length, rq_server_protocol = http_1_1,
      rq_request_method = http_get, rq_path = 1, rq_query = 4, rq_content_length = 2\<rparr>" by code_simp
  have size: "unat (ti_size demo_message_text) = 32" "length (replicate 32 NUL) = 32" by code_simp+
  have t: "textint_ok demo_message_text" using textint_init_ok(1) [of 32 "replicate 32 NUL"] by (simp add: demo_message_text_def)
  obtain s t0 where i: "minute_http_init (NOT 0) demo_message_in demo_message_text = Some (s, t0)"
    using http_init_ready [OF demo_message_in_ok(1) t] by blast
  have "length (target_value ?path ?query) + table_room (collected (NOT 0) ?fs) < unat (ti_size demo_message_text)"
    unfolding c v size by (simp add: table_room_def)
  then show ?thesis
    using request_read [OF demo_message_in_ok(1) t _ i demo_message_in_ok(2) [unfolded demo_message_def] ok]
    unfolding rq c v size using i by (simp add: header_words_def) blast
qed

end
