(* ===== verification/Httpd_Head.thy ===== *)
theory Httpd_Head
  imports Httpd_Serve Http_Message
begin

text \<open>
  From the bytes of a request to the bytes of the response: the parser's theorem about the head of a
  request (\<open>Http_Message\<close>) and the server's about an accepted one (\<open>Httpd_Serve\<close>) put together.
\<close>

lemma length_stream: "\<not> fails es \<Longrightarrow> length (stream es) = event_bytes es"
  by (induction es rule: stream.induct) simp_all

lemma state_bytes_small:
  assumes "state_ok st w"
  shows "length (state_bytes st w) < 2 ^ 31"
proof -
  have "unat (minute_iobuf_used (st_in st)) = unat (io_write (st_in st)) - unat (io_read (st_in st))"
    using assms by (simp add: state_ok_def used_unwrapped)
  then have "unat (minute_iobuf_used (st_in st)) \<le> unat (io_write (st_in st))" by simp
  moreover have "unat (io_write (st_in st)) + event_bytes (w_in w) < 2 ^ 31" "\<not> fails (w_in w)"
    using assms by (simp_all add: state_ok_def)
  ultimately show ?thesis using length_stream [of "w_in w"] by (simp add: state_bytes_def length_iobuf_bytes)
qed

definition headers_of :: "field list \<Rightarrow> (int \<times> string) list" where
  "headers_of fs = collected MINUTE_ALL_HEADERS fs"

text \<open>The connection holds the head of a request, which fits into the text block, and a payload of the
  length that it declares.\<close>

definition request_waits ::
    "minute_httpd_state \<Rightarrow> world \<Rightarrow> string \<Rightarrow> http_method \<Rightarrow> uri_char list \<Rightarrow> uri_char list option \<Rightarrow> http_version
     \<Rightarrow> bool \<Rightarrow> field list \<Rightarrow> bool \<Rightarrow> bytes \<Rightarrow> bool" where
  "request_waits st w m h path query v cr fs b rest \<longleftrightarrow>
     state_ok st w \<and> state_bytes st w = request_head m path query v cr fs b @ rest \<and> unfolded True rest
   \<and> line_ok m h path query v \<and> list_all field_ok fs
   \<and> unat (ti_size (st_text st)) < 2 ^ 31
   \<and> length (target_value path query) + table_room (headers_of fs) < unat (ti_size (st_text st))
   \<and> \<not> flag_set (rq_flags (head_rq h path query v fs)) http_transfer_chunked
   \<and> 0 \<le> payload_length (head_rq h path query v fs)
   \<and> payload_length (head_rq h path query v fs) \<le> int (length rest)"

lemma request_waits_received:
  assumes "request_waits st w m h path query v cr fs b rest"
  obtains y where "request_received st w y rest" "c_rq y = head_rq h path query v fs"
    "textint_text (c_text y) = NUL # target_value path query @ header_words (headers_of fs)"
proof -
  note a = assms [unfolded request_waits_def]
  let ?x = "request_ctx st" and ?head = "request_head m path query v cr fs b"
  have ok: "iobuf_ok (st_in st)" "textint_ok (minute_textint_clear (st_text st))"
      "ti_size (minute_textint_clear (st_text st)) = ti_size (st_text st)"
    using a textint_clear_ok(1) [of "st_text st"] by (simp_all add: state_ok_def minute_textint_clear_def)
  have init: "minute_http_init MINUTE_ALL_HEADERS (st_in st) (minute_textint_clear (st_text st))
      = Some (minute_http_rqs_init MINUTE_ALL_HEADERS (st_in st), fresh_text (st_text st))"
    using a first_response_ok(5) [of st w 0] by simp
  have scan: "\<exists>y. http_scan False (?head @ rest) ?x = Done 0 y \<and> http_inv ?x \<and> fold_safe (?head @ rest) ?x
      \<and> s_m ?x = io_read (st_in st) \<and> s_m y = io_read (st_in st) + of_nat (length ?head)
      \<and> c_rq y = head_rq h path query v fs \<and> textint_ok (c_text y)
      \<and> textint_text (c_text y) = NUL # target_value path query @ header_words (headers_of fs)
      \<and> textint_ints (c_text y) = header_table (1 + length (target_value path query)) (headers_of fs)" for rest
    unfolding request_ctx_def headers_of_def
    by (rule scan_request [OF ok(1,2) _ init]) (use a ok(3) in \<open>simp_all add: headers_of_def\<close>)
  obtain y where y: "http_scan False (?head @ rest) ?x = Done 0 y" "c_rq y = head_rq h path query v fs"
      "textint_text (c_text y) = NUL # target_value path query @ header_words (headers_of fs)"
    using scan [of rest] by blast
  obtain z where z: "http_scan False ?head ?x = Done 0 z" "http_inv ?x" "fold_safe ?head ?x" "s_m ?x = io_read (st_in st)"
      "s_m z = io_read (st_in st) + of_nat (length ?head)"
    using scan [of "[]"] by auto
  obtain i where i: "i \<le> length ?head" "s_m z = s_m ?x + of_nat i" "scan_rest ?head ?x = drop i ?head"
    using scan_rest_position [OF z(2,3,1)] by blast
  have small: "length ?head < 2 ^ 31" using state_bytes_small [of st w] a by simp
  have "(of_nat i :: unsigned) = of_nat (length ?head)" using z(4,5) i(2) by simp
  moreover have big: "length ?head < 2 ^ 32" by (rule order_less_trans [OF small]) simp
  moreover have "unat (of_nat i :: unsigned) = i" by (rule unat_of_nat_small [OF order_le_less_trans [OF i(1) big]])
  moreover have "unat (of_nat (length ?head) :: unsigned) = length ?head" by (rule unat_of_nat_small [OF big])
  ultimately have "i = length ?head" by metis
  then have rest: "rest = scan_rest (?head @ rest) ?x" using scan_rest_append(1) [OF z(1), of rest] i(3) by simp
  have "unfolded False (?head @ rest)"
  proof -
    have l: "line_ok m h path query v" "list_all field_ok fs" "unfolded True rest" using a by simp_all
    have "unfolded True (newline b @ rest)" using l(3) by (simp add: newline_def)
    then show ?thesis using unfolded_request_line [OF l(1)] unfolded_fields [OF l(2)] by (simp add: request_head_def)
  qed
  then have "request_received st w y rest" using a y rest by (simp add: request_received_def)
  then show ?thesis using y(2,3) that by blast
qed

text \<open>The header lines leave the first line alone.\<close>

lemma field_rq_line:
  "rq_server_protocol (field_rq f rq) = rq_server_protocol rq" "rq_request_method (field_rq f rq) = rq_request_method rq"
  "rq_path (field_rq f rq) = rq_path rq" "rq_query (field_rq f rq) = rq_query rq"
  by (cases f; simp add: length_rq_def flag_rq_def split: option.split)+

lemma fold_field_rq_line:
  "rq_server_protocol (fold field_rq fs rq) = rq_server_protocol rq \<and> rq_request_method (fold field_rq fs rq) = rq_request_method rq
   \<and> rq_path (fold field_rq fs rq) = rq_path rq \<and> rq_query (fold field_rq fs rq) = rq_query rq"
  by (induction fs arbitrary: rq) (simp_all add: field_rq_line)

lemma head_rq_line:
  "rq_server_protocol (head_rq h path query v fs) = v" "rq_request_method (head_rq h path query v fs) = h"
  "rq_path (head_rq h path query v fs) = 1"
  "rq_query (head_rq h path query v fs) = (if query = None then 0 else of_nat (length path + 2))"
  unfolding head_rq_def by (simp_all add: fold_field_rq_line)

text \<open>The strings an application finds at \<open>rq_path\<close> and \<open>rq_query\<close>.\<close>

definition query_string :: "uri_char list option \<Rightarrow> string" where
  "query_string query = (case query of None \<Rightarrow> [] | Some q \<Rightarrow> map uri_value q)"

lemma c_string_in_text:
  assumes "textint_text t = xs @ w @ NUL # ys" "NUL \<notin> set w"
  shows "c_string_at (ti_data t) (length xs) = Some w"
proof -
  obtain zs where d: "ti_data t = xs @ w @ NUL # zs"
    using assms(1) append_take_drop_id [of "unat (ti_text t)" "ti_data t"] unfolding textint_text_def by (metis append.assoc append_Cons)
  have "takeWhile (\<lambda>c. c \<noteq> NUL) (w @ NUL # zs) = w" using assms(2) by (induction w) auto
  then show ?thesis by (simp add: c_string_at_def d)
qed

lemma head_strings:
  assumes "textint_text t = NUL # target_value path query @ ws" "NUL \<notin> uri_value ` set path" "NUL \<notin> set (query_string query)"
    and "length path + 2 < 2 ^ 31" "rq = head_rq h path query v fs"
  shows "c_string_at (ti_data t) (unat (rq_path rq)) = Some (map uri_value path)"
    "c_string_at (ti_data t) (unat (rq_query rq)) = Some (query_string query)"
proof -
  show "c_string_at (ti_data t) (unat (rq_path rq)) = Some (map uri_value path)"
    using c_string_in_text [of t "[NUL]" "map uri_value path" "query_value query @ ws"] assms(1,2)
    by (simp add: assms(5) head_rq_line target_value_def)
  show "c_string_at (ti_data t) (unat (rq_query rq)) = Some (query_string query)"
  proof (cases query)
    case None
    then show ?thesis using c_string_in_text [of t "[]" "[]" "target_value path query @ ws"] assms(1)
      by (simp add: assms(5) head_rq_line query_string_def)
  next
    case (Some q)
    have "length path + 2 < 2 ^ 32" by (rule order_less_trans [OF assms(4)]) simp
    from unat_of_nat_small [OF this] have "unat (rq_query rq) = length path + 2"
      using Some by (simp add: assms(5) head_rq_line)
    then show ?thesis
      using c_string_in_text [of t "NUL # map uri_value path @ [NUL]" "map uri_value q" ws] assms(1,3) Some
      by (simp add: target_value_def query_string_def)
  qed
qed

end
