(* ===== verification/Httpd_Test.thy ===== *)
theory Httpd_Test
  imports Httpd_Head
begin

text \<open>
  The server's own test, \<open>src/libhttpd/test-httpd.c\<close>: an application that shows the path and the
  query in one header, what it has read of the payload in another, and the status in its body; and
  the loop that runs it on one connection.
\<close>

section \<open>The application\<close>

definition test_head ::
    "(int \<Rightarrow> tm) \<Rightarrow> httpd_response \<Rightarrow> 'u \<Rightarrow> (int \<times> httpd_response \<times> 'u) c_loop" where
  "test_head gmtime r u =
     c_bind (c_step (c_string_at (ti_data (r_text r)) (unat (rq_path (r_rq r))))) (\<lambda>path.
     c_bind (c_step (c_string_at (ti_data (r_text r)) (unat (rq_query (r_rq r))))) (\<lambda>query.
     c_bind (minute_httpd_header http_rsp_set_cookie (take 63 (''path:'' @ path @ '',query:'' @ query)) r) (\<lambda>r.
     c_bind (minute_httpd_header_timestamp gmtime http_rsp_last_modified 1314524588 r) (\<lambda>r.
       Some (Some (100, r, u))))))"

definition test_error :: "minute_http_rq \<Rightarrow> int \<Rightarrow> 'u \<Rightarrow> 'u" where
  "test_error rq status u = u"

text \<open>The block \<open>x\<close> has 64 bytes, the first twelve of them a word; the zero behind what was read may
  be outside of it.\<close>

definition payload_word :: string where "payload_word = ''in payload: ''"

definition test_payload :: "httpd_response \<Rightarrow> 'u \<Rightarrow> (int \<times> httpd_response \<times> 'u) c_loop" where
  "test_payload r u =
     (let n = length payload_word in
      c_bind (minute_httpd_in_read (Some (replicate (64 - n) NUL)) (of_nat (64 - n)) r) (\<lambda>(k, buf, r).
      c_bind (c_step (mem_write (payload_word @ (case buf of Some d \<Rightarrow> d | None \<Rightarrow> [])) (nat (int n + k)) NUL)) (\<lambda>x.
      c_bind (c_step (c_string_at x 0)) (\<lambda>s.
      c_bind (minute_httpd_header http_rsp_etag s r) (\<lambda>r.
        Some (Some (200, r, u)))))))"

definition response_line :: "int \<Rightarrow> string" where
  "response_line status = ''in response, status: '' @ fmt_d status @ [CHR 0x0A]"

definition test_response :: "int \<Rightarrow> httpd_response \<Rightarrow> 'u \<Rightarrow> (int \<times> httpd_response \<times> 'u) c_loop" where
  "test_response status r u =
     c_bind (minute_httpd_write (snprintf_block 64 (response_line status)) (of_nat (length (response_line status))) r)
       (\<lambda>(n, r). Some (Some (0, r, u)))"

definition test_app :: "(int \<Rightarrow> tm) \<Rightarrow> 'u minute_httpd_app" where
  "test_app gmtime =
     \<lparr>app_header = test_head gmtime, app_payload = test_payload, app_response = test_response, app_error = test_error\<rparr>"

section \<open>The test\<close>

partial_function (option) test_loop ::
    "(int \<Rightarrow> tm) \<Rightarrow> (nat \<Rightarrow> unsigned) \<Rightarrow> nat \<Rightarrow> minute_httpd_state \<Rightarrow> world \<Rightarrow> (int \<times> world) c_loop" where
  "test_loop gmtime clock k st w =
     c_bind (minute_httpd_handle (test_app gmtime) gmtime (clock k) st w ()) (\<lambda>(status, st, w, u).
       if status = httpd_client_ok_open then test_loop gmtime clock (Suc k) st w
       else Some (Some (status, w)))"

declare test_loop.simps [code]

definition test_inetd ::
    "(int \<Rightarrow> tm) \<Rightarrow> (nat \<Rightarrow> unsigned) \<Rightarrow> bytes \<Rightarrow> bytes \<Rightarrow> bytes \<Rightarrow> world \<Rightarrow> (int \<times> world) c_loop" where
  "test_inetd gmtime clock inbuf outbuf textbuf w =
     test_loop gmtime clock 0
       (minute_httpd_init 0 1 (minute_iobuf_init 0x100 inbuf) (minute_iobuf_init 0x400 outbuf)
          (minute_textint_init 0x400 textbuf)) w"

text \<open>A run: the parent writes the request into a pipe and hands on the exit status of its child, which
  is 0 when the test function returns what is expected.  The pipe's other end stays open in the
  parent: what the child reads behind the request is not a matter of the test.\<close>

definition run_test :: "(world \<Rightarrow> (int \<times> world) c_loop) \<Rightarrow> rd_event list \<Rightarrow> int \<Rightarrow> int c_loop" where
  "run_test testfunc arrives expected =
     c_bind (testfunc \<lparr>w_in = arrives, w_script = [], w_sent = []\<rparr>) (\<lambda>(status, w).
       Some (Some (if expected \<noteq> status then 1 else 0)))"

definition test_requests :: bytes where
  "test_requests =
     ''POST /test/uri?with&query%20string HTTP/1.1'' @ NL @ ''Host: minute.example.org'' @ NL
     @ ''Expect: 100-continue'' @ NL @ ''Transfer-Encoding: chunked'' @ NL @ ''Content-Length: 5'' @ NL @ NL
     @ ''5'' @ NL @ ''12345'' @ NL @ ''0'' @ NL @ ''Content-Type: text/plain'' @ NL @ NL
     @ ''POST /test/uri?with&query%20string HTTP/1.1'' @ NL @ ''Host: minute.example.org'' @ NL
     @ ''Content-Length: 5'' @ NL @ NL @ ''12345'' @ NL
     @ ''GET / HTTP/1.1'' @ NL @ ''Connection: close'' @ NL @ NL"

definition bad_request :: bytes where
  "bad_request = ''GSET / HTTP/1.1'' @ NL @ NL"

section \<open>What it answers\<close>

definition test_headers :: "(int \<Rightarrow> tm) \<Rightarrow> string \<Rightarrow> string \<Rightarrow> (http_response_header \<times> string) list" where
  "test_headers gmtime path query =
     [(http_rsp_set_cookie, take 63 (''path:'' @ path @ '',query:'' @ query)),
      (http_rsp_last_modified, minute_rfc_date gmtime 1314524588)]"

definition test_etag :: "bytes \<Rightarrow> string" where
  "test_etag xs = takeWhile (\<lambda>c. c \<noteq> NUL) (payload_word @ xs)"

definition test_answer :: "(int \<Rightarrow> tm) \<Rightarrow> 'u visit \<Rightarrow> string \<Rightarrow> string \<Rightarrow> nat \<Rightarrow> 'u answer" where
  "test_answer gmtime v path query j =
     \<lparr>an_interim = interim_line (vis_rq v),
      an_headers = test_headers gmtime path query @ [(http_rsp_etag, test_etag (take j (vis_payload v)))],
      an_status = 200, an_data = vis_data v, an_body = (if bodyless (vis_rq v) 200 then [] else response_line 200),
      an_final = vis_data v\<rparr>"

text \<open>One answer for every number of bytes the read may find, as long as the payload leaves room for
  the zero behind it.\<close>

definition test_answers :: "(int \<Rightarrow> tm) \<Rightarrow> 'u visit \<Rightarrow> 'u answer set" where
  "test_answers gmtime v =
     (case (c_string_at (ti_data (vis_text v)) (unat (rq_path (vis_rq v))),
            c_string_at (ti_data (vis_text v)) (unat (rq_query (vis_rq v)))) of
        (Some path, Some query) \<Rightarrow>
          if length (vis_payload v) < 52 \<and> length (vis_payload v) < vis_in_room v \<and> vis_room v < 2 ^ 19
          then test_answer gmtime v path query ` {..length (vis_payload v)} else {}
      | _ \<Rightarrow> {})"

lemma test_head_eq:
  assumes "c_string_at (ti_data (r_text r)) (unat (rq_path (r_rq r))) = Some path"
    and "c_string_at (ti_data (r_text r)) (unat (rq_query (r_rq r))) = Some query"
  shows "test_head gmtime r u = c_bind (header_all (test_headers gmtime path query) r) (\<lambda>r. Some (Some (100, r, u)))"
  using assms by (simp add: test_head_def test_headers_def minute_httpd_header_timestamp_def c_bind_assoc)

lemma c_string_block: "c_string_at (xs @ NUL # ys) 0 = Some (takeWhile (\<lambda>c. c \<noteq> NUL) xs)"
  by (simp add: c_string_at_def takeWhile_tail)

lemma test_payload_eq:
  assumes "owes p r" "length p < 52" "length p < iobuf_size (r_in r)"
  obtains j q where "j \<le> length p" "takes p j r q" "same_output r q" "iobuf_size (r_in q) = iobuf_size (r_in r)"
    "test_payload r u = c_bind (header_all [(http_rsp_etag, test_etag (take j p))] q) (\<lambda>r. Some (Some (200, r, u)))"
proof -
  let ?buf = "replicate 52 NUL"
  have pend: "nat (r_pending r) \<le> length p" using assms(1) by (auto simp: owes_def PENDING_EOF_def)
  have ro: "read_ok (Some ?buf) 52 r" using pend assms(2,3) by (auto simp: read_ok_def)
  obtain j q where 1: "minute_httpd_in_read (Some ?buf) 52 r = Some (Some (int j,
        map_option (\<lambda>d. take j p @ drop j d) (Some ?buf), q))"
      "takes p j r q" "same_output r q" "io_mask (r_in q) = io_mask (r_in r)"
    using in_read_owes [OF assms(1) ro] by (auto simp del: option.map_sel)
  have j: "j \<le> length p" using 1(2) by (simp add: takes_def)
  let ?x = "payload_word @ take j p @ drop j ?buf"
  have w: "length payload_word = 12" by (simp add: payload_word_def)
  have l: "12 + j < length ?x" using j assms(2) by (simp add: w)
  then have wr: "mem_write ?x (nat (int 12 + int j)) NUL = Some (?x[12 + j := NUL])"
    by (simp add: mem_write_def nat_add_distrib)
  have "drop j ?buf = NUL # drop (Suc j) ?buf" using j assms(2) Cons_nth_drop_Suc [of j ?buf] by simp
  then have x: "?x[12 + j := NUL] = (payload_word @ take j p) @ NUL # drop (Suc j) ?buf"
    using j by (simp add: w list_update_append)
  have z: "c_string_at (?x[12 + j := NUL]) 0 = Some (test_etag (take j p))"
    unfolding x test_etag_def by (rule c_string_block)
  have "test_payload r u = c_bind (header_all [(http_rsp_etag, test_etag (take j p))] q) (\<lambda>r. Some (Some (200, r, u)))"
    using 1(1) wr z by (simp add: test_payload_def w c_bind_assoc)
  then show ?thesis using that j 1(2-4) by (simp add: iobuf_size_def)
qed

lemma test_app_sel [simp]:
  "app_header (test_app gmtime) = test_head gmtime" "app_payload (test_app gmtime) = test_payload"
  "app_response (test_app gmtime) = test_response" "app_error (test_app gmtime) = test_error"
  by (simp_all add: test_app_def)

lemma test_header_values: "[] \<notin> snd ` set (test_headers gmtime path query)" "test_etag xs \<noteq> []"
  using rfc_date_bounds(1) [of gmtime 1314524588]
  by (auto simp: test_headers_def test_etag_def payload_word_def)

lemma test_status:
  assumes "c_string_at (ti_data (r_text r)) (unat (rq_path (r_rq r))) = Some path"
    and "c_string_at (ti_data (r_text r)) (unat (rq_query (r_rq r))) = Some query"
    and "owes p r" "length p < 52" "length p < iobuf_size (r_in r)" "iobuf_size (r_out r) < 2 ^ 30"
    and len: "\<And>j. j \<le> length p
        \<Longrightarrow> length (header_lines (test_headers gmtime path query @ [(http_rsp_etag, test_etag (take j p))])) \<le> H"
    and "length (outb r) + H \<le> iobuf_size (r_out r)" "out_ok (n + H) r"
  shows "\<exists>j \<le> length p. \<exists>r'. handle_status (test_app gmtime) r u = Some (Some (200, r', u))
    \<and> adds_lines (interim_line (r_rq r))
        (header_lines (test_headers gmtime path query @ [(http_rsp_etag, test_etag (take j p))])) r r'
    \<and> takes p j r r' \<and> out_ok n r'"
proof -
  let ?hs = "test_headers gmtime path query" and ?e = "\<lambda>j. [(http_rsp_etag, test_etag (take j p))]"
  have le: "length (header_lines ?hs) + length (header_lines (?e j)) \<le> H" if "j \<le> length p" for j
    using len [OF that] by (simp add: header_lines_append)
  have lh: "length (header_lines ?hs) \<le> H" using le [of 0] by simp
  have o: "out_ok ((n + (H - length (header_lines ?hs))) + length (header_lines ?hs)) r"
    using assms(9) by (rule out_ok_mono) (use lh in simp)
  have fit: "length (outb r) + length (header_lines ?hs) \<le> iobuf_size (r_out r)" using assms(8) lh by simp
  obtain q where q: "header_all ?hs r = Some (Some q)" "adds_lines [] (header_lines ?hs) r q"
      "out_ok (n + (H - length (header_lines ?hs))) q" "same_but_out r q"
    using header_all_adds [OF o test_header_values(1) fit assms(6)] by blast
  let ?q = "add_sent (interim_line (r_rq r)) q"
  have s: "same_but_out r ?q" "r_rq q = r_rq r" "iobuf_size (r_in ?q) = iobuf_size (r_in r)"
    using q(4) by (simp_all add: same_but_out_def)
  have q': "owes p ?q" "length p < iobuf_size (r_in ?q)" using assms(3,5) owes_same_out [OF s(1)] s(3) by simp_all
  obtain j q1 where j: "j \<le> length p" "takes p j ?q q1" "same_output ?q q1"
      "test_payload ?q u = c_bind (header_all (?e j) q1) (\<lambda>r. Some (Some (200, r, u)))"
    by (rule test_payload_eq [OF q'(1) assms(4) q'(2)]) blast
  have s1: "iobuf_size (r_out q1) = iobuf_size (r_out r)" "outb q1 = outb r @ header_lines ?hs"
      "sent q1 = sent r @ interim_line (r_rq r)" "r_flags q1 = r_flags r"
    using j(3) q(2) by (simp_all add: same_output_def adds_lines_def)
  have "out_ok (n + (H - length (header_lines ?hs))) q1" using q(3) j(3) by (simp add: out_ok_def same_output_def)
  then have "out_ok (n + length (header_lines (?e j))) q1" by (rule out_ok_mono) (use le [OF j(1)] in simp)
  moreover have "[] \<notin> snd ` set (?e j)" using test_header_values(2) [of "take j p"] by auto
  moreover have "length (outb q1) + length (header_lines (?e j)) \<le> iobuf_size (r_out q1)"
    using assms(8) le [OF j(1)] by (simp add: s1)
  ultimately obtain r' where r': "header_all (?e j) q1 = Some (Some r')" "adds_lines [] (header_lines (?e j)) q1 r'"
      "out_ok n r'" "same_but_out q1 r'"
    using header_all_adds [of n "?e j" q1] assms(6) s1(1) by auto
  have "handle_status (test_app gmtime) r u = Some (Some (200, r', u))"
    using q(1) interim_sent [OF q(3)] j(4) r'(1) test_head_eq [OF assms(1,2), of gmtime u]
    by (simp add: handle_status_def s(2))
  moreover have "adds_lines (interim_line (r_rq r)) (header_lines (?hs @ ?e j)) r r'"
    using r'(2) s1 by (simp add: adds_lines_def header_lines_append)
  moreover have "takes p j r r'"
    using j(2) s(1) r'(4) owes_same_out [OF r'(4)] by (simp add: takes_def same_but_out_def conn_bytes_def)
  ultimately show ?thesis using j(1) r'(3) by blast
qed

lemma response_line_length: "0 \<le> status \<Longrightarrow> status < 1000 \<Longrightarrow> length (response_line status) \<le> 26"
  "response_line status \<noteq> []"
  using fmt_d_length [of status] by (auto simp: response_line_def)

lemma test_writes:
  assumes "vis_room v < 2 ^ 19"
  shows "writes_body (test_app gmtime) v (test_answer gmtime v path query j)"
  unfolding writes_body_def
proof (intro allI impI)
  fix r n
  let ?A = "test_answer gmtime v path query j"
  assume r: "r_rq r = vis_rq v" "iobuf_size (r_out r) = vis_room v" "out_ok (n + length (an_body ?A)) r"
  show "\<exists>r'. handle_body (test_app gmtime) (an_status ?A) r (an_data ?A) = Some (Some (r', an_final ?A))
      \<and> sends (flag_set (r_flags r) httpd_te_chunked) r (an_body ?A) r' \<and> out_ok n r'"
  proof (cases "bodyless (vis_rq v) 200")
    case True
    then show ?thesis
      using r delivers_sends [OF delivers_nil] by (auto simp: handle_body_def bodyless_def test_answer_def)
  next
    case False
    let ?x = "response_line 200" and ?c = "flag_set (r_flags r) httpd_te_chunked"
    note len = response_line_length [of 200]
    have u: "unat (of_nat (length ?x) :: unsigned) = length ?x" using len by (intro unat_of_nat_small) simp
    have t: "take (length ?x) (snprintf_block 64 ?x) = ?x" "length ?x \<le> length (snprintf_block 64 ?x)"
      using len by (simp_all add: snprintf_block_def)
    have "out_ok (n + unat (of_nat (length ?x) :: unsigned)) r"
      using r(3) False by (simp add: u test_answer_def)
    moreover have "iobuf_size (r_out r) + unat (of_nat (length ?x) :: unsigned) < chunk_limit ?c"
      using r(2) assms len by (simp add: u chunk_limit_def)
    moreover have "0 < unat (of_nat (length ?x) :: unsigned)" "unat (of_nat (length ?x) :: unsigned) \<le> length (snprintf_block 64 ?x)"
      using t(2) len(2) unfolding u by simp_all
    ultimately obtain q where q: "minute_httpd_write (snprintf_block 64 ?x) (of_nat (length ?x)) r
          = Some (Some (sint (of_nat (length ?x) :: unsigned), q))"
        "delivers ?c r ?x q" "out_ok n q"
      using output_delivers [of n "of_nat (length ?x)" r "snprintf_block 64 ?x" ?c] t(1)
      unfolding u minute_httpd_write_def by auto
    have "handle_body (test_app gmtime) (an_status ?A) r (an_data ?A) = Some (Some (q, an_final ?A))"
      using False r(1) q(1) by (simp add: handle_body_def bodyless_def test_answer_def test_response_def Let_def)
    then show ?thesis using q(2,3) False delivers_sends by (auto simp: test_answer_def)
  qed
qed

interpretation test: http_application "test_app gmtime" "test_answers gmtime" for gmtime
proof (unfold_locales)
  fix v :: "'a visit"
  assume "test_answers gmtime v \<noteq> {}"
  then obtain path query where
    t: "c_string_at (ti_data (vis_text v)) (unat (rq_path (vis_rq v))) = Some path"
      "c_string_at (ti_data (vis_text v)) (unat (rq_query (vis_rq v))) = Some query"
      "length (vis_payload v) < 52" "length (vis_payload v) < vis_in_room v" "vis_room v < 2 ^ 19" and
    S: "test_answers gmtime v = test_answer gmtime v path query ` {..length (vis_payload v)}"
    by (auto simp: test_answers_def split: option.splits if_splits)
  have "prepares (test_app gmtime) v (test_answers gmtime v)"
    unfolding prepares_def
  proof (intro allI impI)
    fix r n H
    assume r: "visits v r" "owes (vis_payload v) r" "\<forall>A \<in> test_answers gmtime v. length (header_lines (an_headers A)) \<le> H"
      "length (outb r) + H \<le> vis_room v" "out_ok (n + H) r"
    have v: "r_rq r = vis_rq v" "r_text r = vis_text v" "iobuf_size (r_out r) = vis_room v" "iobuf_size (r_in r) = vis_in_room v"
      using r(1) by (simp_all add: visits_def)
    have "\<exists>j \<le> length (vis_payload v). \<exists>r'. handle_status (test_app gmtime) r (vis_data v) = Some (Some (200, r', vis_data v))
        \<and> adds_lines (interim_line (r_rq r))
            (header_lines (test_headers gmtime path query @ [(http_rsp_etag, test_etag (take j (vis_payload v)))])) r r'
        \<and> takes (vis_payload v) j r r' \<and> out_ok n r'"
      by (rule test_status) (use t r S in \<open>auto simp: v test_answer_def\<close>)
    then show "\<exists>A \<in> test_answers gmtime v. \<exists>r' k.
        handle_status (test_app gmtime) r (vis_data v) = Some (Some (an_status A, r', an_data A))
        \<and> adds_lines (an_interim A) (header_lines (an_headers A)) r r' \<and> takes (vis_payload v) k r r' \<and> out_ok n r'"
      unfolding S by (auto simp: test_answer_def v)
  qed
  then show "answers (test_app gmtime) v (test_answers gmtime v)"
    using test_writes [OF t(5)] unfolding answers_def S by blast
qed

section \<open>The second run\<close>

text \<open>The blocks of the test are fit for the server.\<close>

lemma test_state_ok:
  assumes "length inbuf = 0x100" "length outbuf = 0x400" "length textbuf = 0x400"
    and "events_ok arrives" "\<not> fails arrives" "event_bytes arrives < 2 ^ 31"
  defines "st \<equiv> minute_httpd_init 0 1 (minute_iobuf_init 0x100 inbuf) (minute_iobuf_init 0x400 outbuf)
      (minute_textint_init 0x400 textbuf)"
    and "w \<equiv> \<lparr>w_in = arrives, w_script = [], w_sent = []\<rparr>"
  shows "state_ok st w" "state_bytes st w = stream arrives" "iobuf_size (st_in st) = 256"
proof -
  note i = minute_iobuf_init_ok [of 8 "0x100" inbuf] and o = minute_iobuf_init_ok [of 10 "0x400" outbuf]
  have t: "textint_ok (minute_textint_init 0x400 textbuf)"
    using assms(3) by (simp add: textint_ok_def minute_textint_init_def)
  show "iobuf_size (st_in st) = 256" using i assms(1) by (simp add: st_def minute_httpd_init_def)
  show "state_bytes st w = stream arrives"
    by (simp add: st_def w_def minute_httpd_init_def state_bytes_def iobuf_bytes_def ring_slice_def
        minute_iobuf_used_def minute_iobuf_init_def)
  show "state_ok st w"
    using i(1) o t assms(1-6) by (simp add: state_ok_def st_def w_def minute_httpd_init_def at_eof_def
        minute_iobuf_init_def iobuf_unwrapped_def)
qed

lemma bad_request_refused:
  assumes "length inbuf = 0x100" "length outbuf = 0x400" "length textbuf = 0x400"
    and "events_ok arrives" "\<not> fails arrives" "event_bytes arrives < 2 ^ 31" "stream arrives = bad_request"
  shows "run_test (test_inetd gmtime clock inbuf outbuf textbuf) arrives (-400) = Some (Some 0)"
proof -
  let ?st = "minute_httpd_init 0 1 (minute_iobuf_init 0x100 inbuf) (minute_iobuf_init 0x400 outbuf)
      (minute_textint_init 0x400 textbuf)"
  let ?w = "\<lparr>w_in = arrives, w_script = [], w_sent = []\<rparr>"
  note ok = test_state_ok [OF assms(1-6)]
  have "(case http_scan False bad_request (request_ctx ?st) of Done k y \<Rightarrow> k = 400 | _ \<Rightarrow> False)" by code_simp
  then obtain y where y: "http_scan False bad_request (request_ctx ?st) = Done 400 y" by (auto split: verdict.splits)
  have u: "unfolded False bad_request" and len: "length bad_request < 256" by code_simp+
  obtain code st' w' where h: "minute_httpd_handle (test_app gmtime) gmtime (clock 0) ?st ?w ()
      = Some (Some (code, st', w', ()))" "code = -400"
    using request_refused [OF ok(1), unfolded ok(2) assms(7), OF u, of "test_app gmtime" gmtime "clock 0" "()"] y ok(3) len
    by auto
  then show ?thesis
    by (simp add: run_test_def test_inetd_def test_loop.simps httpd_client_ok_open_def)
qed

section \<open>What a client sees\<close>


text \<open>A request with a payload, to the server of the test.\<close>

definition demo_target :: "uri_char list" where
  "demo_target = [Plain (CHR ''/''), Escaped (CHR ''4'') (CHR ''1'')]"

definition demo_query :: "uri_char list option" where
  "demo_query = Some [Plain (CHR ''q'')]"

definition demo_fields :: "field list" where
  "demo_fields = [(''Content-Length'', '' 5'', True)]"

definition demo_arrives :: "rd_event list" where
  "demo_arrives = [Recv (request_head ''POST'' demo_target demo_query http_1_1 True demo_fields True @ ''hello'')]"

definition demo_test :: minute_httpd_state where
  "demo_test = minute_httpd_init 0 1 (minute_iobuf_init 0x100 (replicate 256 NUL)) (minute_iobuf_init 0x400 (replicate 1024 NUL))
     (minute_textint_init 0x400 (replicate 1024 NUL))"

definition demo_etags :: "nat \<Rightarrow> (http_response_header \<times> string) list" where
  "demo_etags j = test_headers demo_clock ''/A'' ''q'' @ [(http_rsp_etag, test_etag (take j ''hello''))]"

lemma demo_test_waits:
  "request_waits demo_test \<lparr>w_in = demo_arrives, w_script = [], w_sent = []\<rparr> ''POST'' http_post demo_target demo_query http_1_1 True
     demo_fields True ''hello''"
proof -
  have b: "event_bytes demo_arrives < 256" by code_simp
  have e: "events_ok demo_arrives" "\<not> fails demo_arrives" "event_bytes demo_arrives < 2 ^ 31"
    "stream demo_arrives = request_head ''POST'' demo_target demo_query http_1_1 True demo_fields True @ ''hello''"
    using b by (simp_all add: demo_arrives_def events_ok_def request_head_def newline_def)
  have st: "state_ok demo_test \<lparr>w_in = demo_arrives, w_script = [], w_sent = []\<rparr>"
    "state_bytes demo_test \<lparr>w_in = demo_arrives, w_script = [], w_sent = []\<rparr> = stream demo_arrives"
    unfolding demo_test_def by (rule test_state_ok; use e in simp)+
  have s: "unat (ti_size (st_text demo_test)) = 1024" by (simp add: demo_test_def minute_httpd_init_def minute_textint_init_def)
  have h: "unfolded True ''hello''" "line_ok ''POST'' http_post demo_target demo_query http_1_1" "list_all field_ok demo_fields"
    "length (target_value demo_target demo_query) + table_room (headers_of demo_fields) < 1024"
    "\<not> flag_set (rq_flags (head_rq http_post demo_target demo_query http_1_1 demo_fields)) http_transfer_chunked"
    "payload_length (head_rq http_post demo_target demo_query http_1_1 demo_fields) = 5" by code_simp+
  show ?thesis unfolding request_waits_def s using st h by (simp add: e(4))
qed


end
