(* ===== verification/Http_Test.thy ===== *)
theory Http_Test
  imports Httpd_Head
begin

text \<open>
  The parser's own test, \<open>src/libhttp/test-http.c\<close>: a request in one buffer that ends there, read
  in one call, and the test's assertions on what \<open>minute_http_read\<close> leaves behind.  The test passes,
  whatever the memory of its text block holds before.
\<close>

section \<open>The test\<close>

definition test_head_lines :: bytes where
  "test_head_lines = ''GET /test/uri?with&query-string HTTP/1.1'' @ NL @ ''Host: minute.example.org'' @ NL
     @ ''Connection: close'' @ NL @ ''Expect: 100-continue'' @ NL @ ''Transfer-Encoding: chunked'' @ NL
     @ ''Content-Length: 27'' @ NL @ NL"

definition test_message :: bytes where
  "test_message = test_head_lines @ ''1b'' @ NL @ ''This data shouldn'' @ [CHR 0x27] @ ''t be read'' @ NL
     @ ''0'' @ NL @ NL"

text \<open>The array holds the terminating NUL as well, which is not part of the input.\<close>

definition test_input :: iobuf where
  "test_input = \<lparr>io_read = 0, io_write = of_nat (length test_message), io_mask = 0xff, io_flags = IOBUF_EOF,
     io_data = test_message @ [NUL]\<rparr>"

text \<open>\<open>strstr\<close>: the first place where a string stands in another.\<close>

fun strstr :: "string \<Rightarrow> string \<Rightarrow> nat option" where
  "strstr s [] = (if s = [] then Some 0 else None)"
| "strstr s (c # cs) = (if take (length s) (c # cs) = s then Some 0 else map_option Suc (strstr s cs))"

text \<open>The assertions, in their order.  A string of the text block that has no end inside it is
  undefined.\<close>

definition string_is :: "textint \<Rightarrow> nat \<Rightarrow> string \<Rightarrow> bool option" where
  "string_is t off s = do { x \<leftarrow> c_string_at (ti_data t) off; Some (x = s) }"

definition test_assertions :: "minute_http_rq \<Rightarrow> nat \<Rightarrow> iobuf \<Rightarrow> textint \<Rightarrow> bool option" where
  "test_assertions rq payloadOffset io t = do {
     path \<leftarrow> string_is t (unat (rq_path rq)) ''/test/uri'';
     query \<leftarrow> string_is t (unat (rq_query rq)) ''with&query-string'';
     header \<leftarrow> minute_textint_geti 0 t;
     hosti \<leftarrow> minute_textint_geti 1 t;
     host \<leftarrow> string_is t (nat hosti) ''minute.example.org'';
     Some (rq_request_method rq = http_get
       \<and> rq_server_protocol rq = http_1_1
       \<and> flag_set (rq_flags rq) http_connection_close
       \<and> flag_set (rq_flags rq) http_expect_continue
       \<and> flag_set (rq_flags rq) http_transfer_chunked
       \<and> flag_set (rq_flags rq) http_content_length
       \<and> rq_content_length rq = 27
       \<and> path \<and> query
       \<and> unat (io_read io) = payloadOffset
       \<and> minute_textint_intsize t = 2
       \<and> header = rq_code http_rq_host
       \<and> host
       \<and> ''Warning'' = request_header_name http_rq_warning)
   }"

text \<open>\<open>main\<close>: exit code 1 when the request is not read, \<open>abort\<close> (the inner \<open>None\<close>) when an assertion
  fails, or 0.\<close>

definition http_test_main :: "bytes \<Rightarrow> int option c_loop" where
  "http_test_main textbuf =
     (let text = \<lparr>ti_text = 0, ti_ints = 0x40, ti_size = 0x40, ti_data = textbuf\<rparr> in
      c_bind (Some (strstr (NL @ NL) test_message)) (\<lambda>off.
      c_bind (Some (minute_http_init MINUTE_ALL_HEADERS test_input text)) (\<lambda>(rqs, text).
      c_bind (minute_http_read zero_rq rqs test_input text) (\<lambda>(result, request, rqs, input, text).
        if result \<noteq> 0 then Some (Some (Some 1))
        else c_bind (Some (test_assertions request (off + 4) input text)) (\<lambda>ok.
          Some (Some (if ok then Some 0 else None)))))))"

section \<open>It passes\<close>

definition plain :: "string \<Rightarrow> uri_char list" where
  "plain = map Plain"

definition test_fields :: "field list" where
  "test_fields = [(''Host'', '' minute.example.org'', True), (''Connection'', '' close'', True),
     (''Expect'', '' 100-continue'', True), (''Transfer-Encoding'', '' chunked'', True), (''Content-Length'', '' 27'', True)]"

lemma test_message_head:
  "\<exists>rest. test_message = request_head ''GET'' (plain ''/test/uri'') (Some (plain ''with&query-string'')) http_1_1 True test_fields True @ rest"
proof -
  have "test_head_lines = request_head ''GET'' (plain ''/test/uri'') (Some (plain ''with&query-string'')) http_1_1 True test_fields True"
    by code_simp
  then show ?thesis by (auto simp: test_message_def)
qed

lemma test_input_meets: "meets test_input 0 test_message"
  by code_simp

definition padded_input :: iobuf where
  "padded_input = test_input\<lparr>io_data := test_message @ replicate 59 NUL\<rparr>"

lemma padded_input_ok: "iobuf_ok padded_input"
proof -
  have "iobuf_size padded_input = 2 ^ 8" "length (io_data padded_input) = 256" "unat (minute_iobuf_used padded_input) = 197" by code_simp+
  then show ?thesis by (auto simp: iobuf_ok_def intro!: exI [of _ 8])
qed

lemma test_facts:
  "line_ok ''GET'' http_get (plain ''/test/uri'') (Some (plain ''with&query-string'')) http_1_1" "list_all field_ok test_fields"
  "collected MINUTE_ALL_HEADERS test_fields = [(rq_code http_rq_host, ''minute.example.org'')]"
  "target_value (plain ''/test/uri'') (Some (plain ''with&query-string'')) = ''/test/uri'' @ [NUL] @ ''with&query-string'' @ [NUL]"
  "length (request_head ''GET'' (plain ''/test/uri'') (Some (plain ''with&query-string'')) http_1_1 True test_fields True) = 159"
  "strstr (NL @ NL) test_message = Some 155"
  by code_simp+

lemma test_rq:
  defines "rq \<equiv> head_rq http_get (plain ''/test/uri'') (Some (plain ''with&query-string'')) http_1_1 test_fields"
  shows "rq_request_method rq = http_get"
    "rq_server_protocol rq = http_1_1"
    "unat (rq_path rq) = 1"
    "unat (rq_query rq) = 11"
    "flag_set (rq_flags rq) http_connection_close"
    "flag_set (rq_flags rq) http_expect_continue"
    "flag_set (rq_flags rq) http_transfer_chunked"
    "flag_set (rq_flags rq) http_content_length"
    "rq_content_length rq = 27"
proof -
  have "rq = \<lparr>rq_flags = 29, rq_server_protocol = http_1_1, rq_request_method = http_get, rq_path = 1, rq_query = 11,
      rq_content_length = 27\<rparr>" unfolding rq_def by code_simp
  note rq = this
  show "rq_request_method rq = http_get" "rq_server_protocol rq = http_1_1" "unat (rq_path rq) = 1" "unat (rq_query rq) = 11" "rq_content_length rq = 27" by (simp_all add: rq)
  show "flag_set (rq_flags rq) http_connection_close" "flag_set (rq_flags rq) http_expect_continue" "flag_set (rq_flags rq) http_transfer_chunked" "flag_set (rq_flags rq) http_content_length" unfolding rq by code_simp+
qed

lemma test_warning: "request_header_name http_rq_warning = ''Warning''" by code_simp

theorem http_test_passes:
  assumes "length textbuf = 64"
  shows "http_test_main textbuf = Some (Some (Some 0))"
proof -
  let ?t = "\<lparr>ti_text = 0, ti_ints = 0x40, ti_size = 0x40, ti_data = textbuf\<rparr>"
    and ?path = "plain ''/test/uri''" and ?query = "Some (plain ''with&query-string'')"
  let ?head = "request_head ''GET'' ?path ?query http_1_1 True test_fields True"
    and ?rq = "head_rq http_get ?path ?query http_1_1 test_fields"
  obtain rest where rest: "test_message = ?head @ rest" using test_message_head by blast
  have t: "textint_ok ?t" "unat (ti_size ?t) = 64" using assms by (simp_all add: textint_ok_def)
  obtain s t0 where i: "minute_http_init MINUTE_ALL_HEADERS padded_input ?t = Some (s, t0)"
    using http_init_ready [OF padded_input_ok t(1)] by blast
  have init: "minute_http_init MINUTE_ALL_HEADERS test_input ?t = Some (s, t0)"
    using i by (simp add: minute_http_init_def minute_http_rqs_init_def padded_input_def)
  let ?x = "http_enter zero_rq s test_input t0"
  have x: "http_enter zero_rq s padded_input t0 = ?x" by (simp add: http_enter_def padded_input_def)
  have room: "length (target_value ?path ?query) + table_room (collected MINUTE_ALL_HEADERS test_fields) < unat (ti_size ?t)"
    unfolding test_facts(3,4) t(2) by (simp add: table_room_def)
  have "unat (ti_size ?t) < 2 ^ 31" by simp
  from scan_request [OF padded_input_ok t(1) this i test_facts(1,2) room, of True True True rest, folded rest]
  obtain y where y: "http_scan True test_message ?x = Done 0 y" "http_inv ?x" "fold_safe test_message ?x" "s_m ?x = 0"
      "s_m y = of_nat (length ?head)" "c_rq y = ?rq" "textint_ok (c_text y)"
      "textint_text (c_text y) = NUL # target_value ?path ?query @ header_words (collected MINUTE_ALL_HEADERS test_fields)"
      "textint_ints (c_text y) = header_table (1 + length (target_value ?path ?query)) (collected MINUTE_ALL_HEADERS test_fields)"
    unfolding x by (auto simp: padded_input_def test_input_def)
  have eof: "at_eof test_input" by (simp add: at_eof_def test_input_def IOBUF_EOF_def)
  have "http_go test_input None ?x = Some (Some (0, y))"
    using http_go_meets [OF y(2,3), of test_input] test_input_meets y(1,4) eof by (simp add: scan_result_def)
  then have read: "minute_http_read zero_rq s test_input t0 = Some (Some (http_leave s test_input 0 y))"
    by (simp add: minute_http_read_def)
  have words: "textint_text (c_text y) = [NUL] @ ''/test/uri'' @ NUL # ''with&query-string'' @ NUL # ''minute.example.org'' @ [NUL]"
    using y(8) unfolding test_facts(3,4) by simp
  have ints: "textint_ints (c_text y) = [rq_code http_rq_host, 29]"
    using y(9) unfolding test_facts(3,4) by simp
  have strings: "c_string_at (ti_data (c_text y)) 1 = Some ''/test/uri''" "c_string_at (ti_data (c_text y)) 11 = Some ''with&query-string''"
      "c_string_at (ti_data (c_text y)) 29 = Some ''minute.example.org''"
    using c_string_in_text [of "c_text y" "[NUL]" "''/test/uri''"]
      c_string_in_text [of "c_text y" "[NUL] @ ''/test/uri'' @ [NUL]" "''with&query-string''"]
      c_string_in_text [of "c_text y" "[NUL] @ ''/test/uri'' @ NUL # ''with&query-string'' @ [NUL]" "''minute.example.org''" "[]"] words
    by (simp_all add: eval_nat_numeral)
  have geti: "minute_textint_geti 0 (c_text y) = Some (rq_code http_rq_host)" "minute_textint_geti 1 (c_text y) = Some 29"
    using minute_textint_geti_nonneg [OF y(7), of 0] minute_textint_geti_nonneg [OF y(7), of 1] ints by simp_all
  have two: "minute_textint_intsize (c_text y) = 2"
    using textint_intsize [OF y(7)] ints by (simp add: word_unat_eq_iff)
  have pos: "unat (s_m y) = 159" unfolding y(5) test_facts(5) by simp
  note rq = test_rq [folded y(6)]
  have "test_assertions (c_rq y) 159 (test_input\<lparr>io_read := s_m y\<rparr>) (c_text y) = Some True"
    unfolding test_assertions_def string_is_def rq strings geti two test_warning using rq by (simp add: strings pos)
  then show ?thesis
    unfolding http_test_main_def Let_def init test_facts(6) by (simp add: read http_leave_def EAGAIN_def)
qed

end
