(* ===== verification/Spec2Isabelle.thy ===== *)
theory Spec2Isabelle
  imports Httpd_Serve Minuted_Processor Minuted_Master Tap_Session Minuted_Main Patricia_Table Httpd_Test Http_Test
begin

text \<open>
  Verification of minute-http: the HTTP protocol library \<open>libhttp\<close>, the service library \<open>libhttpd\<close>,
  the server \<open>minuted\<close> with its Tcl applications, and the tool that makes the library's tables.

  \<^bold>\<open>The program.\<close>  Bytes of a connection are read into a ring buffer (\<open>iobuf\<close>); the request parser
  takes them one by one through a state machine, looks names up in compacted tries, and puts path,
  query and header values into a block with characters growing from its start and integers from its
  end (\<open>textint\<close>).  \<open>minute_httpd_handle\<close> reads one request, calls the application for the head, the
  payload and the body of the response, buffers and chunks what it writes, and discards what it has not
  read.  \<open>minuted\<close> is the application that calls Tcl procedures.  A master process forks children that
  share a semaphore and accept connections; children send log lines and counts of their connections to
  the master through one message queue.  \<open>main\<close> reads the configuration, serves, and starts again after
  a SIGHUP.

  \<^bold>\<open>Theories and sources.\<close>  Every definition has the name of its C function where it models one.

  \<^item> \<open>Prelude\<close>: C integers, bytes, memory blocks and results, and the facts the others share.
  \<^item> \<open>Iobuf\<close> (\<open>libhttp/iobuf.c\<close>), \<open>Textint\<close> (\<open>libhttp/textint.c\<close>): the two buffers as records with
    their counters at 32 bits, all operations, invariants, and their contents as lists.
  \<^item> \<open>Http_Headers\<close>, \<open>Http\<close> (\<open>libhttp/http-headers.c\<close>, \<open>http-text.c\<close>, \<open>http.h\<close>): names, codes, texts.
  \<^item> \<open>Patricia\<close> (\<open>libhttp/http.c\<close>, the tables and \<open>walk_trie\<close>): the tables as they stand in the source,
    and that a walk over them is the look-up in a dictionary.
  \<^item> \<open>Http_Read\<close> (\<open>minute_http_read\<close>): one definition for every case of the switch, \<open>http_switch\<close> for
    the switch and \<open>http_go\<close> for the loop with its \<open>goto top\<close>.  \<open>Http_Safe\<close>: the invariant of the
    parser, kept by every case.  \<open>Http_Scan\<close>: the loop as a fold over the bytes.  \<open>Http_Resume\<close>: reading
    in pieces.  \<open>Http_Line\<close>, \<open>Http_Fields\<close>, \<open>Http_Message\<close>: what it makes of a request line, of a header
    line and of a whole head, given as data.  \<open>Http_Test\<close> (\<open>libhttp/test-http.c\<close>).
  \<^item> \<open>Iobuf_Util\<close> (\<open>libhttpd/iobuf-util.c\<close>): the ring buffer and descriptors.
  \<^item> \<open>Httpd_In\<close>, \<open>Httpd_Out\<close>, \<open>Httpd\<close> (\<open>libhttpd/httpd.c\<close>): input, output and handling of one request.
    \<open>Httpd_Request\<close>, \<open>Httpd_Chunked\<close>: reading a request and its payload.  \<open>Httpd_Output\<close>: what reaches the
    client.  \<open>Httpd_Response\<close>, \<open>Httpd_Answer\<close>, \<open>Httpd_Serve\<close>, \<open>Httpd_Head\<close>: whole responses, the contract
    of an application, and from the bytes of a request to those of the response.  \<open>Httpd_Test\<close>
    (\<open>libhttpd/test-httpd.c\<close>).
  \<^item> \<open>Tap_Search\<close>, \<open>Tap\<close> (\<open>minuted/tap.c\<close>): the look-up of names, the callbacks and the commands of the
    Tcl procedures.  \<open>Tap_Acts\<close>, \<open>Tap_Serve\<close>, \<open>Tap_Echo\<close>, \<open>Tap_Session\<close>: what procedures do, the response
    that the client gets, an example, and a connection over its requests.
  \<^item> \<open>Minuted_Config\<close> (\<open>minuted/config.c\<close>): the configuration language.
  \<^item> \<open>Minuted_Log\<close> (\<open>minuted/main.c\<close>, and the queue of \<open>minuted/minuted.c\<close>): log and control messages.
  \<^item> \<open>Minuted_Serve\<close>, \<open>Minuted_Processor\<close>, \<open>Minuted_Master\<close> (\<open>minuted/minuted.c\<close>): set-up, the accept loop of
    the children with their semaphore, and the master.
  \<^item> \<open>Minuted_Main\<close> (\<open>main\<close> of \<open>minuted/main.c\<close>): options, daemon, restarts.
  \<^item> \<open>Patricia_Build\<close>, \<open>Patricia_Place\<close>, \<open>Patricia_Table\<close> (\<open>tools/patricia-build.c\<close>): the trie of the input
    words, the placement of its rows in one table, and the printed table, read back by \<open>walk_trie\<close>.
\<close>

text \<open>
  \<^bold>\<open>What is shown.\<close>

  \<^item> Buffers: each operation's effect on the contents, at the width of the counters; where the code is
    right only below a wrap-around (\<open>minute_iobuf_put\<close>, \<open>minute_iobuf_flushfd\<close>) or has another flaw, the
    theorem says what it does with and without.
  \<^item> Parser: it always ends, with no access outside its tables and buffers; reading in pieces is reading
    at once; every well-formed head is read as what it says (\<open>request_read\<close>); the tries are their
    dictionaries; the parser's own test passes for any contents of its text block.
  \<^item> Service: reading a request ends with the parser's answer to the whole stream; chunks are read and
    written as lists; an answered request puts exactly the promised bytes on the wire, a refused one
    exactly one error response; nothing of a request or its payload is left for the next one.
  \<^item> Tcl applications: the same for the callbacks of \<open>tap.c\<close>, and where a failing procedure leads to a
    null pointer; requests reach the interpreter of their virtual host.
  \<^item> Processes: mutual exclusion of the children, the ways the semaphore is lost, the counts of served
    connections, spare children, reaping as removal from a multiset, the end, and the restarts.
  \<^item> Tool: a table that is printed is the dictionary of its input words.

  \<^bold>\<open>Interfaces.\<close>  \<open>byte_queue\<close> (the ring as a queue of bytes; interpreted on \<open>iobuf\<close>), \<open>text_arena\<close> (the
  two heads of a block; on \<open>textint\<close>), \<open>trie_table\<close> (a table whose walk is a dictionary; on each of the
  six tables of \<open>http.c\<close>), \<open>http_application\<close> (what an application promises; on one that only writes, on
  \<open>tap.c\<close> and on the server's test), \<open>app_invariant\<close> (what all callbacks keep; on the access log of
  \<open>tap.c\<close>).

  \<^bold>\<open>Results and loops.\<close>  Straight-line code is an \<open>option\<close>: \<open>None\<close> is undefined behaviour (an access
  outside a block, a null pointer).  A loop that may not end is a \<open>partial_function\<close>: there the outer
  \<open>None\<close> is not returning, \<open>Some None\<close> undefined behaviour, and \<open>Some (Some r)\<close> a return; that a loop returns
  is part of its theorems.  No fuel is used.  The parser's termination rests on a rank: a character causes
  at most five passes through the switch.

  \<^bold>\<open>Bounds.\<close>  Theorems about whole connections ask that the counters stay below \<open>2 ^ 31\<close> (beyond it the
  comparisons of counters in the code are wrong, as \<open>Iobuf\<close> and \<open>Iobuf_Util\<close> show) and that output buffers
  are below half a megabyte, so that the size line of a chunk fits its five digits.  The builder's limits
  (words of at most 28 characters, less than 64 nodes and places) are hypotheses; its input is the list of
  the lines that \<open>fgets\<close> answers.

  \<^bold>\<open>Parameters.\<close>  The Tcl interpreter is a record of its operations on values with the documented laws of
  dictionaries and lists (\<open>tcl_laws\<close>), and a procedure is a tree of the commands it calls; concrete values
  for both are in \<open>Tap\<close>.  \<open>gmtime_r\<close> and the clock are functions.  What the kernel answers (\<open>readv\<close>,
  \<open>writev\<close>, \<open>fork\<close>, \<open>waitpid\<close>, \<open>poll\<close>, \<open>accept\<close>, message queues, signals, \<open>bind\<close> and \<open>listen\<close>) is a script or an
  event.  \<open>vsnprintf\<close> and \<open>getopt\<close> are modelled as the C library documents them, for what is used of them.
  The interrupt that stops the tool's search is the number of times the search looks at its flag.

  \<^bold>\<open>Not modelled.\<close>  Reference counts and the freeing of interpreters, which have no effect on values; the
  build of the server without children (\<open>minuted_serve_single\<close>), which does not compile as its call of
  \<open>minuted_serve_processor\<close> lacks arguments; the code under \<open>USE_CONTENT_TYPES\<close>, whose types are not
  declared anywhere; the tables of Tcl channel and object types, and channel procedures that do
  nothing; the installation of signal handlers and the making of semaphore and queue; the readable
  printing of the trie and the messages of the tool; and the pipes of the server's test, whose contents
  are given.
\<close>

end
